(* ===== verification/Codex_Prelude.thy ===== *)
theory Codex_Prelude
  imports Main
begin

text \<open>
  Shared material of the development: the machine integers of the Rust sources (\<open>usize\<close>,
  \<open>u64\<close>, \<open>i64\<close>) with the saturating, wrapping and checked operations the code calls, the
  iterator and vector idioms it uses (\<open>position\<close>, \<open>rposition\<close>, \<open>find_map\<close>, \<open>Vec::remove\<close>,
  \<open>iter_mut().find\<close>), decimal formatting of integers, and the generic notion of a reachable
  state with its invariant rule, stated once as a locale that the components interpret.
\<close>

named_theorems sat_simps \<open>unfolding of saturating and wrapping arithmetic\<close>
named_theorems rust_list_simps \<open>rewriting of the iterator idioms\<close>

section \<open>Machine integers\<close>

text \<open>
  A \<open>usize\<close> and a \<open>u64\<close> are natural numbers below \<open>2^64\<close> (the targets are 64-bit), an \<open>i64\<close>
  is an integer between its bounds. Every operation that can leave the range is written with
  the behaviour the source selects: \<open>saturating_*\<close> clamps, \<open>+\<close> wraps around in a release build.
\<close>

type_synonym usize = nat
type_synonym u64 = nat
type_synonym i64 = int

definition usize_MAX :: usize where "usize_MAX = 2 ^ 64 - 1"
definition u64_MAX :: u64 where "u64_MAX = 2 ^ 64 - 1"
definition i64_MAX :: i64 where "i64_MAX = 2 ^ 63 - 1"
definition i64_MIN :: i64 where "i64_MIN = - (2 ^ 63)"

lemmas int_limits = usize_MAX_def u64_MAX_def i64_MAX_def i64_MIN_def

definition usize_sat_add :: "usize \<Rightarrow> usize \<Rightarrow> usize" where
  [sat_simps]: "usize_sat_add a b = min (a + b) usize_MAX"

definition usize_sat_sub :: "usize \<Rightarrow> usize \<Rightarrow> usize" where
  [sat_simps]: "usize_sat_sub a b = a - b"

definition usize_sat_mul :: "usize \<Rightarrow> usize \<Rightarrow> usize" where
  [sat_simps]: "usize_sat_mul a b = min (a * b) usize_MAX"

definition i64_clamp :: "int \<Rightarrow> i64" where
  "i64_clamp x = max i64_MIN (min i64_MAX x)"

definition i64_sat_add :: "i64 \<Rightarrow> i64 \<Rightarrow> i64" where
  [sat_simps]: "i64_sat_add a b = i64_clamp (a + b)"

definition i64_sat_sub :: "i64 \<Rightarrow> i64 \<Rightarrow> i64" where
  [sat_simps]: "i64_sat_sub a b = i64_clamp (a - b)"

definition i64_sat_mul :: "i64 \<Rightarrow> i64 \<Rightarrow> i64" where
  [sat_simps]: "i64_sat_mul a b = i64_clamp (a * b)"

text \<open>Two's complement wrap-around, what \<open>+\<close> on \<open>i64\<close> does without overflow checks.\<close>

definition i64_wrap :: "int \<Rightarrow> i64" where
  "i64_wrap x = (x + 2 ^ 63) mod 2 ^ 64 - 2 ^ 63"

definition is_i64 :: "int \<Rightarrow> bool" where
  "is_i64 x \<longleftrightarrow> i64_MIN \<le> x \<and> x \<le> i64_MAX"

text \<open>\<open>i64::try_from(n).unwrap_or(i64::MAX)\<close> on a \<open>usize\<close> or \<open>u64\<close>.\<close>

definition i64_of_usize :: "nat \<Rightarrow> i64" where
  "i64_of_usize n = (if int n \<le> i64_MAX then int n else i64_MAX)"

lemma i64_clamp_range [simp]: "is_i64 (i64_clamp x)"
  by (simp add: is_i64_def i64_clamp_def int_limits)

lemma i64_clamp_id: "is_i64 x \<Longrightarrow> i64_clamp x = x"
  by (auto simp: is_i64_def i64_clamp_def)

lemma i64_clamp_mono: "x \<le> y \<Longrightarrow> i64_clamp x \<le> i64_clamp y"
  by (auto simp: i64_clamp_def)

lemma i64_clamp_nonneg: "0 \<le> x \<Longrightarrow> 0 \<le> i64_clamp x"
  by (auto simp: i64_clamp_def int_limits)

lemma i64_wrap_id: "is_i64 x \<Longrightarrow> i64_wrap x = x"
  by (simp add: is_i64_def i64_wrap_def int_limits)

lemma i64_wrap_range [simp]: "is_i64 (i64_wrap x)"
proof -
  have "0 \<le> (x + 2 ^ 63) mod 2 ^ 64" "(x + 2 ^ 63) mod 2 ^ 64 < 2 ^ 64" by simp_all
  then show ?thesis by (simp add: is_i64_def i64_wrap_def int_limits)
qed

lemma i64_of_usize_range [simp]: "is_i64 (i64_of_usize n)" "0 \<le> i64_of_usize n"
  by (auto simp: i64_of_usize_def is_i64_def int_limits)

lemma i64_sat_range [simp]:
  "is_i64 (i64_sat_add a b)" "is_i64 (i64_sat_sub a b)" "is_i64 (i64_sat_mul a b)"
  by (simp_all add: sat_simps)

text \<open>
  A left fold of \<open>saturating_add\<close> over non-negative summands is the clamped sum: saturation
  at the top is absorbing, so the intermediate clamps do not change the result.
\<close>

lemma fold_sat_add_nonneg:
  assumes "\<forall>x\<in>set xs. 0 \<le> x" "0 \<le> a" "a \<le> i64_MAX"
  shows "foldl i64_sat_add a xs = i64_clamp (a + sum_list xs)"
  using assms
proof (induction xs arbitrary: a)
  case Nil
  then show ?case by (auto simp: i64_clamp_def int_limits)
next
  case (Cons x xs)
  have ge: "0 \<le> sum_list xs" using Cons.prems(1) by (simp add: sum_list_nonneg)
  have "foldl i64_sat_add (i64_sat_add a x) xs = i64_clamp (i64_sat_add a x + sum_list xs)"
    using Cons.prems by (intro Cons.IH) (auto simp: sat_simps i64_clamp_def int_limits)
  also have "\<dots> = i64_clamp (a + sum_list (x # xs))"
    using Cons.prems ge by (auto simp: sat_simps i64_clamp_def int_limits min_def max_def)
  finally show ?case by simp
qed

section \<open>Iterator and vector idioms\<close>

text \<open>\<open>iter().position(p)\<close>: the index of the first match.\<close>

fun position :: "('a \<Rightarrow> bool) \<Rightarrow> 'a list \<Rightarrow> usize option" where
  "position p [] = None"
| "position p (x # xs) = (if p x then Some 0 else map_option Suc (position p xs))"

text \<open>\<open>iter().rposition(p)\<close>: the index of the last match.\<close>

fun rposition :: "('a \<Rightarrow> bool) \<Rightarrow> 'a list \<Rightarrow> usize option" where
  "rposition p [] = None"
| "rposition p (x # xs) =
     (case rposition p xs of
        Some i \<Rightarrow> Some (Suc i)
      | None \<Rightarrow> (if p x then Some 0 else None))"

text \<open>\<open>iter().find_map(f)\<close>.\<close>

fun find_map :: "('a \<Rightarrow> 'b option) \<Rightarrow> 'a list \<Rightarrow> 'b option" where
  "find_map f [] = None"
| "find_map f (x # xs) = (case f x of Some y \<Rightarrow> Some y | None \<Rightarrow> find_map f xs)"

text \<open>\<open>Vec::remove(i)\<close> at an index in range.\<close>

definition remove_nth :: "usize \<Rightarrow> 'a list \<Rightarrow> 'a list" where
  "remove_nth i xs = take i xs @ drop (Suc i) xs"

text \<open>\<open>if let Some(x) = iter_mut().find(p) { *x = f(x) }\<close>.\<close>

fun update_first :: "('a \<Rightarrow> bool) \<Rightarrow> ('a \<Rightarrow> 'a) \<Rightarrow> 'a list \<Rightarrow> 'a list" where
  "update_first p f [] = []"
| "update_first p f (x # xs) = (if p x then f x # xs else x # update_first p f xs)"

lemma in_map_filter: "y \<in> set (List.map_filter f xs) \<longleftrightarrow> (\<exists>x\<in>set xs. f x = Some y)"
  by (induction xs) (auto simp: List.map_filter_simps split: option.splits)

lemma position_None [rust_list_simps]: "position p xs = None \<longleftrightarrow> (\<forall>x\<in>set xs. \<not> p x)"
  by (induction xs) auto

lemma position_Some_split:
  "position p xs = Some i \<Longrightarrow>
     \<exists>us y vs. xs = us @ y # vs \<and> length us = i \<and> p y \<and> (\<forall>x\<in>set us. \<not> p x)"
proof (induction xs arbitrary: i)
  case Nil
  then show ?case by simp
next
  case (Cons x xs)
  show ?case
  proof (cases "p x")
    case True
    with Cons.prems show ?thesis by (intro exI[of _ "[]"]) auto
  next
    case False
    with Cons.prems obtain j where j: "position p xs = Some j" "i = Suc j" by auto
    from Cons.IH[OF j(1)] obtain us y vs
      where "xs = us @ y # vs" "length us = j" "p y" "\<forall>x\<in>set us. \<not> p x" by blast
    with False j(2) show ?thesis by (intro exI[of _ "x # us"]) auto
  qed
qed

lemma rposition_None [rust_list_simps]: "rposition p xs = None \<longleftrightarrow> (\<forall>x\<in>set xs. \<not> p x)"
  by (induction xs) (auto split: option.splits)

lemma rposition_Some_split:
  "rposition p xs = Some i \<Longrightarrow>
     \<exists>us y vs. xs = us @ y # vs \<and> length us = i \<and> p y \<and> (\<forall>x\<in>set vs. \<not> p x)"
proof (induction xs arbitrary: i)
  case Nil
  then show ?case by simp
next
  case (Cons x xs)
  show ?case
  proof (cases "rposition p xs")
    case None
    with Cons.prems have "p x" "i = 0" by (auto split: if_splits)
    with None show ?thesis by (intro exI[of _ "[]"]) (auto simp: rust_list_simps)
  next
    case (Some j)
    with Cons.prems have "i = Suc j" by simp
    from Cons.IH[OF Some] obtain us y vs
      where "xs = us @ y # vs" "length us = j" "p y" "\<forall>x\<in>set vs. \<not> p x" by blast
    with \<open>i = Suc j\<close> show ?thesis by (intro exI[of _ "x # us"]) auto
  qed
qed

lemma rposition_append_match:
  "p y \<Longrightarrow> \<forall>x\<in>set vs. \<not> p x \<Longrightarrow> rposition p (us @ y # vs) = Some (length us)"
proof (induction us)
  case Nil
  then show ?case using rposition_None[of p vs] by (auto split: option.splits)
qed auto

lemma remove_nth_append [rust_list_simps]: "remove_nth (length us) (us @ y # vs) = us @ vs"
  by (simp add: remove_nth_def)

lemma length_update_first [simp]: "length (update_first p f xs) = length xs"
  by (induction xs) auto

lemma map_update_first_same:
  "(\<And>x. g (f x) = g x) \<Longrightarrow> map g (update_first p f xs) = map g xs"
  by (induction xs) auto

lemma update_first_no_match: "\<forall>x\<in>set xs. \<not> p x \<Longrightarrow> update_first p f xs = xs"
  by (induction xs) auto

lemma set_update_first: "y \<in> set (update_first p f xs) \<Longrightarrow> y \<in> set xs \<or> (\<exists>x\<in>set xs. p x \<and> y = f x)"
  by (induction xs) (auto split: if_splits)

section \<open>Decimal formatting\<close>

text \<open>The \<open>{}\<close> of \<open>format!\<close> on an unsigned integer, and on a signed one.\<close>

fun nat_to_string :: "nat \<Rightarrow> string" where
  "nat_to_string n =
     (if n < 10 then [char_of (48 + n)]
      else nat_to_string (n div 10) @ [char_of (48 + n mod 10)])"

declare nat_to_string.simps [simp del]

definition int_to_string :: "int \<Rightarrow> string" where
  "int_to_string i = (if i < 0 then ''-'' @ nat_to_string (nat (- i)) else nat_to_string (nat i))"

definition string_to_nat :: "string \<Rightarrow> nat" where
  "string_to_nat s = foldl (\<lambda>a c. 10 * a + (of_char c - 48)) 0 s"

lemma string_to_nat_nat_to_string: "string_to_nat (nat_to_string n) = n"
proof (induction n rule: nat_to_string.induct)
  case (1 n)
  show ?case
  proof (cases "n < 10")
    case True
    then show ?thesis
      by (simp add: nat_to_string.simps[of n] string_to_nat_def)
  next
    case False
    have "n mod 10 < 10" by simp
    then have "48 + n mod 10 < 256" by linarith
    with 1 False show ?thesis
      by (simp add: nat_to_string.simps[of n] string_to_nat_def)
  qed
qed

lemma nat_to_string_inject [simp]: "nat_to_string m = nat_to_string n \<longleftrightarrow> m = n"
  by (metis string_to_nat_nat_to_string)

lemma nat_to_string_nonempty [simp]: "nat_to_string n \<noteq> []"
  by (subst nat_to_string.simps) simp

lemma length_nat_to_string:
  "n < 10 ^ Suc k \<Longrightarrow> length (nat_to_string n) \<le> Suc k"
proof (induction k arbitrary: n)
  case 0
  then show ?case by (subst nat_to_string.simps) simp
next
  case (Suc k)
  show ?case
  proof (cases "n < 10")
    case True
    then show ?thesis by (subst nat_to_string.simps) simp
  next
    case False
    have "n div 10 < 10 ^ Suc k" using Suc.prems by (simp add: less_mult_imp_div_less mult.commute)
    from Suc.IH[OF this] False show ?thesis by (simp add: nat_to_string.simps[of n])
  qed
qed

section \<open>Reachable states and invariants\<close>

text \<open>
  The states a component can get into: an initial one, or one step away from a reachable one.
  The locale states what an invariant has to satisfy; its lemma is the only induction.
\<close>

inductive reachable :: "('s \<Rightarrow> bool) \<Rightarrow> ('s \<Rightarrow> 's \<Rightarrow> bool) \<Rightarrow> 's \<Rightarrow> bool"
  for init :: "'s \<Rightarrow> bool" and step :: "'s \<Rightarrow> 's \<Rightarrow> bool" where
  reach_init: "init s \<Longrightarrow> reachable init step s"
| reach_step: "reachable init step s \<Longrightarrow> step s t \<Longrightarrow> reachable init step t"

locale step_invariant =
  fixes init :: "'s \<Rightarrow> bool"
    and step :: "'s \<Rightarrow> 's \<Rightarrow> bool"
    and inv :: "'s \<Rightarrow> bool"
  assumes inv_init: "init s \<Longrightarrow> inv s"
    and inv_step: "inv s \<Longrightarrow> step s t \<Longrightarrow> inv t"
begin

lemma reachable_inv:
  assumes "reachable init step s"
  shows "inv s"
  using assms by (induction rule: reachable.induct) (auto intro: inv_init inv_step)

end

end
