(* ===== verification/Utf8_Text.thy ===== *)
theory Utf8_Text
  imports Codex_Prelude
begin

text \<open>
  Rust's \<open>str\<close> as the sources use it. A string is its UTF-8 byte sequence (an Isabelle
  \<open>char\<close> is one byte), so \<open>length\<close> is \<open>str::len\<close> and an index is a byte offset. The theory
  models the standard-library operations that the components call: character boundaries,
  \<open>chars\<close>, \<open>char_indices\<close>, trimming by Unicode white space, searching and splitting,
  ASCII case folding, and \<open>std::str::from_utf8\<close> with its error positions.
\<close>

section \<open>Characters and boundaries\<close>

definition byte_of :: "char \<Rightarrow> nat" where
  "byte_of c = of_char c"

text \<open>A continuation byte is \<open>0b10xxxxxx\<close>.\<close>

definition is_cont :: "char \<Rightarrow> bool" where
  "is_cont c \<longleftrightarrow> 128 \<le> byte_of c \<and> byte_of c < 192"

text \<open>\<open>str::chars\<close>: each character as its bytes, a first byte and the continuations after it.\<close>

function utf8_chars :: "string \<Rightarrow> string list" where
  "utf8_chars [] = []"
| "utf8_chars (c # cs) = (c # takeWhile is_cont cs) # utf8_chars (dropWhile is_cont cs)"
  by pat_completeness auto
termination
  by (relation "measure length") (auto simp: length_dropWhile_le le_imp_less_Suc)

definition is_char_boundary :: "string \<Rightarrow> usize \<Rightarrow> bool" where
  "is_char_boundary s i \<longleftrightarrow> i = 0 \<or> i = length s \<or> (i < length s \<and> \<not> is_cont (s ! i))"

text \<open>\<open>str::char_indices\<close> with each character replaced by its \<open>len_utf8\<close>.\<close>

fun char_indices_from :: "usize \<Rightarrow> string list \<Rightarrow> (usize \<times> usize) list" where
  "char_indices_from i [] = []"
| "char_indices_from i (ch # chs) = (i, length ch) # char_indices_from (i + length ch) chs"

definition char_indices :: "string \<Rightarrow> (usize \<times> usize) list" where
  "char_indices s = char_indices_from 0 (utf8_chars s)"

lemma concat_utf8_chars [simp]: "concat (utf8_chars s) = s"
  by (induction s rule: utf8_chars.induct) auto

lemma utf8_chars_nonempty: "ch \<in> set (utf8_chars s) \<Longrightarrow> ch \<noteq> []"
  by (induction s rule: utf8_chars.induct) auto

lemma utf8_chars_Nil_iff [simp]: "utf8_chars s = [] \<longleftrightarrow> s = []"
  by (cases s) auto

lemma utf8_chars_append:
  assumes "ys = [] \<or> \<not> is_cont (hd ys)"
  shows "utf8_chars (xs @ ys) = utf8_chars xs @ utf8_chars ys"
proof (induction xs rule: utf8_chars.induct)
  case 1
  then show ?case by simp
next
  case (2 c cs)
  have tw: "takeWhile is_cont ys = []" using assms by (cases ys) auto
  have dw: "dropWhile is_cont ys = ys" using assms by (cases ys) auto
  show ?case
  proof (cases "\<forall>x\<in>set cs. is_cont x")
    case True
    then have all: "dropWhile is_cont cs = []" "takeWhile is_cont cs = cs"
      by (auto simp: takeWhile_eq_all_conv)
    have "takeWhile is_cont (cs @ ys) = cs" "dropWhile is_cont (cs @ ys) = ys"
      using takeWhile_append2[of cs is_cont ys] dropWhile_append2[of cs is_cont ys] True tw dw
      by auto
    then show ?thesis by (simp add: all)
  next
    case False
    then have "takeWhile is_cont (cs @ ys) = takeWhile is_cont cs"
      "dropWhile is_cont (cs @ ys) = dropWhile is_cont cs @ ys"
      by (auto simp: takeWhile_append dropWhile_append)
    with 2 show ?thesis by simp
  qed
qed

lemma length_utf8_chars_le: "length (utf8_chars s) \<le> length s"
proof (induction s rule: utf8_chars.induct)
  case (2 c cs)
  then show ?case using length_dropWhile_le[of is_cont cs] by simp
qed simp

lemma sum_list_utf8_chars: "sum_list (map length (utf8_chars s)) = length s"
  by (metis concat_utf8_chars length_concat)

section \<open>White space and trimming\<close>

text \<open>
  The Unicode \<open>White_Space\<close> characters by their UTF-8 encoding, what \<open>char::is_whitespace\<close>
  accepts: U+0009 to U+000D, U+0020, U+0085, U+00A0, U+1680, U+2000 to U+200A, U+2028, U+2029,
  U+202F, U+205F and U+3000.
\<close>

definition is_whitespace :: "string \<Rightarrow> bool" where
  "is_whitespace ch \<longleftrightarrow>
     (case map byte_of ch of
        [b] \<Rightarrow> (9 \<le> b \<and> b \<le> 13) \<or> b = 32
      | [b1, b2] \<Rightarrow> b1 = 194 \<and> (b2 = 133 \<or> b2 = 160)
      | [b1, b2, b3] \<Rightarrow>
          (b1 = 225 \<and> b2 = 154 \<and> b3 = 128)
          \<or> (b1 = 226 \<and> b2 = 128 \<and> (b3 \<le> 138 \<or> b3 = 168 \<or> b3 = 169 \<or> b3 = 175))
          \<or> (b1 = 226 \<and> b2 = 129 \<and> b3 = 159)
          \<or> (b1 = 227 \<and> b2 = 128 \<and> b3 = 128)
      | _ \<Rightarrow> False)"

definition trim_start :: "string \<Rightarrow> string" where
  "trim_start s = concat (dropWhile is_whitespace (utf8_chars s))"

definition trim_end :: "string \<Rightarrow> string" where
  "trim_end s = concat (rev (dropWhile is_whitespace (rev (utf8_chars s))))"

definition trim :: "string \<Rightarrow> string" where
  "trim s = trim_end (trim_start s)"

lemma trim_start_non_ws:
  assumes "\<not> is_whitespace [c]" "\<not> is_cont d"
  shows "trim_start (c # d # s) = c # d # s"
proof -
  have "utf8_chars (c # d # s) = [c] # utf8_chars (d # s)" using assms(2) by simp
  with assms(1) show ?thesis
    by (simp add: trim_start_def del: utf8_chars.simps(2))
qed

lemma trim_end_non_ws:
  assumes "\<not> is_whitespace [c]" "\<not> is_cont c"
  shows "trim_end (s @ [c]) = s @ [c]"
proof -
  have "utf8_chars (s @ [c]) = utf8_chars s @ [[c]]"
    using utf8_chars_append[of "[c]" s] assms(2) by simp
  with assms(1) show ?thesis
    by (simp add: trim_end_def)
qed

section \<open>Searching, splitting, case folding\<close>

definition starts_with :: "string \<Rightarrow> string \<Rightarrow> bool" where
  "starts_with s p \<longleftrightarrow> take (length p) s = p"

definition ends_with :: "string \<Rightarrow> string \<Rightarrow> bool" where
  "ends_with s p \<longleftrightarrow> length p \<le> length s \<and> drop (length s - length p) s = p"

definition strip_prefix :: "string \<Rightarrow> string \<Rightarrow> string option" where
  "strip_prefix s p = (if starts_with s p then Some (drop (length p) s) else None)"

text \<open>\<open>str::find\<close> of a substring: the byte offset of its first occurrence.\<close>

fun find_sub :: "string \<Rightarrow> string \<Rightarrow> usize option" where
  "find_sub [] p = (if p = [] then Some 0 else None)"
| "find_sub (c # cs) p =
     (if starts_with (c # cs) p then Some 0 else map_option Suc (find_sub cs p))"

definition split_once :: "string \<Rightarrow> string \<Rightarrow> (string \<times> string) option" where
  "split_once s p = map_option (\<lambda>i. (take i s, drop (i + length p) s)) (find_sub s p)"

text \<open>\<open>str::split\<close> at a character: always at least one part.\<close>

fun split_char :: "char \<Rightarrow> string \<Rightarrow> string list" where
  "split_char d [] = [[]]"
| "split_char d (c # cs) =
     (if c = d then [] # split_char d cs
      else (case split_char d cs of [] \<Rightarrow> [[c]] | w # ws \<Rightarrow> (c # w) # ws))"

definition to_ascii_lowercase_byte :: "char \<Rightarrow> char" where
  "to_ascii_lowercase_byte c =
     (if 65 \<le> byte_of c \<and> byte_of c \<le> 90 then char_of (byte_of c + 32) else c)"

definition to_ascii_lowercase :: "string \<Rightarrow> string" where
  "to_ascii_lowercase s = map to_ascii_lowercase_byte s"

definition eq_ignore_ascii_case :: "string \<Rightarrow> string \<Rightarrow> bool" where
  "eq_ignore_ascii_case a b \<longleftrightarrow> to_ascii_lowercase a = to_ascii_lowercase b"

text \<open>\<open>str::get(..n)\<close> and \<open>str::get(n..)\<close>: \<open>None\<close> out of range or off a boundary.\<close>

definition get_to :: "string \<Rightarrow> usize \<Rightarrow> string option" where
  "get_to s n = (if n \<le> length s \<and> is_char_boundary s n then Some (take n s) else None)"

definition get_from :: "string \<Rightarrow> usize \<Rightarrow> string option" where
  "get_from s n = (if n \<le> length s \<and> is_char_boundary s n then Some (drop n s) else None)"

text \<open>\<open>str::lines().count()\<close>: a final line without a line break counts when it is not empty.\<close>

definition line_count :: "string \<Rightarrow> usize" where
  "line_count s = length (filter (\<lambda>c. c = CHR 0x0A) s)
     + (if s = [] \<or> last s = CHR 0x0A then 0 else 1)"

text \<open>\<open>[&str]::join\<close>.\<close>

fun join :: "string \<Rightarrow> string list \<Rightarrow> string" where
  "join sep [] = []"
| "join sep [w] = w"
| "join sep (w # v # ws) = w @ sep @ join sep (v # ws)"

lemma starts_with_append [simp]: "starts_with (p @ s) p"
  by (simp add: starts_with_def)

lemma starts_with_iff: "starts_with s p \<longleftrightarrow> (\<exists>r. s = p @ r)"
  unfolding starts_with_def by (metis append_eq_conv_conj)

lemma ends_with_append [simp]: "ends_with (s @ p) p"
  by (simp add: ends_with_def)

lemma ends_with_iff: "ends_with s p \<longleftrightarrow> (\<exists>r. s = r @ p)"
  by (auto simp: ends_with_def) (metis append_take_drop_id)

lemma strip_prefix_append [simp]: "strip_prefix (p @ s) p = Some s"
  by (simp add: strip_prefix_def)

lemma find_sub_Some:
  "find_sub s p = Some i \<Longrightarrow> i + length p \<le> length s \<and> take (length p) (drop i s) = p"
proof (induction s p arbitrary: i rule: find_sub.induct)
  case (1 p)
  then show ?case by (auto split: if_splits)
next
  case (2 c cs p)
  show ?case
  proof (cases "starts_with (c # cs) p")
    case True
    with "2.prems" have i: "i = 0" by simp
    from True have "take (length p) (c # cs) = p" by (simp add: starts_with_def)
    moreover from True have "length p \<le> length (c # cs)"
      by (auto simp only: starts_with_iff length_append)
    ultimately show ?thesis using i by simp
  next
    case False
    with 2 show ?thesis by auto
  qed
qed

lemma find_sub_split:
  assumes "find_sub s p = Some i"
  shows "s = take i s @ p @ drop (i + length p) s"
proof -
  from find_sub_Some[OF assms] have "take (length p) (drop i s) = p" by simp
  then show ?thesis
    by (metis add.commute append_take_drop_id drop_drop)
qed

lemma find_sub_None:
  "find_sub s p = None \<longleftrightarrow> (\<nexists>u v. s = u @ p @ v)"
proof (induction s p rule: find_sub.induct)
  case (1 p)
  then show ?case by auto
next
  case (2 c cs p)
  show ?case
  proof (cases "starts_with (c # cs) p")
    case True
    then obtain r where "c # cs = [] @ p @ r" by (auto simp: starts_with_iff)
    with True show ?thesis by (metis find_sub.simps(2) option.distinct(1))
  next
    case False
    have "(\<exists>u v. c # cs = u @ p @ v) \<longleftrightarrow> (\<exists>u v. cs = u @ p @ v)"
      using False by (auto simp: starts_with_iff Cons_eq_append_conv)
    with False 2 show ?thesis by simp
  qed
qed

lemma all_le_Suc: "(\<forall>j\<le>Suc n. P j) \<longleftrightarrow> P 0 \<and> (\<forall>j\<le>n. P (Suc j))"
  by (metis Suc_le_mono not0_implies_Suc zero_le)

lemma find_sub_None_iff: "find_sub s p = None \<longleftrightarrow> (\<forall>j\<le>length s. \<not> starts_with (drop j s) p)"
  by (induction s) (auto simp: starts_with_def all_le_Suc)

lemma find_sub_Some_iff:
  "find_sub s p = Some i \<longleftrightarrow>
     i \<le> length s \<and> starts_with (drop i s) p \<and> (\<forall>j<i. \<not> starts_with (drop j s) p)"
proof (induction s arbitrary: i)
  case Nil
  then show ?case by (auto simp: starts_with_def)
next
  case (Cons c s)
  then show ?case by (cases i) (auto simp: less_Suc_eq_0_disj)
qed

lemma starts_with_append_mono: "starts_with s p \<Longrightarrow> starts_with (s @ t) p"
  by (auto simp: starts_with_iff)

lemma find_sub_append_Some:
  assumes "find_sub s p = Some i"
  shows "find_sub (s @ t) p = Some i"
proof -
  have i: "i + length p \<le> length s" using find_sub_Some[OF assms] by simp
  have "\<not> starts_with (drop j (s @ t)) p" if "j < i" for j
  proof
    assume "starts_with (drop j (s @ t)) p"
    moreover have "j + length p \<le> length s" using that i by simp
    ultimately have "starts_with (drop j s) p" by (simp add: starts_with_def)
    with assms that show False by (simp add: find_sub_Some_iff)
  qed
  moreover have "starts_with (drop i s @ drop (i - length s) t) p"
    using assms by (intro starts_with_append_mono) (simp add: find_sub_Some_iff)
  ultimately show ?thesis using i by (simp add: find_sub_Some_iff)
qed

lemma find_sub_single_append:
  "c \<notin> set xs \<Longrightarrow> find_sub (xs @ c # ys) [c] = Some (length xs)"
  by (induction xs) (auto simp: starts_with_def)

lemma find_sub_single_first:
  "find_sub s [c] = Some i \<Longrightarrow> s = take i s @ c # drop (Suc i) s \<and> c \<notin> set (take i s)"
proof (induction s arbitrary: i)
  case (Cons a s)
  then show ?case by (cases i) (auto simp: starts_with_def split: if_splits)
qed simp

lemma split_char_no_sep: "d \<notin> set xs \<Longrightarrow> split_char d xs = [xs]"
  by (induction xs) auto

lemma split_char_append: "d \<notin> set xs \<Longrightarrow> split_char d (xs @ d # ys) = xs # split_char d ys"
  by (induction xs) auto

lemma split_once_single_append:
  "c \<notin> set xs \<Longrightarrow> split_once (xs @ c # ys) [c] = Some (xs, ys)"
  by (simp add: split_once_def find_sub_single_append)

section \<open>UTF-8 validation\<close>

text \<open>
  \<open>std::str::from_utf8\<close>: the result of looking at the sequence that starts the input. A
  well-formed character of a given width, an invalid sequence of which \<open>error_len\<close> bytes are
  rejected, or an input that ends inside a sequence (\<open>error_len\<close> is \<open>None\<close>).
\<close>

datatype utf8_seq = Utf8_char nat | Utf8_invalid nat | Utf8_incomplete

definition utf8_width :: "nat \<Rightarrow> nat" where
  "utf8_width b =
     (if b < 128 then 1 else if b < 194 then 0 else if b < 224 then 2
      else if b < 240 then 3 else if b < 245 then 4 else 0)"

definition utf8_second_ok :: "nat \<Rightarrow> nat \<Rightarrow> bool" where
  "utf8_second_ok b n \<longleftrightarrow>
     (if b = 224 then 160 \<le> n \<and> n < 192
      else if b = 237 then 128 \<le> n \<and> n < 160
      else if b = 240 then 144 \<le> n \<and> n < 192
      else if b = 244 then 128 \<le> n \<and> n < 144
      else 128 \<le> n \<and> n < 192)"

fun utf8_head :: "string \<Rightarrow> utf8_seq" where
  "utf8_head [] = Utf8_incomplete"
| "utf8_head (c # cs) =
     (let w = utf8_width (byte_of c) in
      if w = 0 then Utf8_invalid 1
      else if w = 1 then Utf8_char 1
      else (case cs of
          [] \<Rightarrow> Utf8_incomplete
        | c2 # cs2 \<Rightarrow>
            if \<not> utf8_second_ok (byte_of c) (byte_of c2) then Utf8_invalid 1
            else if w = 2 then Utf8_char 2
            else (case cs2 of
                [] \<Rightarrow> Utf8_incomplete
              | c3 # cs3 \<Rightarrow>
                  if \<not> is_cont c3 then Utf8_invalid 2
                  else if w = 3 then Utf8_char 3
                  else (case cs3 of
                      [] \<Rightarrow> Utf8_incomplete
                    | c4 # cs4 \<Rightarrow> if \<not> is_cont c4 then Utf8_invalid 3 else Utf8_char 4))))"

lemma utf8_head_width: "utf8_head s = Utf8_char w \<Longrightarrow> 1 \<le> w \<and> w \<le> length s"
  by (cases s) (auto simp: Let_def split: if_splits list.splits)

text \<open>
  The whole scan: \<open>None\<close> for valid input, otherwise \<open>(valid_up_to, error_len)\<close>.
\<close>

function from_utf8_err :: "string \<Rightarrow> (usize \<times> usize option) option" where
  "from_utf8_err s =
     (if s = [] then None
      else (case utf8_head s of
          Utf8_invalid n \<Rightarrow> Some (0, Some n)
        | Utf8_incomplete \<Rightarrow> Some (0, None)
        | Utf8_char w \<Rightarrow>
            map_option (\<lambda>(i, e). (i + w, e)) (from_utf8_err (drop w s))))"
  by pat_completeness auto
termination
  by (relation "measure length") (auto dest: utf8_head_width)

declare from_utf8_err.simps [simp del]

definition utf8_valid :: "string \<Rightarrow> bool" where
  "utf8_valid s \<longleftrightarrow> from_utf8_err s = None"

lemma utf8_valid_Nil [simp]: "utf8_valid []"
  by (simp add: utf8_valid_def from_utf8_err.simps)

text \<open>The prefix up to \<open>valid_up_to\<close> is valid, so re-checking it cannot fail.\<close>

lemma from_utf8_err_prefix:
  "from_utf8_err s = Some (i, e) \<Longrightarrow> i < length s \<and> utf8_valid (take i s)"
proof (induction s arbitrary: i rule: from_utf8_err.induct)
  case (1 s)
  from "1.prems" have ne: "s \<noteq> []" by (auto simp: from_utf8_err.simps[of s] split: if_splits)
  show ?case
  proof (cases "utf8_head s")
    case (Utf8_char w)
    with "1.prems" ne obtain j where j: "from_utf8_err (drop w s) = Some (j, e)" "i = j + w"
      by (auto simp: from_utf8_err.simps[of s])
    from "1.IH"[OF ne Utf8_char j(1)]
    have IH: "j < length (drop w s)" "utf8_valid (take j (drop w s))" by simp_all
    have w: "1 \<le> w" "w \<le> length s" using utf8_head_width[OF Utf8_char] by simp_all
    have head: "utf8_head (take i s) = Utf8_char w"
    proof -
      have "take i s = take w s @ take j (drop w s)" using j(2) by (metis add.commute take_add)
      moreover have "utf8_head (take w s @ r) = Utf8_char w" for r
        using Utf8_char w
        by (cases s) (auto simp: Let_def take_Cons' split: if_splits list.splits)
      ultimately show ?thesis by simp
    qed
    have "drop w (take i s) = take j (drop w s)" using j(2) by (simp add: drop_take)
    then have "utf8_valid (take i s)"
      using head IH(2) by (simp add: utf8_valid_def from_utf8_err.simps[of "take i s"])
    with IH(1) j(2) show ?thesis by auto
  qed (use "1.prems" ne in \<open>auto simp: from_utf8_err.simps[of s]\<close>)
qed

lemma utf8_head_append:
  "utf8_head s = Utf8_char w \<Longrightarrow> utf8_head (s @ t) = Utf8_char w"
  "utf8_head s = Utf8_invalid n \<Longrightarrow> utf8_head (s @ t) = Utf8_invalid n"
  by (cases s; auto simp: Let_def split: if_splits list.splits)+

text \<open>
  A prefix of a valid text is valid or ends inside a character, and what is left from there on
  is valid again.
\<close>

lemma valid_prefix:
  assumes "utf8_valid (x @ y)"
  shows "from_utf8_err x = None \<and> utf8_valid y
    \<or> (\<exists>v. from_utf8_err x = Some (v, None) \<and> utf8_valid (drop v x @ y))"
  using assms
proof (induction x rule: from_utf8_err.induct)
  case (1 x)
  show ?case
  proof (cases "x = []")
    case True
    with 1 show ?thesis by (simp add: from_utf8_err.simps[of "[]"])
  next
    case ne: False
    show ?thesis
    proof (cases "utf8_head x")
      case (Utf8_char w)
      have w: "w \<le> length x" using utf8_head_width[OF Utf8_char] by simp
      have "utf8_valid (drop w x @ y)"
        using "1.prems" ne w utf8_head_append(1)[OF Utf8_char, of y]
        by (simp add: utf8_valid_def from_utf8_err.simps[of "x @ y"])
      from "1.IH"[OF ne Utf8_char this] Utf8_char ne show ?thesis
        by (auto simp: from_utf8_err.simps[of x])
    next
      case (Utf8_invalid n)
      with "1.prems" ne utf8_head_append(2)[OF Utf8_invalid, of y] show ?thesis
        by (simp add: utf8_valid_def from_utf8_err.simps[of "x @ y"])
    next
      case Utf8_incomplete
      with ne "1.prems" show ?thesis by (simp add: from_utf8_err.simps[of x])
    qed
  qed
qed

lemma from_utf8_err_rest: "from_utf8_err s = Some (v, e) \<Longrightarrow> from_utf8_err (drop v s) = Some (0, e)"
proof (induction s arbitrary: v rule: from_utf8_err.induct)
  case (1 s)
  then have ne: "s \<noteq> []" by (auto simp: from_utf8_err.simps[of s] split: if_splits)
  with 1 show ?case
    by (cases "utf8_head s") (auto simp: from_utf8_err.simps[of s] add.commute)
qed

lemma utf8_valid_append: "utf8_valid x \<Longrightarrow> utf8_valid y \<Longrightarrow> utf8_valid (x @ y)"
proof (induction x rule: from_utf8_err.induct)
  case (1 x)
  show ?case
  proof (cases "x = []")
    case ne: False
    then obtain w where w: "utf8_head x = Utf8_char w" "utf8_valid (drop w x)"
      using "1.prems"(1)
      by (auto simp: utf8_valid_def from_utf8_err.simps[of x] split: utf8_seq.splits)
    from "1.IH"[OF ne w(1,2) "1.prems"(2)] ne utf8_head_append(1)[OF w(1), of y]
      utf8_head_width[OF w(1)] show ?thesis
      by (simp add: utf8_valid_def from_utf8_err.simps[of "x @ y"])
  qed (use 1 in simp)
qed

lemma utf8_valid_append_iff: "utf8_valid x \<Longrightarrow> utf8_valid (x @ y) \<longleftrightarrow> utf8_valid y"
  using valid_prefix[of x y] utf8_valid_append by (auto simp: utf8_valid_def)

text \<open>A character has no continuation byte in front and only such bytes behind.\<close>

lemma utf8_head_cont: "utf8_head s = Utf8_char w \<Longrightarrow> 0 < j \<Longrightarrow> j < w \<Longrightarrow> is_cont (s ! j)"
proof -
  assume s: "utf8_head s = Utf8_char w" and j: "0 < j" "j < w"
  have cont: "utf8_second_ok b (byte_of c) \<Longrightarrow> is_cont c" for b c
    by (auto simp: utf8_second_ok_def is_cont_def split: if_splits)
  have "w \<le> 4" using s by (cases s) (auto simp: Let_def split: if_splits list.splits)
  with j consider "j = 1" | "j = 2" "2 < w" | "j = 3" "3 < w" by linarith
  then show "is_cont (s ! j)"
    by cases (use s j cont in \<open>cases s; force simp: Let_def split: if_splits list.splits\<close>)+
qed

lemma utf8_head_incomplete:
  "utf8_head x = Utf8_incomplete \<Longrightarrow> utf8_head (x @ y) = Utf8_char w \<Longrightarrow> x \<noteq> [] \<Longrightarrow> length x < w"
  by (cases x) (auto simp: Let_def split: if_splits list.splits)

lemma utf8_valid_first: "utf8_valid s \<Longrightarrow> s \<noteq> [] \<Longrightarrow> \<not> is_cont (s ! 0)"
proof
  assume s: "utf8_valid s" "s \<noteq> []" and c: "is_cont (s ! 0)"
  have "utf8_head s = Utf8_invalid 1"
    using s(2) c by (cases s) (auto simp: Let_def is_cont_def utf8_width_def)
  with s show False by (simp add: utf8_valid_def from_utf8_err.simps[of s])
qed

lemma utf8_valid_suffix:
  assumes "utf8_valid (x @ y)" "y \<noteq> []" "\<not> is_cont (y ! 0)"
  shows "utf8_valid x" "utf8_valid y"
proof -
  have *: "utf8_valid x \<and> utf8_valid y"
  proof (cases "from_utf8_err x")
    case None
    with valid_prefix[OF assms(1)] show ?thesis by (auto simp: utf8_valid_def)
  next
    case (Some r)
    with valid_prefix[OF assms(1)] obtain v where
      v: "from_utf8_err x = Some (v, None)" "utf8_valid (drop v x @ y)" by auto
    let ?i = "drop v x"
    have i: "?i \<noteq> []" "from_utf8_err ?i = Some (0, None)"
      using from_utf8_err_prefix[OF v(1)] from_utf8_err_rest[OF v(1)] by auto
    obtain w where w: "utf8_head (?i @ y) = Utf8_char w"
      using v(2) i(1) by (cases "utf8_head (?i @ y)")
        (simp_all add: utf8_valid_def from_utf8_err.simps[of "?i @ y"])
    have "utf8_head ?i = Utf8_incomplete"
      using i utf8_head_width[of ?i] by (cases "utf8_head ?i") (auto simp: from_utf8_err.simps[of ?i])
    then have "length ?i < w" using utf8_head_incomplete w i(1) by blast
    with utf8_head_cont[OF w, of "length ?i"] i(1) assms(3) show ?thesis by (simp add: nth_append)
  qed
  then show "utf8_valid x" "utf8_valid y" by simp_all
qed

end
