(* ===== verification/Protocol_Models.thy ===== *)
theory Protocol_Models
  imports Utf8_Text
begin

text \<open>
  The data that travels through the agent, from \<open>codex-rs/protocol/src\<close>: the response items
  of a conversation and their contents (\<open>models.rs\<close>), user input (\<open>user_input.rs\<close>), turn
  items (\<open>items.rs\<close>), dynamic tools (\<open>dynamic_tools.rs\<close>), token usage and rate limits
  (\<open>protocol.rs\<close>), with the operations those files define on them.

  Constructors keep the names of the Rust variants; a prefix is added where two enums share a
  variant name. A map that is only carried along is an association list, a path is its text,
  and a JSON value is its serialized text.
\<close>

type_synonym path = string
type_synonym json_text = string

section \<open>Response items\<close>

datatype ImageDetail = Auto | Low | High | Original

datatype MessagePhase = Commentary | FinalAnswer

datatype ContentItem =
    InputText string
  | InputImage string "ImageDetail option"
  | OutputText string

datatype FunctionCallOutputContentItem =
    Out_InputText string
  | Out_InputImage string "ImageDetail option"
  | Out_EncryptedContent string

datatype FunctionCallOutputBody =
    Body_Text string
  | Body_ContentItems "FunctionCallOutputContentItem list"

record FunctionCallOutputPayload =
  fco_body :: FunctionCallOutputBody
  fco_success :: "bool option"

datatype ReasoningItemReasoningSummary = SummaryText string

datatype ReasoningItemContent = ReasoningText string | ReasoningPlainText string

datatype LocalShellStatus = Shell_Completed | Shell_InProgress | Shell_Incomplete

record LocalShellExecAction =
  lse_command :: "string list"
  lse_timeout_ms :: "u64 option"
  lse_working_directory :: "string option"
  lse_env :: "(string \<times> string) list option"
  lse_user :: "string option"

datatype LocalShellAction = Exec LocalShellExecAction

datatype WebSearchAction =
    WebSearch_Search "string option" "string list option"
  | WebSearch_OpenPage "string option"
  | WebSearch_FindInPage "string option" "string option"
  | WebSearch_Other

text \<open>The argument order is the field order of the source.\<close>

datatype ResponseItem =
    Message "string option" string "ContentItem list" "MessagePhase option"
  | Reasoning string "ReasoningItemReasoningSummary list" "ReasoningItemContent list option"
      "string option"
  | LocalShellCall "string option" "string option" LocalShellStatus LocalShellAction
  | FunctionCall "string option" string "string option" string string
  | FunctionCallOutput string FunctionCallOutputPayload
  | CustomToolCall "string option" "string option" string string string
  | CustomToolCallOutput string "string option" FunctionCallOutputPayload
  | WebSearchCall "string option" "string option" "WebSearchAction option"
  | ImageGenerationCall string string "string option" string
  | Compaction string
  | CompactionTrigger
  | ContextCompaction "string option"
  | OtherItem

datatype ResponseInputItem =
    In_Message string "ContentItem list" "MessagePhase option"
  | In_FunctionCallOutput string FunctionCallOutputPayload
  | In_CustomToolCallOutput string "string option" FunctionCallOutputPayload

fun response_item_of_input :: "ResponseInputItem \<Rightarrow> ResponseItem" where
  "response_item_of_input (In_Message role content phase) = Message None role content phase"
| "response_item_of_input (In_FunctionCallOutput call_id out) = FunctionCallOutput call_id out"
| "response_item_of_input (In_CustomToolCallOutput call_id name out) =
     CustomToolCallOutput call_id name out"

subsection \<open>Function call outputs\<close>

definition payload_from_text :: "string \<Rightarrow> FunctionCallOutputPayload" where
  "payload_from_text content = \<lparr>fco_body = Body_Text content, fco_success = None\<rparr>"

definition payload_from_content_items ::
  "FunctionCallOutputContentItem list \<Rightarrow> FunctionCallOutputPayload" where
  "payload_from_content_items items = \<lparr>fco_body = Body_ContentItems items, fco_success = None\<rparr>"

definition text_content :: "FunctionCallOutputPayload \<Rightarrow> string option" where
  "text_content p = (case fco_body p of Body_Text t \<Rightarrow> Some t | Body_ContentItems _ \<Rightarrow> None)"

definition content_items :: "FunctionCallOutputPayload \<Rightarrow> FunctionCallOutputContentItem list option" where
  "content_items p = (case fco_body p of Body_Text _ \<Rightarrow> None | Body_ContentItems is \<Rightarrow> Some is)"

text \<open>Writing through \<open>content_items_mut\<close>.\<close>

definition map_content_items ::
  "(FunctionCallOutputContentItem list \<Rightarrow> FunctionCallOutputContentItem list)
   \<Rightarrow> FunctionCallOutputPayload \<Rightarrow> FunctionCallOutputPayload" where
  "map_content_items f p =
     (case fco_body p of
        Body_Text _ \<Rightarrow> p
      | Body_ContentItems is \<Rightarrow> p\<lparr>fco_body := Body_ContentItems (f is)\<rparr>)"

fun nonblank_text :: "FunctionCallOutputContentItem \<Rightarrow> string option" where
  "nonblank_text (Out_InputText t) = (if trim t = [] then None else Some t)"
| "nonblank_text (Out_InputImage _ _) = None"
| "nonblank_text (Out_EncryptedContent _) = None"

definition function_call_output_content_items_to_text ::
  "FunctionCallOutputContentItem list \<Rightarrow> string option" where
  "function_call_output_content_items_to_text is =
     (let segs = List.map_filter nonblank_text is in
      if segs = [] then None else Some (join [CHR 0x0A] segs))"

fun body_to_text :: "FunctionCallOutputBody \<Rightarrow> string option" where
  "body_to_text (Body_Text t) = Some t"
| "body_to_text (Body_ContentItems is) = function_call_output_content_items_to_text is"

text \<open>Serializing keeps the body only; reading it back sets \<open>success\<close> to \<open>None\<close>.\<close>

definition serialize_payload :: "FunctionCallOutputPayload \<Rightarrow> FunctionCallOutputBody" where
  "serialize_payload p = fco_body p"

definition deserialize_payload :: "FunctionCallOutputBody \<Rightarrow> FunctionCallOutputPayload" where
  "deserialize_payload b = \<lparr>fco_body = b, fco_success = None\<rparr>"

section \<open>Dynamic tools\<close>

datatype DynamicToolCallOutputContentItem = Dyn_InputText string | Dyn_InputImage string

record DynamicToolSpec =
  dts_namespace :: "string option"
  dts_name :: string
  dts_description :: string
  dts_input_schema :: json_text
  dts_defer_loading :: bool

record DynamicToolCallRequest =
  dtr_call_id :: string
  dtr_turn_id :: string
  dtr_started_at_ms :: i64
  dtr_namespace :: "string option"
  dtr_tool :: string
  dtr_arguments :: json_text

record DynamicToolResponse =
  dyn_content_items :: "DynamicToolCallOutputContentItem list"
  dyn_success :: bool

definition DEFAULT_IMAGE_DETAIL :: ImageDetail where
  "DEFAULT_IMAGE_DETAIL = High"

fun output_item_of_dynamic :: "DynamicToolCallOutputContentItem \<Rightarrow> FunctionCallOutputContentItem" where
  "output_item_of_dynamic (Dyn_InputText t) = Out_InputText t"
| "output_item_of_dynamic (Dyn_InputImage u) = Out_InputImage u (Some DEFAULT_IMAGE_DETAIL)"

section \<open>User input and turn items\<close>

record ByteRange =
  br_start :: usize
  br_end :: usize

record TextElement =
  te_byte_range :: ByteRange
  te_placeholder :: "string option"

datatype UserInput =
    UserText string "TextElement list"
  | UserImage string "ImageDetail option"
  | UserLocalImage path "ImageDetail option"

text \<open>\<open>TextElement::placeholder\<close>: the stored text, or the slice of the message it covers.\<close>

definition placeholder_of :: "TextElement \<Rightarrow> string \<Rightarrow> string option" where
  "placeholder_of e txt =
     (case te_placeholder e of
        Some p \<Rightarrow> Some p
      | None \<Rightarrow>
          (let a = br_start (te_byte_range e); b = br_end (te_byte_range e) in
           if a \<le> b \<and> b \<le> length txt \<and> is_char_boundary txt a \<and> is_char_boundary txt b
           then Some (take (b - a) (drop a txt)) else None))"

record UserMessageItem =
  umi_id :: string
  umi_client_id :: "string option"
  umi_content :: "UserInput list"

datatype AgentMessageContent = AgentText string

record AgentMessageItem =
  ami_id :: string
  ami_content :: "AgentMessageContent list"
  ami_phase :: "MessagePhase option"

record ReasoningItem =
  ri_id :: string
  ri_summary_text :: "string list"
  ri_raw_content :: "string list"

record WebSearchItem =
  wsi_id :: string
  wsi_query :: string
  wsi_action :: WebSearchAction

record ImageViewItem =
  ivi_id :: string
  ivi_path :: path

record ImageGenerationItem =
  igi_id :: string
  igi_status :: string
  igi_revised_prompt :: "string option"
  igi_result :: string
  igi_saved_path :: "path option"

datatype TurnItem =
    Turn_UserMessage UserMessageItem
  | Turn_AgentMessage AgentMessageItem
  | Turn_Reasoning ReasoningItem
  | Turn_WebSearch WebSearchItem
  | Turn_ImageView ImageViewItem
  | Turn_ImageGeneration ImageGenerationItem
  | Turn_ContextCompaction string

fun turn_item_id :: "TurnItem \<Rightarrow> string" where
  "turn_item_id (Turn_UserMessage i) = umi_id i"
| "turn_item_id (Turn_AgentMessage i) = ami_id i"
| "turn_item_id (Turn_Reasoning i) = ri_id i"
| "turn_item_id (Turn_WebSearch i) = wsi_id i"
| "turn_item_id (Turn_ImageView i) = ivi_id i"
| "turn_item_id (Turn_ImageGeneration i) = igi_id i"
| "turn_item_id (Turn_ContextCompaction i) = i"

fun user_input_text :: "UserInput \<Rightarrow> string" where
  "user_input_text (UserText t _) = t"
| "user_input_text (UserImage _ _) = []"
| "user_input_text (UserLocalImage _ _) = []"

definition user_message_text :: "UserMessageItem \<Rightarrow> string" where
  "user_message_text m = concat (map user_input_text (umi_content m))"

definition shift_element :: "usize \<Rightarrow> string \<Rightarrow> TextElement \<Rightarrow> TextElement" where
  "shift_element offset txt e =
     \<lparr>te_byte_range = \<lparr>br_start = offset + br_start (te_byte_range e),
                       br_end = offset + br_end (te_byte_range e)\<rparr>,
      te_placeholder = placeholder_of e txt\<rparr>"

fun text_elements_from :: "usize \<Rightarrow> UserInput list \<Rightarrow> TextElement list" where
  "text_elements_from offset [] = []"
| "text_elements_from offset (UserText t es # rest) =
     map (shift_element offset t) es @ text_elements_from (offset + length t) rest"
| "text_elements_from offset (UserImage _ _ # rest) = text_elements_from offset rest"
| "text_elements_from offset (UserLocalImage _ _ # rest) = text_elements_from offset rest"

definition user_message_text_elements :: "UserMessageItem \<Rightarrow> TextElement list" where
  "user_message_text_elements m = text_elements_from 0 (umi_content m)"

definition trim_trailing_default_image_details ::
  "ImageDetail option list \<Rightarrow> ImageDetail option list" where
  "trim_trailing_default_image_details ds = rev (dropWhile (\<lambda>d. d = None) (rev ds))"

fun image_url_of :: "UserInput \<Rightarrow> string option" where
  "image_url_of (UserImage u _) = Some u"
| "image_url_of _ = None"

definition image_urls :: "UserMessageItem \<Rightarrow> string list" where
  "image_urls m = List.map_filter image_url_of (umi_content m)"

fun image_detail_of :: "UserInput \<Rightarrow> ImageDetail option option" where
  "image_detail_of (UserImage _ d) = Some d"
| "image_detail_of _ = None"

definition image_details :: "UserMessageItem \<Rightarrow> ImageDetail option list" where
  "image_details m =
     trim_trailing_default_image_details (List.map_filter image_detail_of (umi_content m))"

fun local_image_path_of :: "UserInput \<Rightarrow> path option" where
  "local_image_path_of (UserLocalImage p _) = Some p"
| "local_image_path_of _ = None"

definition local_image_paths :: "UserMessageItem \<Rightarrow> path list" where
  "local_image_paths m = List.map_filter local_image_path_of (umi_content m)"

fun local_image_detail_of :: "UserInput \<Rightarrow> ImageDetail option option" where
  "local_image_detail_of (UserLocalImage _ d) = Some d"
| "local_image_detail_of _ = None"

definition local_image_details :: "UserMessageItem \<Rightarrow> ImageDetail option list" where
  "local_image_details m =
     trim_trailing_default_image_details (List.map_filter local_image_detail_of (umi_content m))"

section \<open>Image markers in messages\<close>

definition IMAGE_OPEN_TAG :: string where "IMAGE_OPEN_TAG = ''<image>''"
definition IMAGE_CLOSE_TAG :: string where "IMAGE_CLOSE_TAG = ''</image>''"
definition LOCAL_IMAGE_OPEN_TAG_PREFIX :: string where
  "LOCAL_IMAGE_OPEN_TAG_PREFIX = ''<image name=''"
definition LOCAL_IMAGE_OPEN_TAG_SUFFIX :: string where
  "LOCAL_IMAGE_OPEN_TAG_SUFFIX = ''>''"

definition local_image_label_text :: "usize \<Rightarrow> string" where
  "local_image_label_text n = ''[Image #'' @ nat_to_string n @ '']''"

definition local_image_open_tag_text :: "usize \<Rightarrow> string" where
  "local_image_open_tag_text n =
     LOCAL_IMAGE_OPEN_TAG_PREFIX @ local_image_label_text n @ LOCAL_IMAGE_OPEN_TAG_SUFFIX"

definition is_local_image_open_tag_text :: "string \<Rightarrow> bool" where
  "is_local_image_open_tag_text t =
     (case strip_prefix t LOCAL_IMAGE_OPEN_TAG_PREFIX of
        None \<Rightarrow> False
      | Some rest \<Rightarrow> ends_with rest LOCAL_IMAGE_OPEN_TAG_SUFFIX)"

definition is_image_open_tag_text :: "string \<Rightarrow> bool" where
  "is_image_open_tag_text t \<longleftrightarrow> t = IMAGE_OPEN_TAG"

definition is_image_close_tag_text :: "string \<Rightarrow> bool" where
  "is_image_close_tag_text t \<longleftrightarrow> t = IMAGE_CLOSE_TAG"

definition is_local_image_close_tag_text :: "string \<Rightarrow> bool" where
  "is_local_image_close_tag_text t = is_image_close_tag_text t"

lemma local_image_open_tag_recognised:
  "is_local_image_open_tag_text (local_image_open_tag_text n)"
  by (simp add: is_local_image_open_tag_text_def local_image_open_tag_text_def)

section \<open>Token usage\<close>

record TokenUsage =
  input_tokens :: i64
  cached_input_tokens :: i64
  output_tokens :: i64
  reasoning_output_tokens :: i64
  total_tokens :: i64

definition TokenUsage_default :: TokenUsage where
  "TokenUsage_default = \<lparr>input_tokens = 0, cached_input_tokens = 0, output_tokens = 0,
     reasoning_output_tokens = 0, total_tokens = 0\<rparr>"

record TokenUsageInfo =
  total_token_usage :: TokenUsage
  last_token_usage :: TokenUsage
  model_context_window :: "i64 option"

definition usage_is_zero :: "TokenUsage \<Rightarrow> bool" where
  "usage_is_zero u \<longleftrightarrow> total_tokens u = 0"

definition cached_input :: "TokenUsage \<Rightarrow> i64" where
  "cached_input u = max (cached_input_tokens u) 0"

definition non_cached_input :: "TokenUsage \<Rightarrow> i64" where
  "non_cached_input u = max (i64_wrap (input_tokens u - cached_input u)) 0"

definition blended_total :: "TokenUsage \<Rightarrow> i64" where
  "blended_total u = max (i64_wrap (non_cached_input u + max (output_tokens u) 0)) 0"

definition usage_add_assign :: "TokenUsage \<Rightarrow> TokenUsage \<Rightarrow> TokenUsage" where
  "usage_add_assign u v =
     \<lparr>input_tokens = i64_wrap (input_tokens u + input_tokens v),
      cached_input_tokens = i64_wrap (cached_input_tokens u + cached_input_tokens v),
      output_tokens = i64_wrap (output_tokens u + output_tokens v),
      reasoning_output_tokens = i64_wrap (reasoning_output_tokens u + reasoning_output_tokens v),
      total_tokens = i64_wrap (total_tokens u + total_tokens v)\<rparr>"

definition append_last_usage :: "TokenUsageInfo \<Rightarrow> TokenUsage \<Rightarrow> TokenUsageInfo" where
  "append_last_usage info last_usage =
     info\<lparr>total_token_usage := usage_add_assign (total_token_usage info) last_usage,
          last_token_usage := last_usage\<rparr>"

definition new_or_append ::
  "TokenUsageInfo option \<Rightarrow> TokenUsage option \<Rightarrow> i64 option \<Rightarrow> TokenUsageInfo option" where
  "new_or_append info last_usage window =
     (if info = None \<and> last_usage = None then None
      else
        let info0 = (case info of
              Some i \<Rightarrow> i
            | None \<Rightarrow> \<lparr>total_token_usage = TokenUsage_default,
                       last_token_usage = TokenUsage_default, model_context_window = window\<rparr>);
            info1 = (case last_usage of Some u \<Rightarrow> append_last_usage info0 u | None \<Rightarrow> info0);
            info2 = (case window of
              Some w \<Rightarrow> info1\<lparr>model_context_window := Some w\<rparr> | None \<Rightarrow> info1)
        in Some info2)"

definition fill_to_context_window :: "TokenUsageInfo \<Rightarrow> i64 \<Rightarrow> TokenUsageInfo" where
  "fill_to_context_window info window =
     (let previous_total = total_tokens (total_token_usage info);
          delta = max (i64_wrap (window - previous_total)) 0
      in info\<lparr>model_context_window := Some window,
              total_token_usage := TokenUsage_default\<lparr>total_tokens := window\<rparr>,
              last_token_usage := TokenUsage_default\<lparr>total_tokens := delta\<rparr>\<rparr>)"

definition full_context_window :: "i64 \<Rightarrow> TokenUsageInfo" where
  "full_context_window window =
     fill_to_context_window
       \<lparr>total_token_usage = TokenUsage_default, last_token_usage = TokenUsage_default,
        model_context_window = Some window\<rparr> window"

text \<open>
  Appending a list of usages one by one accumulates every counter: the total is the sum of
  the totals as long as the running sum stays an \<open>i64\<close>.
\<close>

definition append_usages :: "TokenUsageInfo option \<Rightarrow> TokenUsage list \<Rightarrow> TokenUsageInfo option" where
  "append_usages info us = foldl (\<lambda>i u. new_or_append i (Some u) None) info us"

lemma new_or_append_Some:
  "new_or_append (Some i) (Some u) None = Some (append_last_usage i u)"
  by (simp add: new_or_append_def)

lemma append_usages_Some:
  assumes "\<forall>k\<le>length us. is_i64 (total_tokens (total_token_usage i) + sum_list (map total_tokens (take k us)))"
  shows "\<exists>j. append_usages (Some i) us = Some j
     \<and> total_tokens (total_token_usage j)
         = total_tokens (total_token_usage i) + sum_list (map total_tokens us)
     \<and> last_token_usage j = (if us = [] then last_token_usage i else last us)
     \<and> model_context_window j = model_context_window i"
  using assms
proof (induction us arbitrary: i)
  case Nil
  then show ?case by (simp add: append_usages_def)
next
  case (Cons u us)
  let ?i = "append_last_usage i u"
  have tot: "total_tokens (total_token_usage ?i) = total_tokens (total_token_usage i) + total_tokens u"
    using Cons.prems[rule_format, of 1]
    by (simp add: append_last_usage_def usage_add_assign_def i64_wrap_id)
  have "\<forall>k\<le>length us. is_i64 (total_tokens (total_token_usage ?i) + sum_list (map total_tokens (take k us)))"
  proof (intro allI impI)
    fix k assume "k \<le> length us"
    then show "is_i64 (total_tokens (total_token_usage ?i) + sum_list (map total_tokens (take k us)))"
      using Cons.prems[rule_format, of "Suc k"] tot by (simp add: add.assoc)
  qed
  from Cons.IH[OF this] tot show ?case
    by (auto simp: append_usages_def new_or_append_Some append_last_usage_def)
qed

section \<open>Rate limits\<close>

datatype PlanType =
    Plan_Free | Plan_Go | Plan_Plus | Plan_Pro | Plan_ProLite | Plan_Team
  | Plan_SelfServeBusinessUsageBased | Plan_Business | Plan_EnterpriseCbpUsageBased
  | Plan_Enterprise | Plan_Edu | Plan_Unknown

datatype RateLimitReachedType =
    RateLimitReached
  | WorkspaceOwnerCreditsDepleted
  | WorkspaceMemberCreditsDepleted
  | WorkspaceOwnerUsageLimitReached
  | WorkspaceMemberUsageLimitReached

definition rate_limit_reached_from_str :: "string \<Rightarrow> string + RateLimitReachedType" where
  "rate_limit_reached_from_str v =
     (if v = ''rate_limit_reached'' then Inr RateLimitReached
      else if v = ''workspace_owner_credits_depleted'' then Inr WorkspaceOwnerCreditsDepleted
      else if v = ''workspace_member_credits_depleted'' then Inr WorkspaceMemberCreditsDepleted
      else if v = ''workspace_owner_usage_limit_reached'' then Inr WorkspaceOwnerUsageLimitReached
      else if v = ''workspace_member_usage_limit_reached'' then Inr WorkspaceMemberUsageLimitReached
      else Inl (''unknown rate limit reached type: '' @ v))"

text \<open>\<open>used_percent\<close> is an \<open>f64\<close> the modelled code only copies; its text stands for it.\<close>

record RateLimitWindow =
  rlw_used_percent :: string
  rlw_window_minutes :: "i64 option"
  rlw_resets_at :: "i64 option"

record CreditsSnapshot =
  cs_has_credits :: bool
  cs_unlimited :: bool
  cs_balance :: "string option"

record SpendControlLimitSnapshot =
  scl_limit :: string
  scl_used :: string
  scl_remaining_percent :: int
  scl_resets_at :: i64

record RateLimitSnapshot =
  rls_limit_id :: "string option"
  rls_limit_name :: "string option"
  rls_primary :: "RateLimitWindow option"
  rls_secondary :: "RateLimitWindow option"
  rls_credits :: "CreditsSnapshot option"
  rls_individual_limit :: "SpendControlLimitSnapshot option"
  rls_plan_type :: "PlanType option"
  rls_reached_type :: "RateLimitReachedType option"

end
