(* ===== verification/Context_Normalize.thy ===== *)
theory Context_Normalize
  imports Protocol_Models
begin

text \<open>
  Repair of a conversation before it is sent to the model, from
  \<open>codex-rs/core/src/context_manager/normalize.rs\<close>: a call without an output gets an
  \<open>aborted\<close> output right behind it, an output without a call is dropped, images are replaced
  when the model takes none, and removing one half of a call pair removes the other half.

  \<open>error_or_panic\<close> panics in a build with debug assertions and only logs otherwise; the flag
  is an argument and a panic is the value \<open>Inl message\<close>.

  The lemmas show the shape of the repaired list, that calls and outputs are then paired, that
  the repair is idempotent, and when a debug build gets through it.
\<close>

definition error_or_panic :: "bool \<Rightarrow> string \<Rightarrow> string + unit" where
  "error_or_panic debug_assertions message = (if debug_assertions then Inl message else Inr ())"

datatype InputModality = Modality_Text | Modality_Image

definition IMAGE_CONTENT_OMITTED_PLACEHOLDER :: string where
  "IMAGE_CONTENT_OMITTED_PLACEHOLDER =
     ''image content omitted because you do not support image input''"

section \<open>Missing outputs\<close>

definition has_function_output :: "ResponseItem list \<Rightarrow> string \<Rightarrow> bool" where
  "has_function_output items call_id =
     list_ex (\<lambda>i. case i of FunctionCallOutput existing _ \<Rightarrow> existing = call_id | _ \<Rightarrow> False) items"

definition has_custom_output :: "ResponseItem list \<Rightarrow> string \<Rightarrow> bool" where
  "has_custom_output items call_id =
     list_ex (\<lambda>i. case i of CustomToolCallOutput existing _ _ \<Rightarrow> existing = call_id | _ \<Rightarrow> False) items"

definition aborted_output :: FunctionCallOutputPayload where
  "aborted_output = payload_from_text ''aborted''"

text \<open>One iteration of the scan: what is to be inserted behind this item.\<close>

fun missing_output :: "bool \<Rightarrow> ResponseItem list \<Rightarrow> ResponseItem \<Rightarrow> string + ResponseItem option" where
  "missing_output dbg items (FunctionCall _ _ _ _ call_id) =
     (if has_function_output items call_id then Inr None
      else Inr (Some (FunctionCallOutput call_id aborted_output)))"
| "missing_output dbg items (CustomToolCall _ _ call_id _ _) =
     (if has_custom_output items call_id then Inr None
      else case error_or_panic dbg (''Custom tool call output is missing for call id: '' @ call_id) of
             Inl e \<Rightarrow> Inl e
           | Inr _ \<Rightarrow> Inr (Some (CustomToolCallOutput call_id None aborted_output)))"
| "missing_output dbg items (LocalShellCall _ (Some call_id) _ _) =
     (if has_function_output items call_id then Inr None
      else case error_or_panic dbg (''Local shell call output is missing for call id: '' @ call_id) of
             Inl e \<Rightarrow> Inl e
           | Inr _ \<Rightarrow> Inr (Some (FunctionCallOutput call_id aborted_output)))"
| "missing_output dbg items _ = Inr None"

fun missing_outputs_to_insert ::
  "bool \<Rightarrow> ResponseItem list \<Rightarrow> usize \<Rightarrow> ResponseItem list \<Rightarrow> string + (usize \<times> ResponseItem) list" where
  "missing_outputs_to_insert dbg items idx [] = Inr []"
| "missing_outputs_to_insert dbg items idx (i # rest) =
     (case missing_output dbg items i of
        Inl e \<Rightarrow> Inl e
      | Inr found \<Rightarrow>
          (case missing_outputs_to_insert dbg items (Suc idx) rest of
             Inl e \<Rightarrow> Inl e
           | Inr later \<Rightarrow> Inr (case found of None \<Rightarrow> later | Some x \<Rightarrow> (idx, x) # later)))"

text \<open>\<open>Vec::insert\<close> at an index in range, and the loop that inserts from the back.\<close>

definition vec_insert :: "usize \<Rightarrow> 'a \<Rightarrow> 'a list \<Rightarrow> 'a list" where
  "vec_insert i x xs = take i xs @ x # drop i xs"

definition insert_outputs :: "(usize \<times> ResponseItem) list \<Rightarrow> ResponseItem list \<Rightarrow> ResponseItem list" where
  "insert_outputs missing items = foldl (\<lambda>is (idx, x). vec_insert (idx + 1) x is) items (rev missing)"

definition ensure_call_outputs_present :: "bool \<Rightarrow> ResponseItem list \<Rightarrow> string + ResponseItem list" where
  "ensure_call_outputs_present dbg items =
     (case missing_outputs_to_insert dbg items 0 items of
        Inl e \<Rightarrow> Inl e
      | Inr missing \<Rightarrow> Inr (insert_outputs missing items))"

section \<open>Orphan outputs\<close>

fun function_call_id :: "ResponseItem \<Rightarrow> string option" where
  "function_call_id (FunctionCall _ _ _ _ call_id) = Some call_id"
| "function_call_id _ = None"

fun local_shell_call_id :: "ResponseItem \<Rightarrow> string option" where
  "local_shell_call_id (LocalShellCall _ (Some call_id) _ _) = Some call_id"
| "local_shell_call_id _ = None"

fun custom_tool_call_id :: "ResponseItem \<Rightarrow> string option" where
  "custom_tool_call_id (CustomToolCall _ _ call_id _ _) = Some call_id"
| "custom_tool_call_id _ = None"

text \<open>The closure given to \<open>retain\<close>: whether the item stays.\<close>

fun retain_output ::
  "bool \<Rightarrow> string list \<Rightarrow> string list \<Rightarrow> string list \<Rightarrow> ResponseItem \<Rightarrow> string + bool" where
  "retain_output dbg fun_ids shell_ids custom_ids (FunctionCallOutput call_id _) =
     (if call_id \<in> set fun_ids \<or> call_id \<in> set shell_ids then Inr True
      else case error_or_panic dbg (''Orphan function call output for call id: '' @ call_id) of
             Inl e \<Rightarrow> Inl e | Inr _ \<Rightarrow> Inr False)"
| "retain_output dbg fun_ids shell_ids custom_ids (CustomToolCallOutput call_id _ _) =
     (if call_id \<in> set custom_ids then Inr True
      else case error_or_panic dbg (''Orphan custom tool call output for call id: '' @ call_id) of
             Inl e \<Rightarrow> Inl e | Inr _ \<Rightarrow> Inr False)"
| "retain_output dbg fun_ids shell_ids custom_ids _ = Inr True"

fun retain_items :: "(ResponseItem \<Rightarrow> string + bool) \<Rightarrow> ResponseItem list \<Rightarrow> string + ResponseItem list" where
  "retain_items f [] = Inr []"
| "retain_items f (i # rest) =
     (case f i of
        Inl e \<Rightarrow> Inl e
      | Inr keep \<Rightarrow>
          (case retain_items f rest of
             Inl e \<Rightarrow> Inl e
           | Inr kept \<Rightarrow> Inr (if keep then i # kept else kept)))"

definition remove_orphan_outputs :: "bool \<Rightarrow> ResponseItem list \<Rightarrow> string + ResponseItem list" where
  "remove_orphan_outputs dbg items =
     retain_items
       (retain_output dbg (List.map_filter function_call_id items)
          (List.map_filter local_shell_call_id items) (List.map_filter custom_tool_call_id items))
       items"

section \<open>Removing the other half of a pair\<close>

definition remove_first_matching :: "(ResponseItem \<Rightarrow> bool) \<Rightarrow> ResponseItem list \<Rightarrow> ResponseItem list" where
  "remove_first_matching p items =
     (case position p items of None \<Rightarrow> items | Some pos \<Rightarrow> remove_nth pos items)"

fun is_function_output_of :: "string \<Rightarrow> ResponseItem \<Rightarrow> bool" where
  "is_function_output_of call_id (FunctionCallOutput existing _) = (existing = call_id)"
| "is_function_output_of call_id _ = False"

fun is_custom_output_of :: "string \<Rightarrow> ResponseItem \<Rightarrow> bool" where
  "is_custom_output_of call_id (CustomToolCallOutput existing _ _) = (existing = call_id)"
| "is_custom_output_of call_id _ = False"

fun remove_corresponding_for :: "ResponseItem list \<Rightarrow> ResponseItem \<Rightarrow> ResponseItem list" where
  "remove_corresponding_for items (FunctionCall _ _ _ _ call_id) =
     remove_first_matching (is_function_output_of call_id) items"
| "remove_corresponding_for items (FunctionCallOutput call_id _) =
     (case position (\<lambda>i. function_call_id i = Some call_id) items of
        Some pos \<Rightarrow> remove_nth pos items
      | None \<Rightarrow>
          (case position (\<lambda>i. local_shell_call_id i = Some call_id) items of
             Some pos \<Rightarrow> remove_nth pos items
           | None \<Rightarrow> items))"
| "remove_corresponding_for items (CustomToolCall _ _ call_id _ _) =
     remove_first_matching (is_custom_output_of call_id) items"
| "remove_corresponding_for items (CustomToolCallOutput call_id _ _) =
     remove_first_matching (\<lambda>i. custom_tool_call_id i = Some call_id) items"
| "remove_corresponding_for items (LocalShellCall _ (Some call_id) _ _) =
     remove_first_matching (is_function_output_of call_id) items"
| "remove_corresponding_for items _ = items"

section \<open>Images\<close>

fun strip_content_image :: "ContentItem \<Rightarrow> ContentItem" where
  "strip_content_image (InputImage _ _) = InputText IMAGE_CONTENT_OMITTED_PLACEHOLDER"
| "strip_content_image c = c"

fun strip_output_image :: "FunctionCallOutputContentItem \<Rightarrow> FunctionCallOutputContentItem" where
  "strip_output_image (Out_InputImage _ _) = Out_InputText IMAGE_CONTENT_OMITTED_PLACEHOLDER"
| "strip_output_image c = c"

fun strip_item_images :: "ResponseItem \<Rightarrow> ResponseItem" where
  "strip_item_images (Message mid role content phase) =
     Message mid role (map strip_content_image content) phase"
| "strip_item_images (FunctionCallOutput call_id out) =
     FunctionCallOutput call_id (map_content_items (map strip_output_image) out)"
| "strip_item_images (CustomToolCallOutput call_id name out) =
     CustomToolCallOutput call_id name (map_content_items (map strip_output_image) out)"
| "strip_item_images (ImageGenerationCall iid status revised _) =
     ImageGenerationCall iid status revised []"
| "strip_item_images i = i"

definition strip_images_when_unsupported ::
  "InputModality list \<Rightarrow> ResponseItem list \<Rightarrow> ResponseItem list" where
  "strip_images_when_unsupported modalities items =
     (if Modality_Image \<in> set modalities then items else map strip_item_images items)"

text \<open>The three passes, as \<open>ContextManager::normalize_history\<close> runs them.\<close>

definition normalize_items ::
  "bool \<Rightarrow> InputModality list \<Rightarrow> ResponseItem list \<Rightarrow> string + ResponseItem list" where
  "normalize_items dbg modalities items =
     (case ensure_call_outputs_present dbg items of
        Inl e \<Rightarrow> Inl e
      | Inr items1 \<Rightarrow>
          (case remove_orphan_outputs dbg items1 of
             Inl e \<Rightarrow> Inl e
           | Inr items2 \<Rightarrow> Inr (strip_images_when_unsupported modalities items2)))"

section \<open>Calls and outputs as keys\<close>

text \<open>
  The specification: a call or an output is identified by whether it is a custom tool and by
  its call id. A list is paired when the keys of its calls are the keys of its outputs.
\<close>

fun call_key :: "ResponseItem \<Rightarrow> (bool \<times> string) option" where
  "call_key (FunctionCall _ _ _ _ call_id) = Some (False, call_id)"
| "call_key (LocalShellCall _ (Some call_id) _ _) = Some (False, call_id)"
| "call_key (CustomToolCall _ _ call_id _ _) = Some (True, call_id)"
| "call_key _ = None"

fun output_key :: "ResponseItem \<Rightarrow> (bool \<times> string) option" where
  "output_key (FunctionCallOutput call_id _) = Some (False, call_id)"
| "output_key (CustomToolCallOutput call_id _ _) = Some (True, call_id)"
| "output_key _ = None"

definition call_keys :: "ResponseItem list \<Rightarrow> (bool \<times> string) list" where
  "call_keys items = List.map_filter call_key items"

definition output_keys :: "ResponseItem list \<Rightarrow> (bool \<times> string) list" where
  "output_keys items = List.map_filter output_key items"

definition paired :: "ResponseItem list \<Rightarrow> bool" where
  "paired items \<longleftrightarrow> set (call_keys items) = set (output_keys items)"

definition is_output :: "ResponseItem \<Rightarrow> bool" where
  "is_output i \<longleftrightarrow> output_key i \<noteq> None"

fun output_for_key :: "bool \<times> string \<Rightarrow> ResponseItem" where
  "output_for_key (custom, call_id) =
     (if custom then CustomToolCallOutput call_id None aborted_output
      else FunctionCallOutput call_id aborted_output)"

text \<open>An item followed by the output it lacks in \<open>items\<close>.\<close>

definition with_output :: "ResponseItem list \<Rightarrow> ResponseItem \<Rightarrow> ResponseItem list" where
  "with_output items i =
     (case call_key i of
        None \<Rightarrow> [i]
      | Some k \<Rightarrow> if k \<in> set (output_keys items) then [i] else [i, output_for_key k])"

lemma keys_simps [simp]:
  "call_keys [] = []" "output_keys [] = []"
  "call_keys (i # is) = (case call_key i of None \<Rightarrow> call_keys is | Some k \<Rightarrow> k # call_keys is)"
  "output_keys (i # is) = (case output_key i of None \<Rightarrow> output_keys is | Some k \<Rightarrow> k # output_keys is)"
  "call_keys (xs @ ys) = call_keys xs @ call_keys ys"
  "output_keys (xs @ ys) = output_keys xs @ output_keys ys"
  by (auto simp: call_keys_def output_keys_def List.map_filter_def split: option.splits)

lemma in_call_keys: "k \<in> set (call_keys is) \<longleftrightarrow> (\<exists>i\<in>set is. call_key i = Some k)"
  by (induction "is") (auto split: option.splits)

lemma in_output_keys: "k \<in> set (output_keys is) \<longleftrightarrow> (\<exists>i\<in>set is. output_key i = Some k)"
  by (induction "is") (auto split: option.splits)

lemma output_key_of_call: "call_key i = Some k \<Longrightarrow> output_key i = None"
  by (cases i) auto

lemma output_for_key_keys [simp]:
  "output_key (output_for_key k) = Some k" "call_key (output_for_key k) = None"
  by (cases k; simp)+

lemma has_output_iff_key:
  "has_function_output items c \<longleftrightarrow> (False, c) \<in> set (output_keys items)"
  "has_custom_output items c \<longleftrightarrow> (True, c) \<in> set (output_keys items)"
proof -
  have "(case i of FunctionCallOutput e _ \<Rightarrow> e = c | _ \<Rightarrow> False) \<longleftrightarrow> output_key i = Some (False, c)"
    "(case i of CustomToolCallOutput e _ _ \<Rightarrow> e = c | _ \<Rightarrow> False) \<longleftrightarrow> output_key i = Some (True, c)" for i
    by (cases i; simp)+
  then show "has_function_output items c \<longleftrightarrow> (False, c) \<in> set (output_keys items)"
    "has_custom_output items c \<longleftrightarrow> (True, c) \<in> set (output_keys items)"
    by (simp_all add: has_function_output_def has_custom_output_def list_ex_iff in_output_keys)
qed

section \<open>The scan as a specification\<close>

definition needs_output :: "ResponseItem list \<Rightarrow> ResponseItem \<Rightarrow> bool" where
  "needs_output items i \<longleftrightarrow>
     (case call_key i of None \<Rightarrow> False | Some k \<Rightarrow> k \<notin> set (output_keys items))"

text \<open>Only a plain function call may lack its output in a debug build.\<close>

definition scan_panics :: "bool \<Rightarrow> ResponseItem list \<Rightarrow> ResponseItem \<Rightarrow> bool" where
  "scan_panics dbg items i \<longleftrightarrow> dbg \<and> needs_output items i \<and> function_call_id i = None"

lemma missing_output_spec:
  "\<not> scan_panics dbg items i \<Longrightarrow>
     missing_output dbg items i
       = Inr (if needs_output items i then map_option output_for_key (call_key i) else None)"
  "scan_panics dbg items i \<Longrightarrow> \<exists>e. missing_output dbg items i = Inl e"
  by (cases "(dbg, items, i)" rule: missing_output.cases;
      simp add: scan_panics_def needs_output_def has_output_iff_key error_or_panic_def)+

lemma vec_insert_append: "vec_insert (length us + k) x (us @ vs) = us @ vec_insert k x vs"
  by (simp add: vec_insert_def)

lemma insert_outputs_Cons: "insert_outputs ((idx, x) # ms) is = vec_insert (Suc idx) x (insert_outputs ms is)"
  by (simp add: insert_outputs_def)

lemma missing_outputs_insert:
  assumes "\<forall>i\<in>set rest. \<not> scan_panics dbg items i"
  shows "\<exists>ms. missing_outputs_to_insert dbg items (length pre) rest = Inr ms
    \<and> insert_outputs ms (pre @ rest) = pre @ concat (map (with_output items) rest)"
  using assms
proof (induction rest arbitrary: pre)
  case Nil
  then show ?case by (simp add: insert_outputs_def)
next
  case (Cons i rest)
  from Cons.IH[of "pre @ [i]"] Cons.prems obtain ms where ms:
    "missing_outputs_to_insert dbg items (Suc (length pre)) rest = Inr ms"
    "insert_outputs ms (pre @ i # rest) = pre @ i # concat (map (with_output items) rest)"
    by auto
  have "missing_output dbg items i
      = Inr (if needs_output items i then map_option output_for_key (call_key i) else None)"
    using Cons.prems by (intro missing_output_spec) simp
  with ms show ?case
    using vec_insert_append[of pre 1 _ "i # concat (map (with_output items) rest)"]
    by (auto simp: needs_output_def with_output_def[of items i] insert_outputs_Cons vec_insert_def
        split: option.splits)
qed

lemma ensure_call_outputs_present_spec:
  assumes "\<forall>i\<in>set items. \<not> scan_panics dbg items i"
  shows "ensure_call_outputs_present dbg items = Inr (concat (map (with_output items) items))"
  using missing_outputs_insert[OF assms, of "[]"]
  by (auto simp: ensure_call_outputs_present_def)

lemma missing_outputs_panic:
  "\<exists>i\<in>set rest. scan_panics dbg items i \<Longrightarrow>
     \<exists>e. missing_outputs_to_insert dbg items idx rest = Inl e"
proof (induction rest arbitrary: idx)
  case (Cons i rest)
  show ?case
  proof (cases "scan_panics dbg items i")
    case True
    then show ?thesis using missing_output_spec(2)[of dbg items i] by auto
  next
    case False
    with Cons obtain e where "missing_outputs_to_insert dbg items (Suc idx) rest = Inl e" by auto
    then show ?thesis by (auto split: sum.splits)
  qed
qed simp

section \<open>Orphans as a specification\<close>

definition has_call :: "ResponseItem list \<Rightarrow> ResponseItem \<Rightarrow> bool" where
  "has_call items i \<longleftrightarrow>
     (case output_key i of None \<Rightarrow> True | Some k \<Rightarrow> k \<in> set (call_keys items))"

lemma call_ids_keys:
  "c \<in> set (List.map_filter function_call_id is) \<or> c \<in> set (List.map_filter local_shell_call_id is)
     \<longleftrightarrow> (False, c) \<in> set (call_keys is)"
  "c \<in> set (List.map_filter custom_tool_call_id is) \<longleftrightarrow> (True, c) \<in> set (call_keys is)"
proof -
  have "call_key i = Some (False, c)
      \<longleftrightarrow> function_call_id i = Some c \<or> local_shell_call_id i = Some c"
    "call_key i = Some (True, c) \<longleftrightarrow> custom_tool_call_id i = Some c" for i
    by (cases i rule: call_key.cases; simp)+
  then show "c \<in> set (List.map_filter function_call_id is) \<or> c \<in> set (List.map_filter local_shell_call_id is)
     \<longleftrightarrow> (False, c) \<in> set (call_keys is)"
    "c \<in> set (List.map_filter custom_tool_call_id is) \<longleftrightarrow> (True, c) \<in> set (call_keys is)"
    by (auto simp: in_call_keys in_map_filter)
qed

lemma retain_output_spec:
  "\<exists>e. retain_output dbg (List.map_filter function_call_id items)
      (List.map_filter local_shell_call_id items) (List.map_filter custom_tool_call_id items) i
    = (if has_call items i then Inr True else if dbg then Inl e else Inr False)"
  by (cases i) (auto simp: has_call_def call_ids_keys error_or_panic_def)

lemma retain_items_spec:
  assumes "\<And>i. \<exists>e. f i = (if P i then Inr True else if dbg then Inl e else Inr False)"
  shows "retain_items f is = Inr res \<longleftrightarrow> (dbg \<longrightarrow> (\<forall>i\<in>set is. P i)) \<and> res = filter P is"
proof (induction "is" arbitrary: res)
  case (Cons i "is")
  show ?case
  proof (cases "retain_items f is")
    case (Inl e)
    have none: "retain_items f is \<noteq> Inr r" for r using Inl by simp
    from Cons.IH[of "filter P is"] none have "dbg \<and> \<not> (\<forall>i\<in>set is. P i)" by simp
    with Inl assms[of i] show ?thesis by (auto split: if_splits)
  next
    case (Inr r)
    with Cons.IH[of r] have r: "dbg \<longrightarrow> (\<forall>i\<in>set is. P i)" "r = filter P is" by simp_all
    from assms[of i] Inr r(1) show ?thesis unfolding r(2) by (cases "P i"; cases dbg; auto)
  qed
qed auto

lemma remove_orphan_outputs_spec:
  "remove_orphan_outputs dbg items = Inr res
     \<longleftrightarrow> (dbg \<longrightarrow> (\<forall>i\<in>set items. has_call items i)) \<and> res = filter (has_call items) items"
  unfolding remove_orphan_outputs_def by (rule retain_items_spec) (rule retain_output_spec)

section \<open>The repaired list\<close>

lemma strip_item_keys [simp]:
  "call_key (strip_item_images i) = call_key i" "output_key (strip_item_images i) = output_key i"
  by (cases i; simp)+

lemma strip_item_idem [simp]: "strip_item_images (strip_item_images i) = strip_item_images i"
proof -
  have "strip_content_image (strip_content_image c) = strip_content_image c" for c by (cases c) simp_all
  moreover have "strip_output_image (strip_output_image c) = strip_output_image c" for c
    by (cases c) simp_all
  ultimately show ?thesis
    by (cases i) (simp_all add: map_content_items_def split: FunctionCallOutputBody.splits)
qed

lemma strip_images_keys [simp]:
  "call_keys (strip_images_when_unsupported ms is) = call_keys is"
  "output_keys (strip_images_when_unsupported ms is) = output_keys is"
  by (simp_all add: strip_images_when_unsupported_def call_keys_def output_keys_def
      List.map_filter_def comp_def filter_map)

lemma strip_images_idem:
  "strip_images_when_unsupported ms (strip_images_when_unsupported ms is)
     = strip_images_when_unsupported ms is"
  by (simp add: strip_images_when_unsupported_def)

lemma call_keys_with_output [simp]: "call_keys (with_output items i) = call_keys [i]"
  by (auto simp: with_output_def split: option.splits simp del: output_for_key.simps)

lemma call_keys_concat_with_output:
  "call_keys (concat (map (with_output items) is)) = call_keys is"
proof (induction "is")
  case (Cons i "is")
  then show ?case by (auto split: option.splits)
qed simp

lemma in_output_keys_with_output:
  "k \<in> set (output_keys (concat (map (with_output items) is)))
     \<longleftrightarrow> k \<in> set (output_keys is) \<or> k \<in> set (call_keys is) - set (output_keys items)"
proof (induction "is")
  case (Cons i "is")
  then show ?case
    using output_key_of_call[of i]
    by (auto simp: with_output_def split: option.splits simp del: output_for_key.simps)
qed simp

lemma call_keys_filter_has_call [simp]: "call_keys (filter (has_call items) is) = call_keys is"
proof (induction "is")
  case (Cons i "is")
  then show ?case
    using output_key_of_call[of i] by (auto simp: has_call_def split: option.splits)
qed simp

lemma in_output_keys_filter_has_call:
  "k \<in> set (output_keys (filter (has_call items) is))
     \<longleftrightarrow> k \<in> set (output_keys is) \<inter> set (call_keys items)"
  by (induction "is") (auto simp: has_call_def split: option.splits)

text \<open>What the repair computes, in a build without debug assertions.\<close>

definition repaired :: "InputModality list \<Rightarrow> ResponseItem list \<Rightarrow> ResponseItem list" where
  "repaired modalities items =
     strip_images_when_unsupported modalities
       (filter (has_call items) (concat (map (with_output items) items)))"

lemma has_call_cong: "call_keys xs = call_keys ys \<Longrightarrow> has_call xs = has_call ys"
  by (simp add: has_call_def fun_eq_iff split: option.splits)

lemma normalize_release: "normalize_items False modalities items = Inr (repaired modalities items)"
proof -
  let ?is = "concat (map (with_output items) items)"
  have "ensure_call_outputs_present False items = Inr ?is"
    by (rule ensure_call_outputs_present_spec) (simp add: scan_panics_def)
  moreover have "remove_orphan_outputs False ?is = Inr (filter (has_call items) ?is)"
    using remove_orphan_outputs_spec[of False ?is]
      has_call_cong[OF call_keys_concat_with_output[of items items]] by simp
  ultimately show ?thesis by (simp add: normalize_items_def repaired_def)
qed

lemma repaired_paired: "paired (repaired modalities items)"
  unfolding paired_def repaired_def
  by (auto simp: call_keys_concat_with_output in_output_keys_filter_has_call
      in_output_keys_with_output)

lemma call_keys_repaired [simp]: "call_keys (repaired modalities items) = call_keys items"
  by (simp add: repaired_def call_keys_concat_with_output)

lemma paired_no_repair:
  assumes "paired items"
  shows "concat (map (with_output items) items) = items" "filter (has_call items) items = items"
proof -
  have "with_output items i = [i]" if "i \<in> set items" for i
    using that assms by (auto simp: with_output_def paired_def in_call_keys split: option.splits)
  then have "map (with_output items) items = map (\<lambda>i. [i]) items" by (intro map_cong) simp_all
  from arg_cong[OF this, of concat] show "concat (map (with_output items) items) = items"
    by (simp only: concat_map_singleton map_ident)
  show "filter (has_call items) items = items"
    using assms by (auto simp: filter_id_conv has_call_def paired_def in_output_keys split: option.splits)
qed

lemma normalize_paired:
  assumes "paired items"
  shows "normalize_items dbg modalities items
    = Inr (strip_images_when_unsupported modalities items)"
proof -
  have np: "\<forall>i\<in>set items. \<not> scan_panics dbg items i"
    using assms by (auto simp: scan_panics_def needs_output_def paired_def in_call_keys split: option.splits)
  have "\<forall>i\<in>set items. has_call items i"
    using paired_no_repair(2)[OF assms] by (simp add: filter_id_conv)
  then have "remove_orphan_outputs dbg items = Inr items"
    using remove_orphan_outputs_spec[of dbg items items] paired_no_repair(2)[OF assms] by simp
  with ensure_call_outputs_present_spec[OF np] paired_no_repair(1)[OF assms] show ?thesis
    by (simp add: normalize_items_def)
qed

lemma filter_non_output_with_output:
  "filter (\<lambda>i. \<not> is_output i) (concat (map (with_output items) is)) = filter (\<lambda>i. \<not> is_output i) is"
proof (induction "is")
  case (Cons i "is")
  then show ?case
    using output_key_of_call[of i]
    by (auto simp: with_output_def is_output_def split: option.splits simp del: output_for_key.simps)
qed simp

lemma filter_non_output_strip:
  "filter (\<lambda>i. \<not> is_output i) (strip_images_when_unsupported ms is)
     = strip_images_when_unsupported ms (filter (\<lambda>i. \<not> is_output i) is)"
  by (simp add: strip_images_when_unsupported_def is_output_def filter_map comp_def)

lemma non_outputs_kept:
  "filter (\<lambda>i. \<not> is_output i) (repaired ms items)
     = strip_images_when_unsupported ms (filter (\<lambda>i. \<not> is_output i) items)"
proof -
  have "filter (\<lambda>i. \<not> is_output i) (filter (has_call items) is) = filter (\<lambda>i. \<not> is_output i) is"
    for "is" unfolding filter_filter by (intro filter_cong) (auto simp: has_call_def is_output_def split: option.splits)
  then show ?thesis
    by (simp add: repaired_def filter_non_output_strip filter_non_output_with_output)
qed

lemma normalize_debug_panics:
  assumes "\<exists>i\<in>set items. scan_panics True items i \<or> \<not> has_call items i"
  shows "\<exists>e. normalize_items True modalities items = Inl e"
proof (cases "\<exists>i\<in>set items. scan_panics True items i")
  case True
  then show ?thesis
    using missing_outputs_panic[of items True items 0]
    by (auto simp: normalize_items_def ensure_call_outputs_present_def)
next
  case False
  let ?is = "concat (map (with_output items) items)"
  have sub: "set items \<subseteq> set ?is" by (auto simp: with_output_def split: option.splits)
  obtain i where "i \<in> set items" "\<not> has_call items i" using assms False by blast
  with sub have "\<not> (\<forall>i\<in>set ?is. has_call ?is i)"
    unfolding has_call_cong[OF call_keys_concat_with_output[of items items]] by blast
  then have "\<exists>e. remove_orphan_outputs True ?is = Inl e"
    using remove_orphan_outputs_spec[of True ?is] by (cases "remove_orphan_outputs True ?is") auto
  moreover have "ensure_call_outputs_present True items = Inr ?is"
    using False by (intro ensure_call_outputs_present_spec) auto
  ultimately show ?thesis by (auto simp: normalize_items_def)
qed

lemma normalize_debug_release:
  assumes "\<forall>i\<in>set items. \<not> scan_panics True items i \<and> has_call items i"
  shows "normalize_items True modalities items = normalize_items False modalities items"
proof -
  let ?is = "concat (map (with_output items) items)"
  have hc: "has_call ?is = has_call items"
    by (rule has_call_cong[OF call_keys_concat_with_output])
  have "has_call items j" if "i \<in> set items" "j \<in> set (with_output items i)" for i j
    using assms that
    by (auto simp: with_output_def has_call_def in_call_keys simp del: output_for_key.simps
        split: option.splits if_splits)
  then have "\<forall>i\<in>set ?is. has_call items i" by auto
  then have "remove_orphan_outputs True ?is = Inr (filter (has_call items) ?is)"
    "remove_orphan_outputs False ?is = Inr (filter (has_call items) ?is)"
    by (simp_all add: remove_orphan_outputs_spec hc)
  moreover have "ensure_call_outputs_present dbg items = Inr ?is" for dbg
    using assms by (intro ensure_call_outputs_present_spec) (auto simp: scan_panics_def)
  ultimately show ?thesis by (simp add: normalize_items_def)
qed

section \<open>Removing pairs\<close>

definition unique_keys :: "ResponseItem list \<Rightarrow> bool" where
  "unique_keys items \<longleftrightarrow> distinct (call_keys items) \<and> distinct (output_keys items)"

lemma remove_first_matching_split:
  "\<exists>i\<in>set items. p i \<Longrightarrow>
     \<exists>us y vs. items = us @ y # vs \<and> p y \<and> remove_first_matching p items = us @ vs"
proof -
  assume "\<exists>i\<in>set items. p i"
  then obtain n where n: "position p items = Some n" using position_None[of p items] by auto
  from position_Some_split[OF n] obtain us y vs
    where "items = us @ y # vs" "length us = n" "p y" by blast
  with n show ?thesis
    by (intro exI[of _ us] exI[of _ y] exI[of _ vs])
      (auto simp: remove_first_matching_def rust_list_simps)
qed

lemma output_key_matchers:
  "is_function_output_of c i \<longleftrightarrow> output_key i = Some (False, c)"
  "is_custom_output_of c i \<longleftrightarrow> output_key i = Some (True, c)"
  "custom_tool_call_id i = Some c \<longleftrightarrow> call_key i = Some (True, c)"
proof -
  show "is_function_output_of c i \<longleftrightarrow> output_key i = Some (False, c)" by (cases i) simp_all
  show "is_custom_output_of c i \<longleftrightarrow> output_key i = Some (True, c)" by (cases i) simp_all
  show "custom_tool_call_id i = Some c \<longleftrightarrow> call_key i = Some (True, c)"
    by (cases i rule: call_key.cases) simp_all
qed

lemma remove_output_of_call:
  assumes "call_key x = Some k" "k \<in> set (output_keys items)"
  shows "\<exists>us y vs. items = us @ y # vs \<and> output_key y = Some k
    \<and> remove_corresponding_for items x = us @ vs"
proof -
  have "remove_corresponding_for items x = remove_first_matching (\<lambda>i. output_key i = Some k) items"
    using assms(1)
    by (cases "(items, x)" rule: remove_corresponding_for.cases)
      (auto simp: output_key_matchers intro!: arg_cong[of _ _ "\<lambda>p. remove_first_matching p items"])
  moreover have "\<exists>i\<in>set items. output_key i = Some k" using assms(2) by (simp add: in_output_keys)
  ultimately show ?thesis using remove_first_matching_split[of items "\<lambda>i. output_key i = Some k"] by simp
qed

lemma remove_corresponding_function_output:
  "remove_corresponding_for items (FunctionCallOutput c out) =
     (if \<exists>i\<in>set items. function_call_id i = Some c
      then remove_first_matching (\<lambda>i. function_call_id i = Some c) items
      else remove_first_matching (\<lambda>i. local_shell_call_id i = Some c) items)"
proof (cases "position (\<lambda>i. function_call_id i = Some c) items")
  case None
  then have "\<forall>i\<in>set items. function_call_id i \<noteq> Some c" by (simp add: rust_list_simps)
  with None show ?thesis by (simp add: remove_first_matching_def)
next
  case (Some n)
  then have "\<not> (\<forall>i\<in>set items. function_call_id i \<noteq> Some c)"
    using position_None[of "\<lambda>i. function_call_id i = Some c" items] by simp
  with Some show ?thesis by (simp add: remove_first_matching_def)
qed

lemma remove_call_of_output:
  assumes "output_key x = Some k" "k \<in> set (call_keys items)"
  shows "\<exists>us y vs. items = us @ y # vs \<and> call_key y = Some k
    \<and> remove_corresponding_for items x = us @ vs"
proof -
  obtain i where i: "i \<in> set items" "call_key i = Some k" using assms(2) by (auto simp: in_call_keys)
  show ?thesis
  proof (cases x)
    case (CustomToolCallOutput c n out)
    then have k: "k = (True, c)" using assms(1) by simp
    show ?thesis
      using remove_first_matching_split[of items "\<lambda>i. custom_tool_call_id i = Some c"] i
      unfolding CustomToolCallOutput k by (auto simp: output_key_matchers)
  next
    case (FunctionCallOutput c out)
    then have k: "k = (False, c)" using assms(1) by simp
    have key: "function_call_id j = Some c \<Longrightarrow> call_key j = Some k"
      "local_shell_call_id j = Some c \<Longrightarrow> call_key j = Some k"
      "call_key j = Some k \<Longrightarrow> function_call_id j = Some c \<or> local_shell_call_id j = Some c" for j
      unfolding k by (cases j rule: call_key.cases; simp)+
    show ?thesis
    proof (cases "\<exists>i\<in>set items. function_call_id i = Some c")
      case True
      from remove_first_matching_split[OF this] key(1) True show ?thesis
        unfolding FunctionCallOutput remove_corresponding_function_output by auto
    next
      case False
      then have "\<exists>i\<in>set items. local_shell_call_id i = Some c" using i key(3) by blast
      from remove_first_matching_split[OF this] key(2) False show ?thesis
        unfolding FunctionCallOutput remove_corresponding_function_output by auto
    qed
  qed (use assms(1) in auto)
qed

lemma remove_key_both_sides:
  assumes "distinct (as @ k # bs)" "distinct (us @ k # vs)" "set (as @ k # bs) = set (us @ k # vs)"
  shows "set (as @ bs) = set (us @ vs)" "distinct (as @ bs)" "distinct (us @ vs)"
  using assms by auto

lemma remove_pair_keeps_pairing:
  assumes "paired (as @ x # bs)" "unique_keys (as @ x # bs)"
  shows "paired (remove_corresponding_for (as @ bs) x)
    \<and> unique_keys (remove_corresponding_for (as @ bs) x)"
proof -
  consider (call) k where "call_key x = Some k" | (out) k where "output_key x = Some k"
    | (none) "call_key x = None" "output_key x = None" by fastforce
  then show ?thesis
  proof cases
    case call
    have x: "output_key x = None" using call by (rule output_key_of_call)
    with assms call have k: "k \<in> set (output_keys (as @ bs))" by (auto simp: paired_def)
    from remove_output_of_call[OF call k] obtain us y vs where y: "as @ bs = us @ y # vs"
      "output_key y = Some k" "remove_corresponding_for (as @ bs) x = us @ vs" by blast
    have "call_key y = None" using y(2) output_key_of_call[of y] by (cases "call_key y") auto
    with y(2) have keys: "call_keys (as @ bs) = call_keys (us @ vs)"
      "output_keys (as @ x # bs) = output_keys us @ k # output_keys vs"
      using arg_cong[OF y(1), of call_keys] arg_cong[OF y(1), of output_keys] x by simp_all
    have d: "distinct (call_keys as @ k # call_keys bs)" "distinct (output_keys us @ k # output_keys vs)"
      "set (call_keys as @ k # call_keys bs) = set (output_keys us @ k # output_keys vs)"
      using assms call unfolding keys(2)[symmetric] paired_def unique_keys_def by simp_all
    show ?thesis
      using remove_key_both_sides[OF d]
      unfolding y(3) paired_def unique_keys_def keys(1)[symmetric] by simp
  next
    case out
    have x: "call_key x = None" using out output_key_of_call[of x] by (cases "call_key x") auto
    with assms out have k: "k \<in> set (call_keys (as @ bs))" by (auto simp: paired_def)
    from remove_call_of_output[OF out k] obtain us y vs where y: "as @ bs = us @ y # vs"
      "call_key y = Some k" "remove_corresponding_for (as @ bs) x = us @ vs" by blast
    have "output_key y = None" using y(2) by (rule output_key_of_call)
    with y(2) have keys: "output_keys (as @ bs) = output_keys (us @ vs)"
      "call_keys (as @ x # bs) = call_keys us @ k # call_keys vs"
      using arg_cong[OF y(1), of call_keys] arg_cong[OF y(1), of output_keys] x by simp_all
    have d: "distinct (output_keys as @ k # output_keys bs)" "distinct (call_keys us @ k # call_keys vs)"
      "set (output_keys as @ k # output_keys bs) = set (call_keys us @ k # call_keys vs)"
      using assms out unfolding keys(2)[symmetric] paired_def unique_keys_def by simp_all
    show ?thesis
      using remove_key_both_sides[OF d]
      unfolding y(3) paired_def unique_keys_def keys(1)[symmetric] by simp
  next
    case none
    then have "remove_corresponding_for (as @ bs) x = as @ bs"
      by (cases "(as @ bs, x)" rule: remove_corresponding_for.cases) auto
    with assms none show ?thesis by (simp add: paired_def unique_keys_def)
  qed
qed

section \<open>Properties\<close>

text \<open>
  C2: in a release build the repair of a history succeeds on every list. Afterwards calls and
  outputs are paired (every function, shell or custom tool call has an output of its kind
  with its id, and every output has such a call), the calls are the same calls, and everything
  that is not an output is kept, in order, with images replaced where the model takes none.
\<close>

theorem normalize_pairs_calls_and_outputs:
  "\<exists>res. normalize_items False modalities items = Inr res \<and> paired res
     \<and> call_keys res = call_keys items
     \<and> filter (\<lambda>i. \<not> is_output i) res
         = strip_images_when_unsupported modalities (filter (\<lambda>i. \<not> is_output i) items)"
  using normalize_release repaired_paired non_outputs_kept by auto

text \<open>
  C5: the two index-based passes of the source compute a list comprehension: each item
  followed by an \<open>aborted\<close> output when it is a call whose output is nowhere in the list, then
  the outputs that have a call, then the image pass. In particular an inserted output stands
  right behind its call.
\<close>

theorem normalize_reference:
  "normalize_items False modalities items =
     Inr (strip_images_when_unsupported modalities
       (filter (has_call items) (concat (map (with_output items) items))))"
  using normalize_release by (simp add: repaired_def)

text \<open>
  C15: normalizing a normalized history changes nothing, and a debug build gets through it.
\<close>

theorem normalize_idempotent:
  assumes "normalize_items False modalities items = Inr res"
  shows "normalize_items dbg modalities res = Inr res"
proof -
  have "res = repaired modalities items" using assms normalize_release by simp
  then show ?thesis
    using normalize_paired[OF repaired_paired, of dbg modalities modalities items]
    by (simp add: repaired_def strip_images_idem)
qed

theorem normalize_idempotent_witness:
  "normalize_items True [] [FunctionCall None ''f'' None ''{}'' ''c1'',
       FunctionCallOutput ''c1'' aborted_output]
     = Inr [FunctionCall None ''f'' None ''{}'' ''c1'', FunctionCallOutput ''c1'' aborted_output]"
  by (rule normalize_idempotent[of "[]" "[FunctionCall None ''f'' None ''{}'' ''c1'',
        FunctionCallOutput ''c9'' aborted_output]"]) code_simp

text \<open>
  C16: a build with debug assertions panics during the repair exactly when a custom tool call
  or a local shell call lacks its output or an output lacks its call; otherwise it computes
  what the release build computes. A plain function call without output never panics.
\<close>

theorem normalize_debug_build:
  "if \<exists>i\<in>set items. needs_output items i \<and> function_call_id i = None \<or> \<not> has_call items i
   then \<exists>e. normalize_items True modalities items = Inl e
   else normalize_items True modalities items = normalize_items False modalities items"
  using normalize_debug_release[of items modalities] normalize_debug_panics[of items modalities]
  by (auto simp: scan_panics_def)

theorem normalize_debug_build_witness:
  "(\<exists>e. normalize_items True [] [CustomToolCall None None ''c1'' ''apply_patch'' ''x''] = Inl e)
   \<and> normalize_items True [] [FunctionCall None ''f'' None ''{}'' ''c1'']
     = normalize_items False [] [FunctionCall None ''f'' None ''{}'' ''c1'']"
proof -
  have "needs_output [CustomToolCall None None ''c1'' ''apply_patch'' ''x'']
      (CustomToolCall None None ''c1'' ''apply_patch'' ''x'')"
    "has_call [FunctionCall None ''f'' None ''{}'' ''c1''] (FunctionCall None ''f'' None ''{}'' ''c1'')"
    by code_simp+
  then show ?thesis
    using normalize_debug_build[of "[CustomToolCall None None ''c1'' ''apply_patch'' ''x'']" "[]"]
      normalize_debug_build[of "[FunctionCall None ''f'' None ''{}'' ''c1'']" "[]"] by simp
qed

fun has_image :: "ResponseItem \<Rightarrow> bool" where
  "has_image (Message _ _ content _) = (\<exists>c\<in>set content. case c of InputImage _ _ \<Rightarrow> True | _ \<Rightarrow> False)"
| "has_image (FunctionCallOutput _ out) =
     (case content_items out of None \<Rightarrow> False
      | Some cs \<Rightarrow> \<exists>c\<in>set cs. case c of Out_InputImage _ _ \<Rightarrow> True | _ \<Rightarrow> False)"
| "has_image (CustomToolCallOutput _ _ out) =
     (case content_items out of None \<Rightarrow> False
      | Some cs \<Rightarrow> \<exists>c\<in>set cs. case c of Out_InputImage _ _ \<Rightarrow> True | _ \<Rightarrow> False)"
| "has_image (ImageGenerationCall _ _ _ res) = (res \<noteq> [])"
| "has_image _ = False"

text \<open>
  C17: when the model does not take images no image is left in messages or tool outputs, no
  generated image keeps its data, and the list keeps its length, calls and outputs.
\<close>

theorem strip_images_removes_images:
  assumes "Modality_Image \<notin> set modalities"
  shows "\<not> list_ex has_image (strip_images_when_unsupported modalities items)
    \<and> length (strip_images_when_unsupported modalities items) = length items
    \<and> call_keys (strip_images_when_unsupported modalities items) = call_keys items
    \<and> output_keys (strip_images_when_unsupported modalities items) = output_keys items"
proof -
  have c: "\<not> (case strip_content_image c of InputImage _ _ \<Rightarrow> True | _ \<Rightarrow> False)" for c
    by (cases c) simp_all
  have o: "\<not> (case strip_output_image c of Out_InputImage _ _ \<Rightarrow> True | _ \<Rightarrow> False)" for c
    by (cases c) simp_all
  have "\<not> has_image (strip_item_images i)" for i
    by (cases i) (auto simp: c o map_content_items_def content_items_def
        split: FunctionCallOutputBody.splits)
  with assms show ?thesis
    by (simp add: list_ex_iff) (simp add: strip_images_when_unsupported_def)
qed

theorem strip_images_removes_images_witness:
  "\<not> list_ex has_image (strip_images_when_unsupported [Modality_Text]
     [Message None ''user'' [InputImage ''data:image/png;base64,AA'' None] None])"
  using strip_images_removes_images[of "[Modality_Text]"
      "[Message None ''user'' [InputImage ''data:image/png;base64,AA'' None] None]"] by simp

end
