(* ===== verification/Protocol_Events.thy ===== *)
theory Protocol_Events
  imports Protocol_Models
begin

text \<open>
  Events and rollout lines, from \<open>codex-rs/protocol/src/protocol.rs\<close>: every \<open>EventMsg\<close>
  variant with its payload, the error classification, the items of a rollout file, and the
  queries \<open>InitialHistory\<close> answers about a resumed or forked rollout.
\<close>

type_synonym ThreadId = string
type_synonym SessionId = string

section \<open>Errors\<close>

datatype NonSteerableTurnKind = Kind_Compact

datatype CodexErrorInfo =
    ContextWindowExceeded
  | UsageLimitExceeded
  | ServerOverloaded
  | CyberPolicy
  | HttpConnectionFailed "nat option"
  | ResponseStreamConnectionFailed "nat option"
  | InternalServerError
  | Unauthorized
  | BadRequest
  | ResponseStreamDisconnected "nat option"
  | ResponseTooManyFailedAttempts "nat option"
  | ActiveTurnNotSteerable NonSteerableTurnKind
  | ErrorInfo_Other

fun error_info_affects_turn_status :: "CodexErrorInfo \<Rightarrow> bool" where
  "error_info_affects_turn_status (ActiveTurnNotSteerable _) = False"
| "error_info_affects_turn_status ContextWindowExceeded = True"
| "error_info_affects_turn_status UsageLimitExceeded = True"
| "error_info_affects_turn_status ServerOverloaded = True"
| "error_info_affects_turn_status CyberPolicy = True"
| "error_info_affects_turn_status (HttpConnectionFailed _) = True"
| "error_info_affects_turn_status (ResponseStreamConnectionFailed _) = True"
| "error_info_affects_turn_status InternalServerError = True"
| "error_info_affects_turn_status Unauthorized = True"
| "error_info_affects_turn_status BadRequest = True"
| "error_info_affects_turn_status (ResponseStreamDisconnected _) = True"
| "error_info_affects_turn_status (ResponseTooManyFailedAttempts _) = True"
| "error_info_affects_turn_status ErrorInfo_Other = True"

record ErrorEvent =
  ee_message :: string
  ee_codex_error_info :: "CodexErrorInfo option"

definition error_affects_turn_status :: "ErrorEvent \<Rightarrow> bool" where
  "error_affects_turn_status e =
     (case ee_codex_error_info e of None \<Rightarrow> True | Some i \<Rightarrow> error_info_affects_turn_status i)"

section \<open>Event payloads\<close>

datatype ReasoningEffort =
  Effort_None | Effort_Minimal | Effort_Low | Effort_Medium | Effort_High | Effort_XHigh

datatype ReasoningSummary = Summary_Auto | Summary_Concise | Summary_Detailed | Summary_None

datatype ModelRerouteReason = HighRiskCyberActivity

record ModelRerouteEvent =
  mre_from_model :: string
  mre_to_model :: string
  mre_reason :: ModelRerouteReason

datatype ModelVerification = TrustedAccessForCyber

record TurnStartedEvent =
  tse_turn_id :: string
  tse_trace_id :: "string option"
  tse_started_at :: "i64 option"
  tse_model_context_window :: "i64 option"

record TurnCompleteEvent =
  tce_turn_id :: string
  tce_last_agent_message :: "string option"
  tce_completed_at :: "i64 option"
  tce_duration_ms :: "i64 option"
  tce_time_to_first_token_ms :: "i64 option"

datatype TurnAbortReason = Abort_Interrupted | Abort_Replaced | Abort_BudgetLimited

record TurnAbortedEvent =
  tae_turn_id :: "string option"
  tae_reason :: TurnAbortReason
  tae_completed_at :: "i64 option"
  tae_duration_ms :: "i64 option"

record ThreadSettingsSnapshot =
  tss_model :: string
  tss_model_provider_id :: string
  tss_service_tier :: "string option"
  tss_cwd :: path
  tss_reasoning_effort :: "ReasoningEffort option"
  tss_reasoning_summary :: "ReasoningSummary option"

record TokenCountEvent =
  tke_info :: "TokenUsageInfo option"
  tke_rate_limits :: "RateLimitSnapshot option"

record ItemStartedEvent =
  ise_thread_id :: ThreadId
  ise_turn_id :: string
  ise_item :: TurnItem
  ise_started_at_ms :: i64

record ItemCompletedEvent =
  ice_thread_id :: ThreadId
  ice_turn_id :: string
  ice_item :: TurnItem
  ice_completed_at_ms :: i64

record AgentMessageContentDeltaEvent =
  amd_thread_id :: string
  amd_turn_id :: string
  amd_item_id :: string
  amd_delta :: string

text \<open>The reasoning delta payloads: \<open>rde_index\<close> is \<open>summary_index\<close> or \<open>content_index\<close>.\<close>

record ReasoningDeltaEvent =
  rde_thread_id :: string
  rde_turn_id :: string
  rde_item_id :: string
  rde_delta :: string
  rde_index :: i64

datatype ParsedCommand =
    Parsed_Read string string path
  | Parsed_ListFiles string "string option"
  | Parsed_Search string "string option" "string option"
  | Parsed_Unknown string

datatype ExecCommandSource = Source_Agent | Source_UnifiedExecStartup | Source_UnifiedExecInteraction

datatype ExecCommandStatus = ExecStatus_Completed | ExecStatus_Failed | ExecStatus_Declined

record ExecCommandBeginEvent =
  ecb_call_id :: string
  ecb_process_id :: "string option"
  ecb_turn_id :: string
  ecb_started_at_ms :: i64
  ecb_command :: "string list"
  ecb_cwd :: path
  ecb_parsed_cmd :: "ParsedCommand list"
  ecb_source :: ExecCommandSource
  ecb_interaction_input :: "string option"

text \<open>\<open>ece_duration_ms\<close> is \<open>duration.as_millis()\<close>, the only use of the \<open>Duration\<close>.\<close>

record ExecCommandEndEvent =
  ece_call_id :: string
  ece_process_id :: "string option"
  ece_turn_id :: string
  ece_completed_at_ms :: i64
  ece_command :: "string list"
  ece_cwd :: path
  ece_parsed_cmd :: "ParsedCommand list"
  ece_source :: ExecCommandSource
  ece_interaction_input :: "string option"
  ece_stdout :: string
  ece_stderr :: string
  ece_aggregated_output :: string
  ece_exit_code :: int
  ece_duration_ms :: nat
  ece_formatted_output :: string
  ece_status :: ExecCommandStatus

datatype ExecOutputStream = Stdout | Stderr

record ExecCommandOutputDeltaEvent =
  eod_call_id :: string
  eod_stream :: ExecOutputStream
  eod_chunk :: string

record TerminalInteractionEvent =
  tie_call_id :: string
  tie_process_id :: string
  tie_stdin :: string

record DynamicToolCallResponseEvent =
  dre_call_id :: string
  dre_turn_id :: string
  dre_completed_at_ms :: i64
  dre_namespace :: "string option"
  dre_tool :: string
  dre_arguments :: json_text
  dre_content_items :: "DynamicToolCallOutputContentItem list"
  dre_success :: bool
  dre_error :: "string option"
  dre_duration_ms :: nat

record StreamErrorEvent =
  ste_message :: string
  ste_codex_error_info :: "CodexErrorInfo option"
  ste_additional_details :: "string option"

record SessionConfigured_fields =
  sce_session_id :: SessionId
  sce_thread_id :: ThreadId
  sce_forked_from_id :: "ThreadId option"
  sce_thread_name :: "string option"
  sce_model :: string
  sce_model_provider_id :: string
  sce_service_tier :: "string option"
  sce_cwd :: path
  sce_reasoning_effort :: "ReasoningEffort option"
  sce_rollout_path :: "path option"

text \<open>
  \<open>SessionConfigured\<close> carries the event list \<open>initial_messages\<close> beside its other fields.
\<close>

datatype EventMsg =
    Error ErrorEvent
  | Warning string
  | ModelReroute ModelRerouteEvent
  | ModelVerificationEvent "ModelVerification list"
  | TurnStarted TurnStartedEvent
  | ThreadSettingsApplied ThreadSettingsSnapshot
  | TurnComplete TurnCompleteEvent
  | TokenCount TokenCountEvent
  | AgentReasoningSectionBreak string i64
  | SessionConfigured SessionConfigured_fields "EventMsg list option"
  | ExecCommandBegin ExecCommandBeginEvent
  | ExecCommandOutputDelta ExecCommandOutputDeltaEvent
  | TerminalInteraction TerminalInteractionEvent
  | ExecCommandEnd ExecCommandEndEvent
  | DynamicToolCallRequested DynamicToolCallRequest
  | DynamicToolCallResponse DynamicToolCallResponseEvent
  | DeprecationNotice string "string option"
  | StreamError StreamErrorEvent
  | TurnDiff string
  | TurnAborted TurnAbortedEvent
  | ShutdownComplete
  | RawResponseItem ResponseItem
  | ItemStarted ItemStartedEvent
  | ItemCompleted ItemCompletedEvent
  | AgentMessageContentDelta AgentMessageContentDeltaEvent
  | ReasoningContentDelta ReasoningDeltaEvent
  | ReasoningRawContentDelta ReasoningDeltaEvent

section \<open>Rollout items\<close>

datatype SessionSource = Src_Cli | Src_VSCode | Src_Exec | Src_Custom string | Src_Unknown

fun session_source_display :: "SessionSource \<Rightarrow> string" where
  "session_source_display Src_Cli = ''cli''"
| "session_source_display Src_VSCode = ''vscode''"
| "session_source_display Src_Exec = ''exec''"
| "session_source_display (Src_Custom s) = s"
| "session_source_display Src_Unknown = ''unknown''"

definition session_source_from_startup_arg :: "string \<Rightarrow> string + SessionSource" where
  "session_source_from_startup_arg v =
     (let trimmed = trim v in
      if trimmed = [] then Inl ''session source must not be empty''
      else
        let normalized = to_ascii_lowercase trimmed in
        Inr (if normalized = ''cli'' then Src_Cli
             else if normalized = ''vscode'' then Src_VSCode
             else if normalized = ''exec'' then Src_Exec
             else if normalized = ''unknown'' then Src_Unknown
             else Src_Custom normalized))"

datatype Product = Product_Chatgpt | Product_Codex | Product_Atlas

definition product_from_session_source_name :: "string \<Rightarrow> Product option" where
  "product_from_session_source_name v =
     (let normalized = to_ascii_lowercase (trim v) in
      if normalized = ''chatgpt'' then Some Product_Chatgpt
      else if normalized = ''codex'' then Some Product_Codex
      else if normalized = ''atlas'' then Some Product_Atlas
      else None)"

fun restriction_product :: "SessionSource \<Rightarrow> Product option" where
  "restriction_product (Src_Custom s) = product_from_session_source_name s"
| "restriction_product Src_Cli = Some Product_Codex"
| "restriction_product Src_VSCode = Some Product_Codex"
| "restriction_product Src_Exec = Some Product_Codex"
| "restriction_product Src_Unknown = Some Product_Codex"

definition product_matches_restriction :: "Product \<Rightarrow> Product list \<Rightarrow> bool" where
  "product_matches_restriction p ps \<longleftrightarrow> ps = [] \<or> p \<in> set ps"

definition source_matches_product_restriction :: "SessionSource \<Rightarrow> Product list \<Rightarrow> bool" where
  "source_matches_product_restriction s ps \<longleftrightarrow>
     ps = [] \<or> (case restriction_product s of
                  None \<Rightarrow> False | Some p \<Rightarrow> product_matches_restriction p ps)"

record GitInfo =
  gi_commit_hash :: "string option"
  gi_branch :: "string option"
  gi_repository_url :: "string option"

record SessionMeta =
  sm_id :: ThreadId
  sm_forked_from_id :: "ThreadId option"
  sm_timestamp :: string
  sm_cwd :: path
  sm_originator :: string
  sm_cli_version :: string
  sm_source :: SessionSource
  sm_model_provider :: "string option"
  sm_base_instructions :: "string option"
  sm_dynamic_tools :: "DynamicToolSpec list option"

record SessionMetaLine =
  sml_meta :: SessionMeta
  sml_git :: "GitInfo option"

record CompactedItem =
  ci_message :: string
  ci_replacement_history :: "ResponseItem list option"

definition response_item_of_compacted :: "CompactedItem \<Rightarrow> ResponseItem" where
  "response_item_of_compacted c =
     Message None ''assistant'' [OutputText (ci_message c)] None"

record TurnContextItem =
  tci_turn_id :: "string option"
  tci_cwd :: path
  tci_current_date :: "string option"
  tci_timezone :: "string option"
  tci_model :: string
  tci_effort :: "ReasoningEffort option"
  tci_summary :: ReasoningSummary

datatype RolloutItem =
    RSessionMeta SessionMetaLine
  | RResponseItem ResponseItem
  | RCompacted CompactedItem
  | RTurnContext TurnContextItem
  | REventMsg EventMsg

record ResumedHistory =
  rh_conversation_id :: ThreadId
  rh_history :: "RolloutItem list"
  rh_rollout_path :: "path option"

datatype InitialHistory =
    Hist_New | Hist_Cleared | Hist_Resumed ResumedHistory | Hist_Forked "RolloutItem list"

fun get_rollout_items :: "InitialHistory \<Rightarrow> RolloutItem list" where
  "get_rollout_items Hist_New = []"
| "get_rollout_items Hist_Cleared = []"
| "get_rollout_items (Hist_Resumed r) = rh_history r"
| "get_rollout_items (Hist_Forked is) = is"

fun scan_rollout_items :: "InitialHistory \<Rightarrow> (RolloutItem \<Rightarrow> bool) \<Rightarrow> bool" where
  "scan_rollout_items Hist_New p = False"
| "scan_rollout_items Hist_Cleared p = False"
| "scan_rollout_items (Hist_Resumed r) p = list_ex p (rh_history r)"
| "scan_rollout_items (Hist_Forked is) p = list_ex p is"

fun meta_of :: "RolloutItem \<Rightarrow> SessionMeta option" where
  "meta_of (RSessionMeta l) = Some (sml_meta l)"
| "meta_of _ = None"

fun event_of :: "RolloutItem \<Rightarrow> EventMsg option" where
  "event_of (REventMsg e) = Some e"
| "event_of _ = None"

fun forked_from_id :: "InitialHistory \<Rightarrow> ThreadId option" where
  "forked_from_id Hist_New = None"
| "forked_from_id Hist_Cleared = None"
| "forked_from_id (Hist_Resumed r) =
     find_map (\<lambda>i. Option.bind (meta_of i) sm_forked_from_id) (rh_history r)"
| "forked_from_id (Hist_Forked is) = find_map (\<lambda>i. map_option sm_id (meta_of i)) is"

definition session_cwd_from_items :: "RolloutItem list \<Rightarrow> path option" where
  "session_cwd_from_items is = find_map (\<lambda>i. map_option sm_cwd (meta_of i)) is"

definition dynamic_tools_from_session_meta :: "RolloutItem list \<Rightarrow> DynamicToolSpec list option" where
  "dynamic_tools_from_session_meta is =
     find_map (\<lambda>i. Option.bind (meta_of i) sm_dynamic_tools) is"

fun session_cwd :: "InitialHistory \<Rightarrow> path option" where
  "session_cwd Hist_New = None"
| "session_cwd Hist_Cleared = None"
| "session_cwd (Hist_Resumed r) = session_cwd_from_items (rh_history r)"
| "session_cwd (Hist_Forked is) = session_cwd_from_items is"

fun get_event_msgs :: "InitialHistory \<Rightarrow> EventMsg list option" where
  "get_event_msgs Hist_New = None"
| "get_event_msgs Hist_Cleared = None"
| "get_event_msgs (Hist_Resumed r) = Some (List.map_filter event_of (rh_history r))"
| "get_event_msgs (Hist_Forked is) = Some (List.map_filter event_of is)"

fun get_base_instructions :: "InitialHistory \<Rightarrow> string option" where
  "get_base_instructions Hist_New = None"
| "get_base_instructions Hist_Cleared = None"
| "get_base_instructions (Hist_Resumed r) =
     find_map (\<lambda>i. Option.bind (meta_of i) sm_base_instructions) (rh_history r)"
| "get_base_instructions (Hist_Forked is) =
     find_map (\<lambda>i. Option.bind (meta_of i) sm_base_instructions) is"

fun get_dynamic_tools :: "InitialHistory \<Rightarrow> DynamicToolSpec list option" where
  "get_dynamic_tools Hist_New = None"
| "get_dynamic_tools Hist_Cleared = None"
| "get_dynamic_tools (Hist_Resumed r) = dynamic_tools_from_session_meta (rh_history r)"
| "get_dynamic_tools (Hist_Forked is) = dynamic_tools_from_session_meta is"

lemma scan_rollout_items_iff:
  "scan_rollout_items h p \<longleftrightarrow> (\<exists>i\<in>set (get_rollout_items h). p i)"
  by (cases h) (auto simp: list_ex_iff)

end
