(* ===== verification/Text_Truncation.thy ===== *)
theory Text_Truncation
  imports Utf8_Text
begin

text \<open>
  Truncation of tool output and context values, from \<open>codex-rs/utils/string/src/truncate.rs\<close>
  and \<open>lib.rs\<close>: the byte-per-token estimates, the split of a string around a middle that is
  dropped, the marker, and the longest prefix on a character boundary. The lemmas show that
  what is kept is a prefix and a suffix made of whole characters within their budgets, as
  long as possible, and that the count in the marker is the number of dropped characters.
\<close>

section \<open>Estimates\<close>

definition APPROX_BYTES_PER_TOKEN :: usize where "APPROX_BYTES_PER_TOKEN = 4"

definition approx_token_count :: "string \<Rightarrow> usize" where
  "approx_token_count t =
     usize_sat_add (length t) (usize_sat_sub APPROX_BYTES_PER_TOKEN 1) div APPROX_BYTES_PER_TOKEN"

definition approx_bytes_for_tokens :: "usize \<Rightarrow> usize" where
  "approx_bytes_for_tokens n = usize_sat_mul n APPROX_BYTES_PER_TOKEN"

text \<open>\<open>bytes as u64\<close> does not change the value on a 64-bit target.\<close>

definition approx_tokens_from_byte_count :: "usize \<Rightarrow> u64" where
  "approx_tokens_from_byte_count bytes =
     min (bytes + (APPROX_BYTES_PER_TOKEN - 1)) u64_MAX div APPROX_BYTES_PER_TOKEN"

section \<open>Splitting around the middle\<close>

definition split_budget :: "usize \<Rightarrow> usize \<times> usize" where
  "split_budget budget = (let left = budget div 2 in (left, budget - left))"

text \<open>
  The loop of \<open>split_string\<close> over \<open>char_indices\<close>. The state is \<open>prefix_end\<close>,
  \<open>suffix_start\<close>, \<open>removed_chars\<close> and \<open>suffix_started\<close>.
\<close>

type_synonym split_state = "usize \<times> usize \<times> usize \<times> bool"

fun split_loop :: "usize \<Rightarrow> usize \<Rightarrow> (usize \<times> usize) list \<Rightarrow> split_state \<Rightarrow> split_state" where
  "split_loop beginning_bytes tail_start_target [] st = st"
| "split_loop beginning_bytes tail_start_target ((idx, len) # rest)
     (prefix_end, suffix_start, removed_chars, suffix_started) =
     (let char_end = idx + len in
      if char_end \<le> beginning_bytes then
        split_loop beginning_bytes tail_start_target rest
          (char_end, suffix_start, removed_chars, suffix_started)
      else if tail_start_target \<le> idx then
        split_loop beginning_bytes tail_start_target rest
          (prefix_end, (if suffix_started then suffix_start else idx), removed_chars, True)
      else
        split_loop beginning_bytes tail_start_target rest
          (prefix_end, suffix_start, usize_sat_add removed_chars 1, suffix_started))"

definition split_string :: "string \<Rightarrow> usize \<Rightarrow> usize \<Rightarrow> usize \<times> string \<times> string" where
  "split_string s beginning_bytes end_bytes =
     (if s = [] then (0, [], [])
      else
        let len = length s;
            tail_start_target = usize_sat_sub len end_bytes;
            (prefix_end, suffix_start, removed_chars, _) =
              split_loop beginning_bytes tail_start_target (char_indices s) (0, len, 0, False);
            suffix_start = (if suffix_start < prefix_end then prefix_end else suffix_start)
        in (removed_chars, take prefix_end s, drop suffix_start s))"

section \<open>Truncation\<close>

text \<open>The ellipsis U+2026 in UTF-8.\<close>

definition ellipsis :: string where
  "ellipsis = [CHR 0xE2, CHR 0x80, CHR 0xA6]"

definition format_truncation_marker :: "bool \<Rightarrow> u64 \<Rightarrow> string" where
  "format_truncation_marker use_tokens removed_count =
     ellipsis @ nat_to_string removed_count
       @ (if use_tokens then '' tokens truncated'' else '' chars truncated'') @ ellipsis"

definition removed_units :: "bool \<Rightarrow> usize \<Rightarrow> usize \<Rightarrow> u64" where
  "removed_units use_tokens removed_bytes removed_chars =
     (if use_tokens then approx_tokens_from_byte_count removed_bytes else removed_chars)"

definition assemble_truncated_output :: "string \<Rightarrow> string \<Rightarrow> string \<Rightarrow> string" where
  "assemble_truncated_output pre suf marker = pre @ marker @ suf"

definition truncate_with_byte_estimate :: "string \<Rightarrow> usize \<Rightarrow> bool \<Rightarrow> string" where
  "truncate_with_byte_estimate s max_bytes use_tokens =
     (if s = [] then []
      else if max_bytes = 0 then
        format_truncation_marker use_tokens
          (removed_units use_tokens (length s) (length (utf8_chars s)))
      else if length s \<le> max_bytes then s
      else
        let (left_budget, right_budget) = split_budget max_bytes;
            (removed_chars, left, right) = split_string s left_budget right_budget;
            marker = format_truncation_marker use_tokens
              (removed_units use_tokens (usize_sat_sub (length s) max_bytes) removed_chars)
        in assemble_truncated_output left right marker)"

definition truncate_middle_chars :: "string \<Rightarrow> usize \<Rightarrow> string" where
  "truncate_middle_chars s max_bytes = truncate_with_byte_estimate s max_bytes False"

definition truncate_middle_with_token_budget :: "string \<Rightarrow> usize \<Rightarrow> string \<times> u64 option" where
  "truncate_middle_with_token_budget s max_tokens =
     (if s = [] then ([], None)
      else if max_tokens > 0 \<and> length s \<le> approx_bytes_for_tokens max_tokens then (s, None)
      else
        let truncated = truncate_with_byte_estimate s (approx_bytes_for_tokens max_tokens) True;
            total_tokens = approx_token_count s
        in if truncated = s then (truncated, None) else (truncated, Some total_tokens))"

text \<open>\<open>take_bytes_at_char_boundary\<close>: the loop stops at the first character past the limit.\<close>

fun last_ok_loop :: "usize \<Rightarrow> (usize \<times> usize) list \<Rightarrow> usize \<Rightarrow> usize" where
  "last_ok_loop maxb [] last_ok = last_ok"
| "last_ok_loop maxb ((i, len) # rest) last_ok =
     (let nb = i + len in if nb > maxb then last_ok else last_ok_loop maxb rest nb)"

definition take_bytes_at_char_boundary :: "string \<Rightarrow> usize \<Rightarrow> string" where
  "take_bytes_at_char_boundary s maxb =
     (if length s \<le> maxb then s else take (last_ok_loop maxb (char_indices s) 0) s)"

section \<open>The split keeps whole characters within the budgets\<close>

lemma split_loop_suffix:
  assumes "beginning < i" "target \<le> i" "[] \<notin> set chs"
  shows "split_loop beginning target (char_indices_from i chs) (p, q, r, True) = (p, q, r, True)"
  using assms by (induction chs arbitrary: i) auto

lemma split_loop_middle:
  assumes "beginning < i" "[] \<notin> set chs" "r + length chs \<le> usize_MAX"
  shows "\<exists>m b. chs = m @ b
    \<and> split_loop beginning target (char_indices_from i chs) (p, q, r, False)
        = (p, (if b = [] then q else i + length (concat m)), r + length m, b \<noteq> [])
    \<and> (b \<noteq> [] \<longrightarrow> target \<le> i + length (concat m))
    \<and> (m \<noteq> [] \<longrightarrow> i + length (concat (butlast m)) < target)"
  using assms
proof (induction chs arbitrary: i r)
  case Nil
  show ?case by (intro exI[of _ "[]"]) simp
next
  case (Cons c chs)
  show ?case
  proof (cases "target \<le> i")
    case True
    have "split_loop beginning target (char_indices_from (i + length c) chs) (p, i, r, True)
        = (p, i, r, True)"
      using Cons.prems True by (intro split_loop_suffix) auto
    with Cons.prems(1) True show ?thesis
      by (intro exI[of _ "[]"] exI[of _ "c # chs"]) simp
  next
    case False
    have r: "usize_sat_add r 1 = Suc r" using Cons.prems(3) by (simp add: sat_simps)
    obtain m b where mb: "chs = m @ b"
      "split_loop beginning target (char_indices_from (i + length c) chs) (p, q, Suc r, False)
        = (p, (if b = [] then q else i + length c + length (concat m)), Suc r + length m, b \<noteq> [])"
      "b \<noteq> [] \<longrightarrow> target \<le> i + length c + length (concat m)"
      "m \<noteq> [] \<longrightarrow> i + length c + length (concat (butlast m)) < target"
      using Cons.IH[of "i + length c" "Suc r"] Cons.prems by auto
    with False r Cons.prems(1) show ?thesis
      by (intro exI[of _ "c # m"] exI[of _ b]) (auto simp: add.assoc)
  qed
qed

lemma split_loop_prefix:
  assumes "i \<le> beginning" "[] \<notin> set chs" "length chs \<le> usize_MAX"
  shows "\<exists>a m b. chs = a @ m @ b
    \<and> split_loop beginning target (char_indices_from i chs) (i, q, 0, False)
        = (i + length (concat a),
           (if b = [] then q else i + length (concat (a @ m))), length m, b \<noteq> [])
    \<and> i + length (concat a) \<le> beginning
    \<and> (m @ b \<noteq> [] \<longrightarrow> beginning < i + length (concat a) + length (hd (m @ b)))
    \<and> (b \<noteq> [] \<longrightarrow> target \<le> i + length (concat (a @ m)))
    \<and> (m \<noteq> [] \<longrightarrow> i + length (concat (a @ butlast m)) < target)"
  using assms
proof (induction chs arbitrary: i)
  case Nil
  show ?case using Nil by (intro exI[of _ "[]"]) simp
next
  case (Cons c chs)
  show ?case
  proof (cases "i + length c \<le> beginning")
    case True
    from Cons.IH[OF True] Cons.prems obtain a m b where amb: "chs = a @ m @ b"
      "split_loop beginning target (char_indices_from (i + length c) chs) (i + length c, q, 0, False)
        = (i + length c + length (concat a),
           (if b = [] then q else i + length c + length (concat (a @ m))), length m, b \<noteq> [])"
      "i + length c + length (concat a) \<le> beginning"
      "m @ b \<noteq> [] \<longrightarrow> beginning < i + length c + length (concat a) + length (hd (m @ b))"
      "b \<noteq> [] \<longrightarrow> target \<le> i + length c + length (concat (a @ m))"
      "m \<noteq> [] \<longrightarrow> i + length c + length (concat (a @ butlast m)) < target"
      by auto
    with True show ?thesis
      by (intro exI[of _ "c # a"] exI[of _ m] exI[of _ b]) (simp add: add.assoc)
  next
    case False
    show ?thesis
    proof (cases "target \<le> i")
      case True
      have "split_loop beginning target (char_indices_from (i + length c) chs) (i, i, 0, True)
          = (i, i, 0, True)"
        using Cons.prems False True by (intro split_loop_suffix) auto
      with False True Cons.prems(1) show ?thesis
        by (intro exI[of _ "[]"] exI[of _ "[]"] exI[of _ "c # chs"]) simp
    next
      case nt: False
      obtain m b where mb: "chs = m @ b"
        "split_loop beginning target (char_indices_from (i + length c) chs) (i, q, 1, False)
          = (i, (if b = [] then q else i + length c + length (concat m)), 1 + length m, b \<noteq> [])"
        "b \<noteq> [] \<longrightarrow> target \<le> i + length c + length (concat m)"
        "m \<noteq> [] \<longrightarrow> i + length c + length (concat (butlast m)) < target"
        using split_loop_middle[of beginning "i + length c" chs 1 target i q] Cons.prems False
        by auto
      have "usize_sat_add 0 1 = 1" by (simp add: sat_simps int_limits)
      with mb False nt Cons.prems(1) show ?thesis
        by (intro exI[of _ "[]"] exI[of _ "c # m"] exI[of _ b]) (auto simp: add.assoc)
    qed
  qed
qed

text \<open>What \<open>split_string\<close> computes, on a string no longer than an allocation can be.\<close>

lemma split_string_spec:
  assumes "length s \<le> usize_MAX"
  shows "\<exists>a m b. utf8_chars s = a @ m @ b
    \<and> split_string s bb eb = (length m, concat a, concat b)
    \<and> length (concat a) \<le> bb \<and> length (concat b) \<le> eb
    \<and> (m @ b \<noteq> [] \<longrightarrow> bb < length (concat a) + length (hd (m @ b)))
    \<and> (m \<noteq> [] \<longrightarrow> eb < length (last m) + length (concat b))"
proof (cases "s = []")
  case True
  then show ?thesis by (intro exI[of _ "[]"]) (simp add: split_string_def)
next
  case False
  have ne: "[] \<notin> set (utf8_chars s)" using utf8_chars_nonempty by blast
  have short: "length (utf8_chars s) \<le> usize_MAX"
    using assms length_utf8_chars_le[of s] by linarith
  obtain a m b where amb: "utf8_chars s = a @ m @ b"
    "split_loop bb (length s - eb) (char_indices s) (0, length s, 0, False)
      = (length (concat a), (if b = [] then length s else length (concat (a @ m))), length m, b \<noteq> [])"
    "length (concat a) \<le> bb"
    "m @ b \<noteq> [] \<longrightarrow> bb < length (concat a) + length (hd (m @ b))"
    "b \<noteq> [] \<longrightarrow> length s - eb \<le> length (concat (a @ m))"
    "m \<noteq> [] \<longrightarrow> length (concat (a @ butlast m)) < length s - eb"
    using split_loop_prefix[OF le0 ne short, of bb "length s - eb" "length s"]
    unfolding char_indices_def add_0 by blast
  have s: "s = concat a @ concat m @ concat b" using amb(1) by (metis concat_append concat_utf8_chars)
  have start: "(if b = [] then length s else length (concat (a @ m))) = length (concat (a @ m))"
    using arg_cong[OF s, of length] by simp
  have "split_string s bb eb = (length m, take (length (concat a)) s, drop (length (concat (a @ m))) s)"
    using False unfolding split_string_def amb(2)[unfolded start] usize_sat_sub_def
    by (simp add: Let_def amb(2)[unfolded start])
  also have "\<dots> = (length m, concat a, concat b)"
    by (subst (1 2) s) simp
  finally have eq: "split_string s bb eb = (length m, concat a, concat b)" .
  have tail: "length (concat b) \<le> eb"
  proof (cases "b = []")
    case False
    with amb(5) have "length s - eb \<le> length (concat (a @ m))" by simp
    moreover have "length s = length (concat (a @ m)) + length (concat b)" by (subst s) simp
    ultimately show ?thesis by linarith
  qed simp
  have "eb < length (last m) + length (concat b)" if "m \<noteq> []"
  proof -
    have "m = butlast m @ [last m]" using that by simp
    then have "length (concat m) = length (concat (butlast m)) + length (last m)"
      by (metis append.right_neutral concat.simps concat_append length_append)
    moreover have "length s = length (concat a) + length (concat m) + length (concat b)"
      by (subst s) simp
    moreover have "length (concat (a @ butlast m)) < length s - eb" using amb(6) that by simp
    ultimately show ?thesis by simp
  qed
  with amb(1,3,4) eq tail show ?thesis by blast
qed

text \<open>The marker's length is bounded: its count fits a \<open>u64\<close>, so it has at most 20 digits.\<close>

definition MARKER_MAX :: nat where "MARKER_MAX = 43"

lemma removed_units_bound:
  assumes "rb \<le> usize_MAX" "rc \<le> usize_MAX"
  shows "removed_units ut rb rc < 10 ^ 20"
proof -
  have "min (rb + (4 - 1)) u64_MAX div 4 \<le> u64_MAX" by (meson div_le_dividend le_trans min.cobounded2)
  then show ?thesis using assms
    by (simp add: removed_units_def approx_tokens_from_byte_count_def APPROX_BYTES_PER_TOKEN_def int_limits)
qed

lemma length_marker:
  assumes "n < 10 ^ 20"
  shows "length (format_truncation_marker ut n) \<le> MARKER_MAX"
proof -
  have "length (nat_to_string n) \<le> 20" using length_nat_to_string[of n 19] assms by simp
  then show ?thesis by (simp add: format_truncation_marker_def MARKER_MAX_def ellipsis_def)
qed

lemma truncate_within_budget:
  "s \<noteq> [] \<Longrightarrow> 0 < max_bytes \<Longrightarrow> length s \<le> max_bytes
    \<Longrightarrow> truncate_with_byte_estimate s max_bytes ut = s"
  by (simp add: truncate_with_byte_estimate_def)

lemma truncate_over_budget:
  assumes "0 < max_bytes" "max_bytes < length s" "length s \<le> usize_MAX"
  shows "\<exists>a m b. utf8_chars s = a @ m @ b \<and> m \<noteq> []
    \<and> truncate_with_byte_estimate s max_bytes ut
        = concat a @ format_truncation_marker ut (removed_units ut (length s - max_bytes) (length m))
            @ concat b
    \<and> length (concat a) \<le> max_bytes div 2
    \<and> length (concat b) \<le> max_bytes - max_bytes div 2
    \<and> max_bytes div 2 < length (concat a) + length (hd m)
    \<and> max_bytes - max_bytes div 2 < length (last m) + length (concat b)"
proof -
  let ?l = "max_bytes div 2" and ?r = "max_bytes - max_bytes div 2"
  obtain a m b where amb: "utf8_chars s = a @ m @ b"
    "split_string s ?l ?r = (length m, concat a, concat b)"
    "length (concat a) \<le> ?l" "length (concat b) \<le> ?r"
    "m @ b \<noteq> [] \<longrightarrow> ?l < length (concat a) + length (hd (m @ b))"
    "m \<noteq> [] \<longrightarrow> ?r < length (last m) + length (concat b)"
    using split_string_spec[OF assms(3), of ?l ?r] by blast
  have "length s = length (concat a) + length (concat m) + length (concat b)"
    using amb(1) by (metis add.assoc concat_append concat_utf8_chars length_append)
  with amb(3,4) assms(2) have "m \<noteq> []" by auto
  moreover from this amb(5) have "?l < length (concat a) + length (hd m)" by simp
  moreover have "truncate_with_byte_estimate s max_bytes ut
      = concat a @ format_truncation_marker ut (removed_units ut (length s - max_bytes) (length m))
          @ concat b"
    using assms amb(2)
    by (auto simp: truncate_with_byte_estimate_def split_budget_def assemble_truncated_output_def
        Let_def sat_simps)
  ultimately show ?thesis using amb by blast
qed

lemma truncate_length:
  assumes "0 < max_bytes" "max_bytes < length s" "length s \<le> usize_MAX"
  shows "length (truncate_with_byte_estimate s max_bytes ut) \<le> max_bytes + MARKER_MAX"
proof -
  obtain a m b where amb: "utf8_chars s = a @ m @ b"
    "truncate_with_byte_estimate s max_bytes ut
      = concat a @ format_truncation_marker ut (removed_units ut (length s - max_bytes) (length m))
          @ concat b"
    "length (concat a) \<le> max_bytes div 2" "length (concat b) \<le> max_bytes - max_bytes div 2"
    using truncate_over_budget[OF assms, of ut] by blast
  have "length m \<le> usize_MAX" using amb(1) length_utf8_chars_le[of s] assms(3) by simp
  then have "length (format_truncation_marker ut (removed_units ut (length s - max_bytes) (length m)))
      \<le> MARKER_MAX"
    using assms(3) by (intro length_marker removed_units_bound) auto
  moreover have "max_bytes div 2 \<le> max_bytes" by simp
  ultimately show ?thesis using amb(2,3,4) by simp
qed

section \<open>The prefix on a character boundary\<close>

lemma last_ok_loop_spec:
  assumes "i \<le> maxb" "[] \<notin> set chs"
  shows "\<exists>a r. chs = a @ r \<and> last_ok_loop maxb (char_indices_from i chs) i = i + length (concat a)
    \<and> i + length (concat a) \<le> maxb \<and> (r \<noteq> [] \<longrightarrow> maxb < i + length (concat a) + length (hd r))"
  using assms
proof (induction chs arbitrary: i)
  case Nil
  then show ?case by simp
next
  case (Cons c chs)
  show ?case
  proof (cases "maxb < i + length c")
    case True
    with Cons.prems show ?thesis by (intro exI[of _ "[]"] exI[of _ "c # chs"]) simp
  next
    case False
    with Cons.IH[of "i + length c"] Cons.prems obtain a r where "chs = a @ r"
      "last_ok_loop maxb (char_indices_from (i + length c) chs) (i + length c)
         = i + length c + length (concat a)"
      "i + length c + length (concat a) \<le> maxb"
      "r \<noteq> [] \<longrightarrow> maxb < i + length c + length (concat a) + length (hd r)" by auto
    with False show ?thesis by (intro exI[of _ "c # a"] exI[of _ r]) (simp add: add.assoc)
  qed
qed

lemma take_bytes_at_char_boundary_spec:
  "\<exists>a r. utf8_chars s = a @ r \<and> take_bytes_at_char_boundary s maxb = concat a
    \<and> length (concat a) \<le> maxb \<and> (r \<noteq> [] \<longrightarrow> maxb < length (concat a) + length (hd r))"
proof (cases "length s \<le> maxb")
  case True
  then show ?thesis
    by (intro exI[of _ "utf8_chars s"] exI[of _ "[]"]) (simp add: take_bytes_at_char_boundary_def)
next
  case False
  have "[] \<notin> set (utf8_chars s)" using utf8_chars_nonempty by blast
  from last_ok_loop_spec[OF le0 this] obtain a r where ar: "utf8_chars s = a @ r"
    "last_ok_loop maxb (char_indices s) 0 = length (concat a)" "length (concat a) \<le> maxb"
    "r \<noteq> [] \<longrightarrow> maxb < length (concat a) + length (hd r)"
    unfolding char_indices_def add_0 by blast
  have "s = concat a @ concat r" using ar(1) by (metis concat_append concat_utf8_chars)
  then have "take (length (concat a)) s = concat a" by (metis append_eq_conv_conj)
  with False ar show ?thesis by (auto simp: take_bytes_at_char_boundary_def)
qed

section \<open>Properties\<close>

text \<open>
  C25: truncating in the middle. A string over the budget becomes a prefix and a suffix of its
  characters around a marker that names exactly how many characters were dropped; the kept
  prefix takes at most half of the budget and the suffix at most the other half, no character
  is cut in two, and neither side could take one character more.
\<close>

theorem truncate_middle_chars_spec:
  assumes "0 < max_bytes" "max_bytes < length s" "length s \<le> usize_MAX"
  shows "\<exists>a m b. utf8_chars s = a @ m @ b \<and> m \<noteq> []
    \<and> truncate_middle_chars s max_bytes
        = concat a @ ellipsis @ nat_to_string (length m) @ '' chars truncated'' @ ellipsis @ concat b
    \<and> length (concat a) \<le> max_bytes div 2 \<and> length (concat b) \<le> max_bytes - max_bytes div 2
    \<and> max_bytes div 2 < length (concat a) + length (hd m)
    \<and> max_bytes - max_bytes div 2 < length (last m) + length (concat b)"
  using truncate_over_budget[OF assms, of False]
  by (simp add: truncate_middle_chars_def format_truncation_marker_def removed_units_def)

theorem truncate_middle_chars_spec_witness:
  "\<exists>a m b. utf8_chars ''abcdefgh'' = a @ m @ b \<and> m \<noteq> []
    \<and> truncate_middle_chars ''abcdefgh'' 4
        = concat a @ ellipsis @ nat_to_string (length m) @ '' chars truncated'' @ ellipsis @ concat b"
proof -
  have "0 < (4::nat)" "4 < length ''abcdefgh''" "length ''abcdefgh'' \<le> usize_MAX"
    by (simp_all add: int_limits)
  from truncate_middle_chars_spec[OF this] show ?thesis by blast
qed

text \<open>
  C26: \<open>take_bytes_at_char_boundary\<close> returns the longest prefix made of whole characters that
  fits the byte limit.
\<close>

theorem take_bytes_longest_prefix:
  "\<exists>a r. utf8_chars s = a @ r \<and> take_bytes_at_char_boundary s maxb = concat a
    \<and> length (concat a) \<le> maxb
    \<and> (r = [] \<or> maxb < length (concat a) + length (hd r))"
  using take_bytes_at_char_boundary_spec[of s maxb] by blast

end
