(* ===== verification/Context_Fragments.thy ===== *)
theory Context_Fragments
  imports Protocol_Events Text_Truncation
begin

text \<open>
  Messages the agent itself adds to a conversation, from \<open>codex-rs/core/src/context\<close>: the
  trait \<open>ContextualUserFragment\<close> with its rendering and recognition (\<open>fragment.rs\<close>), the
  additional-context fragments (\<open>fragments.rs\<close>), the turn-aborted note (\<open>turn_aborted.rs\<close>),
  the environment context (\<open>environment_context.rs\<close>), the developer instructions
  (\<open>model_switch_instructions.rs\<close>, \<open>image_generation_instructions.rs\<close>), and the registry that
  tells such messages from what the user typed (\<open>contextual_user_message.rs\<close>).

  The trait's contract is the locale \<open>contextual_user_fragment\<close>: what a fragment renders is
  recognised as one. It is interpreted for the three registered fragments.
\<close>

section \<open>The trait\<close>

type_synonym markers = "string \<times> string"

definition render_marked :: "markers \<Rightarrow> string \<Rightarrow> string" where
  "render_marked ms body =
     (if fst ms = [] \<and> snd ms = [] then body else fst ms @ body @ snd ms)"

definition fragment_into :: "string \<Rightarrow> string \<Rightarrow> ResponseItem" where
  "fragment_into role rendered = Message None role [InputText rendered] None"

definition fragment_into_response_input_item :: "string \<Rightarrow> string \<Rightarrow> ResponseInputItem" where
  "fragment_into_response_input_item role rendered = In_Message role [InputText rendered] None"

definition matches_marked_text :: "string \<Rightarrow> string \<Rightarrow> string \<Rightarrow> bool" where
  "matches_marked_text start_marker end_marker txt =
     (if start_marker = [] \<or> end_marker = [] then False
      else
        let trimmed = trim_start txt;
            starts_with_marker =
              (case get_to trimmed (length start_marker) of
                 None \<Rightarrow> False | Some candidate \<Rightarrow> eq_ignore_ascii_case candidate start_marker);
            trimmed2 = trim_end trimmed;
            ends_with_marker =
              (case get_from trimmed2 (usize_sat_sub (length trimmed2) (length end_marker)) of
                 None \<Rightarrow> False | Some candidate \<Rightarrow> eq_ignore_ascii_case candidate end_marker)
        in starts_with_marker \<and> ends_with_marker)"

section \<open>Additional context\<close>

definition MAX_ADDITIONAL_CONTEXT_VALUE_TOKENS :: usize where
  "MAX_ADDITIONAL_CONTEXT_VALUE_TOKENS = 1000"

definition ADDITIONAL_CONTEXT_END_MARKER_SUFFIX :: string where
  "ADDITIONAL_CONTEXT_END_MARKER_SUFFIX = ''>''"

definition ADDITIONAL_CONTEXT_START_MARKER_PREFIX :: string where
  "ADDITIONAL_CONTEXT_START_MARKER_PREFIX = ''<external_''"

record AdditionalContextFragment =
  acf_key :: string
  acf_value :: string

definition additional_context_markers :: markers where
  "additional_context_markers =
     (ADDITIONAL_CONTEXT_START_MARKER_PREFIX, ADDITIONAL_CONTEXT_END_MARKER_SUFFIX)"

definition additional_context_body :: "string \<Rightarrow> string \<Rightarrow> string" where
  "additional_context_body key val =
     (let v = fst (truncate_middle_with_token_budget val MAX_ADDITIONAL_CONTEXT_VALUE_TOKENS)
      in key @ ''>'' @ v @ ''</external_'' @ key)"

definition additional_context_developer_body :: "string \<Rightarrow> string \<Rightarrow> string" where
  "additional_context_developer_body key val =
     (let v = fst (truncate_middle_with_token_budget val MAX_ADDITIONAL_CONTEXT_VALUE_TOKENS)
      in ''<'' @ key @ ''>'' @ v @ ''</'' @ key @ ''>'')"

definition additional_context_matches_text :: "string \<Rightarrow> bool" where
  "additional_context_matches_text txt =
     (case strip_prefix (trim txt) ADDITIONAL_CONTEXT_START_MARKER_PREFIX of
        None \<Rightarrow> False
      | Some rest \<Rightarrow>
          (case split_once rest ADDITIONAL_CONTEXT_END_MARKER_SUFFIX of
             None \<Rightarrow> False
           | Some (key, value_and_close) \<Rightarrow>
               ends_with value_and_close (''</external_'' @ key @ ''>'')))"

definition render_additional_user :: "AdditionalContextFragment \<Rightarrow> string" where
  "render_additional_user f =
     render_marked additional_context_markers (additional_context_body (acf_key f) (acf_value f))"

definition render_additional_developer :: "AdditionalContextFragment \<Rightarrow> string" where
  "render_additional_developer f =
     render_marked ([], []) (additional_context_developer_body (acf_key f) (acf_value f))"

section \<open>The other fragments\<close>

definition INTERRUPTED_GUIDANCE :: string where
  "INTERRUPTED_GUIDANCE = ''The user interrupted the previous turn on purpose. Any running unified exec processes may still be running in the background. If any tools/commands were aborted, they may have partially executed.''"

definition turn_aborted_markers :: markers where
  "turn_aborted_markers = (''<turn_aborted>'', ''</turn_aborted>'')"

definition turn_aborted_body :: "string \<Rightarrow> string" where
  "turn_aborted_body guidance = [CHR 0x0A] @ guidance @ [CHR 0x0A]"

definition render_turn_aborted :: "string \<Rightarrow> string" where
  "render_turn_aborted guidance = render_marked turn_aborted_markers (turn_aborted_body guidance)"

definition render_model_switch :: "string \<Rightarrow> string" where
  "render_model_switch model_instructions =
     render_marked (''<model_switch>'', ''</model_switch>'')
       ([CHR 0x0A] @ ''The user was previously using a different model. Please continue the conversation according to the following instructions:''
        @ [CHR 0x0A, CHR 0x0A] @ model_instructions @ [CHR 0x0A])"

definition render_image_generation :: "string \<Rightarrow> string \<Rightarrow> string" where
  "render_image_generation image_output_dir image_output_path =
     render_marked ([], [])
       (''Generated images are saved to '' @ image_output_dir @ '' as '' @ image_output_path
        @ '' by default.'' @ [CHR 0x0A]
        @ ''If you need to use a generated image at another path, copy it and leave the original in place unless the user explicitly asks you to delete it.'')"

subsection \<open>Environment context\<close>

record EnvironmentContextEnvironment =
  ece_env_cwd :: path
  ece_env_shell :: string

datatype EnvironmentContextEnvironments =
    Env_None
  | Env_Single EnvironmentContextEnvironment
  | Env_Multiple "EnvironmentContextEnvironment list"

record EnvironmentContext =
  ec_environments :: EnvironmentContextEnvironments
  ec_current_date :: "string option"
  ec_timezone :: "string option"

definition env_from_turn_environments ::
  "(path \<times> string option) list \<Rightarrow> string \<Rightarrow> EnvironmentContextEnvironment list" where
  "env_from_turn_environments environments shell_name =
     map (\<lambda>(cwd, shell). \<lparr>ece_env_cwd = cwd,
            ece_env_shell = (case shell of Some s \<Rightarrow> s | None \<Rightarrow> shell_name)\<rparr>) environments"

definition environments_from_vec :: "EnvironmentContextEnvironment list \<Rightarrow> EnvironmentContextEnvironments" where
  "environments_from_vec es =
     (case rev es of
        [] \<Rightarrow> Env_None
      | e # popped \<Rightarrow> if popped = [] then Env_Single e else Env_Multiple (rev popped @ [e]))"

fun environments_equal_except_shell ::
  "EnvironmentContextEnvironments \<Rightarrow> EnvironmentContextEnvironments \<Rightarrow> bool" where
  "environments_equal_except_shell Env_None Env_None = True"
| "environments_equal_except_shell (Env_Single l) (Env_Single r) = (ece_env_cwd l = ece_env_cwd r)"
| "environments_equal_except_shell (Env_Multiple ls) (Env_Multiple rs) =
     (length ls = length rs \<and> list_all (\<lambda>(l, r). ece_env_cwd l = ece_env_cwd r) (zip ls rs))"
| "environments_equal_except_shell _ _ = False"

definition environment_context_new ::
  "EnvironmentContextEnvironment list \<Rightarrow> string option \<Rightarrow> string option \<Rightarrow> EnvironmentContext" where
  "environment_context_new es current_date timezone =
     \<lparr>ec_environments = environments_from_vec es, ec_current_date = current_date, ec_timezone = timezone\<rparr>"

definition equals_except_shell :: "EnvironmentContext \<Rightarrow> EnvironmentContext \<Rightarrow> bool" where
  "equals_except_shell a b \<longleftrightarrow>
     environments_equal_except_shell (ec_environments a) (ec_environments b)
     \<and> ec_current_date a = ec_current_date b \<and> ec_timezone a = ec_timezone b"

definition diff_from_turn_context_item :: "TurnContextItem \<Rightarrow> EnvironmentContext \<Rightarrow> EnvironmentContext" where
  "diff_from_turn_context_item before after =
     \<lparr>ec_environments =
        (case ec_environments after of
           Env_Single e \<Rightarrow> if tci_cwd before \<noteq> ece_env_cwd e then Env_Single e else Env_None
         | Env_Multiple es \<Rightarrow> Env_Multiple es
         | Env_None \<Rightarrow> Env_None),
      ec_current_date = ec_current_date after, ec_timezone = ec_timezone after\<rparr>"

definition environment_context_markers :: markers where
  "environment_context_markers = (''<environment_context>'', ''</environment_context>'')"

definition environment_context_body :: "EnvironmentContext \<Rightarrow> string" where
  "environment_context_body c =
     (let env_lines =
        (case ec_environments c of
           Env_Single e \<Rightarrow>
             [''  <cwd>'' @ ece_env_cwd e @ ''</cwd>'', ''  <shell>'' @ ece_env_shell e @ ''</shell>'']
         | Env_Multiple es \<Rightarrow>
             [''  <environments>'']
             @ concat (map (\<lambda>e. [''    <environment>'', ''      <cwd>'' @ ece_env_cwd e @ ''</cwd>'',
                                 ''      <shell>'' @ ece_env_shell e @ ''</shell>'', ''    </environment>'']) es)
             @ [''  </environments>'']
         | Env_None \<Rightarrow> []);
        date_lines = (case ec_current_date c of
           Some d \<Rightarrow> [''  <current_date>'' @ d @ ''</current_date>''] | None \<Rightarrow> []);
        tz_lines = (case ec_timezone c of
           Some t \<Rightarrow> [''  <timezone>'' @ t @ ''</timezone>''] | None \<Rightarrow> [])
      in [CHR 0x0A] @ join [CHR 0x0A] (env_lines @ date_lines @ tz_lines) @ [CHR 0x0A])"

definition render_environment_context :: "EnvironmentContext \<Rightarrow> string" where
  "render_environment_context c = render_marked environment_context_markers (environment_context_body c)"

section \<open>The registry\<close>

definition CONTEXTUAL_USER_FRAGMENTS :: "(string \<Rightarrow> bool) list" where
  "CONTEXTUAL_USER_FRAGMENTS =
     [matches_marked_text (fst environment_context_markers) (snd environment_context_markers),
      matches_marked_text (fst turn_aborted_markers) (snd turn_aborted_markers),
      additional_context_matches_text]"

definition is_standard_contextual_user_text :: "string \<Rightarrow> bool" where
  "is_standard_contextual_user_text txt = list_ex (\<lambda>m. m txt) CONTEXTUAL_USER_FRAGMENTS"

fun is_contextual_user_fragment :: "ContentItem \<Rightarrow> bool" where
  "is_contextual_user_fragment (InputText txt) = is_standard_contextual_user_text txt"
| "is_contextual_user_fragment _ = False"

definition is_contextual_user_message_content :: "ContentItem list \<Rightarrow> bool" where
  "is_contextual_user_message_content message = list_ex is_contextual_user_fragment message"

section \<open>The contract of a registered fragment\<close>

locale contextual_user_fragment =
  fixes render :: "'f \<Rightarrow> string"
    and matches_text :: "string \<Rightarrow> bool"
    and ok :: "'f \<Rightarrow> bool"
  assumes registered: "matches_text \<in> set CONTEXTUAL_USER_FRAGMENTS"
    and recognised: "ok f \<Longrightarrow> matches_text (render f)"
begin

lemma rendered_is_contextual: "ok f \<Longrightarrow> is_contextual_user_fragment (InputText (render f))"
  using registered recognised by (auto simp: is_standard_contextual_user_text_def list_ex_iff)

lemma message_is_contextual:
  "ok f \<Longrightarrow> InputText (render f) \<in> set content \<Longrightarrow> is_contextual_user_message_content content"
  using rendered_is_contextual unfolding is_contextual_user_message_content_def list_ex_iff by blast

end

lemma matches_marked_text_render:
  assumes "c1 # d # ss = start" "c2 # es = close" "close = ts @ [c3]" "body \<noteq> []"
    and "\<not> is_whitespace [c1]" "\<not> is_cont d" "\<not> is_whitespace [c3]" "\<not> is_cont c3"
    and "\<not> is_cont (hd body)" "\<not> is_cont c2"
  shows "matches_marked_text start close (start @ body @ close)"
proof -
  let ?t = "start @ body @ close"
  have ts: "trim_start ?t = ?t"
    using trim_start_non_ws[of c1 d "ss @ body @ close"] assms(1,5,6) by auto
  have te: "trim_end ?t = ?t"
    using trim_end_non_ws[of c3 "start @ body @ ts"] assms(3,7,8) by simp
  have "is_char_boundary ?t (length start)"
    using assms(4,9) by (simp add: is_char_boundary_def nth_append hd_conv_nth)
  then have a: "get_to ?t (length start) = Some start" by (simp add: get_to_def)
  have len: "length ?t - length close = length start + length body" by simp
  have "is_char_boundary ?t (length start + length body)"
    using assms(2,10) by (auto simp: is_char_boundary_def nth_append)
  then have b: "get_from ?t (length ?t - length close) = Some close"
    unfolding len by (simp add: get_from_def)
  show ?thesis
    using a b assms(1,2)
    unfolding matches_marked_text_def ts te Let_def usize_sat_sub_def
    by (auto simp: eq_ignore_ascii_case_def)
qed

lemma ascii_not_ws [simp]: "\<not> is_whitespace ''<''" "\<not> is_whitespace ''>''"
  "\<not> is_cont (CHR ''<'')" "\<not> is_cont (CHR ''>'')" "\<not> is_cont (CHR 0x0A)"
  "\<not> is_cont (CHR ''e'')" "\<not> is_cont (CHR ''t'')"
  by (simp_all add: is_whitespace_def is_cont_def byte_of_def)

lemma render_additional_user_shape:
  obtains v where
    "render_additional_user f = ''<external_'' @ acf_key f @ CHR ''>'' # v @ ''</external_'' @ acf_key f @ ''>''"
    and "trim (render_additional_user f) = render_additional_user f"
proof -
  define v where "v = fst (truncate_middle_with_token_budget (acf_value f) MAX_ADDITIONAL_CONTEXT_VALUE_TOKENS)"
  let ?t = "''<external_'' @ acf_key f @ CHR ''>'' # v @ ''</external_'' @ acf_key f @ ''>''"
  have r: "render_additional_user f = ?t"
    by (simp add: render_additional_user_def render_marked_def additional_context_markers_def
        additional_context_body_def ADDITIONAL_CONTEXT_START_MARKER_PREFIX_def
        ADDITIONAL_CONTEXT_END_MARKER_SUFFIX_def v_def Let_def)
  have "trim_start ?t = ?t"
    using trim_start_non_ws[of "CHR ''<''" "CHR ''e''"] by simp
  moreover have "trim_end ?t = ?t"
    using trim_end_non_ws[of "CHR ''>''" "''<external_'' @ acf_key f @ CHR ''>'' # v @ ''</external_'' @ acf_key f"]
    by simp
  ultimately have "trim (render_additional_user f) = render_additional_user f"
    by (simp only: trim_def r)
  with r that show thesis by blast
qed

lemma additional_context_matches_split:
  assumes "trim t = t" "t = ''<external_'' @ p @ CHR ''>'' # rest" "CHR ''>'' \<notin> set p"
  shows "additional_context_matches_text t \<longleftrightarrow> ends_with rest (''</external_'' @ p @ ''>'')"
  using assms(1) split_once_single_append[OF assms(3), of rest]
  unfolding additional_context_matches_text_def ADDITIONAL_CONTEXT_START_MARKER_PREFIX_def
    ADDITIONAL_CONTEXT_END_MARKER_SUFFIX_def assms(2)
  by (simp only: strip_prefix_append option.case prod.case)

lemma additional_context_recognised:
  assumes "CHR ''>'' \<notin> set (acf_key f)"
  shows "additional_context_matches_text (render_additional_user f)"
proof -
  obtain v where r: "render_additional_user f
      = ''<external_'' @ acf_key f @ CHR ''>'' # v @ ''</external_'' @ acf_key f @ ''>''"
    and t: "trim (render_additional_user f) = render_additional_user f"
    by (rule render_additional_user_shape)
  show ?thesis
    unfolding additional_context_matches_split[OF t r assms] by (rule ends_with_append)
qed

text \<open>
  The matcher takes the text up to the first \<open>>\<close> for the key. A key that itself contains \<open>>\<close> is
  therefore recognised only if what follows its first \<open>>\<close> happens to end in the closing marker
  of what precedes it.
\<close>

lemma ends_with_after_sep:
  assumes "c \<notin> set q"
  shows "ends_with (xs @ c # r @ [c]) (q @ [c]) \<longleftrightarrow> ends_with r q"
proof
  assume "ends_with (xs @ c # r @ [c]) (q @ [c])"
  then obtain z where z: "xs @ c # r = z @ q" unfolding ends_with_iff by auto
  from z have "(\<exists>us. xs = z @ us \<and> q = us @ c # r) \<or> (\<exists>us. z = xs @ us \<and> c # r = us @ q)"
    by (auto simp: append_eq_append_conv2)
  with assms show "ends_with r q" unfolding ends_with_iff by (auto simp: Cons_eq_append_conv)
next
  assume "ends_with r q"
  then show "ends_with (xs @ c # r @ [c]) (q @ [c])"
    unfolding ends_with_iff by (metis append.assoc append_Cons)
qed

lemma additional_context_matches_key:
  assumes "acf_key f = p @ CHR ''>'' # r" "CHR ''>'' \<notin> set p"
  shows "additional_context_matches_text (render_additional_user f) \<longleftrightarrow> ends_with r (''</external_'' @ p)"
proof -
  obtain v where "render_additional_user f
      = ''<external_'' @ acf_key f @ CHR ''>'' # v @ ''</external_'' @ acf_key f @ ''>''"
    and t: "trim (render_additional_user f) = render_additional_user f"
    by (rule render_additional_user_shape)
  then have r: "render_additional_user f = ''<external_'' @ p @ CHR ''>''
      # ((r @ CHR ''>'' # v @ ''</external_'' @ p) @ CHR ''>'' # r @ [CHR ''>''])"
    by (simp add: assms(1))
  have "CHR ''>'' \<notin> set (''</external_'' @ p)" using assms(2) by simp
  from ends_with_after_sep[OF this, of "r @ CHR ''>'' # v @ ''</external_'' @ p" r] show ?thesis
    unfolding additional_context_matches_split[OF t r assms(2)]
    by (simp only: append.assoc append_Cons)
qed

lemma matches_marked_text_start:
  assumes "matches_marked_text start close t"
  shows "to_ascii_lowercase (take (length start) (trim_start t)) = to_ascii_lowercase start"
  using assms unfolding matches_marked_text_def Let_def get_to_def eq_ignore_ascii_case_def
  by (auto split: if_splits option.splits)

lemma other_matchers_reject:
  assumes "start = ''<environment_context>'' \<or> start = ''<turn_aborted>''"
  shows "\<not> matches_marked_text start close (render_additional_user f)"
proof
  assume "matches_marked_text start close (render_additional_user f)"
  note start = matches_marked_text_start[OF this]
  obtain v where r: "render_additional_user f
      = ''<external_'' @ acf_key f @ CHR ''>'' # v @ ''</external_'' @ acf_key f @ ''>''"
    by (rule render_additional_user_shape)
  have "trim_start (render_additional_user f) = ''<ex'' @ drop 3 (render_additional_user f)"
    using trim_start_non_ws[of "CHR ''<''" "CHR ''e''"] by (simp add: r)
  moreover have "3 \<le> length start" using assms by auto
  ultimately have "map to_ascii_lowercase_byte ''<ex'' = map to_ascii_lowercase_byte (take 3 start)"
    using arg_cong[OF start, of "take 3"] by (simp add: to_ascii_lowercase_def take_map)
  then show False using assms by (auto simp: to_ascii_lowercase_byte_def byte_of_def)
qed

lemma first_split_unique:
  fixes c :: char
  assumes "p @ c # r = p' @ c # r'" "c \<notin> set p" "c \<notin> set p'"
  shows "p = p' \<and> r = r'"
proof -
  have "Some (p, r) = Some (p', r')"
    using split_once_single_append[OF assms(2), of r] split_once_single_append[OF assms(3), of r']
    unfolding assms(1) by (rule trans[OF sym])
  then show ?thesis by simp
qed

lemma additional_context_is_contextual:
  "is_contextual_user_message_content [InputText (render_additional_user f)]
    \<longleftrightarrow> CHR ''>'' \<notin> set (acf_key f)
      \<or> (\<exists>p q. acf_key f = p @ ''>'' @ q @ ''</external_'' @ p \<and> CHR ''>'' \<notin> set p)"
proof -
  have "is_contextual_user_message_content [InputText (render_additional_user f)]
      \<longleftrightarrow> additional_context_matches_text (render_additional_user f)"
    by (simp add: is_contextual_user_message_content_def is_standard_contextual_user_text_def
        CONTEXTUAL_USER_FRAGMENTS_def other_matchers_reject
        environment_context_markers_def turn_aborted_markers_def)
  also have "\<dots> \<longleftrightarrow> CHR ''>'' \<notin> set (acf_key f)
      \<or> (\<exists>p q. acf_key f = p @ ''>'' @ q @ ''</external_'' @ p \<and> CHR ''>'' \<notin> set p)"
  proof (cases "CHR ''>'' \<in> set (acf_key f)")
    case True
    then obtain p r where k: "acf_key f = p @ CHR ''>'' # r" "CHR ''>'' \<notin> set p"
      using split_list_first by metis
    have "(\<exists>p' q. acf_key f = p' @ ''>'' @ q @ ''</external_'' @ p' \<and> CHR ''>'' \<notin> set p')
        \<longleftrightarrow> (\<exists>q. r = q @ ''</external_'' @ p)"
      using k first_split_unique[of p "CHR ''>''" r] by (auto intro: exI[of _ p])
    then show ?thesis
      using True additional_context_matches_key[OF k] by (simp add: ends_with_iff)
  qed (simp add: additional_context_recognised)
  finally show ?thesis .
qed

lemma environment_context_recognised:
  "matches_marked_text (fst environment_context_markers) (snd environment_context_markers)
     (render_environment_context c)"
proof -
  have r: "render_environment_context c = fst environment_context_markers
      @ environment_context_body c @ snd environment_context_markers"
    unfolding render_environment_context_def render_marked_def environment_context_markers_def by simp
  have b: "environment_context_body c \<noteq> []" "hd (environment_context_body c) = CHR 0x0A"
    by (simp_all add: environment_context_body_def Let_def)
  show ?thesis
    unfolding r
    by (rule matches_marked_text_render[of "CHR ''<''" "CHR ''e''" "''nvironment_context>''" _
          "CHR ''<''" "''/environment_context>''" _ "''</environment_context''" "CHR ''>''"])
      (simp_all add: b environment_context_markers_def)
qed

lemma turn_aborted_recognised:
  "matches_marked_text (fst turn_aborted_markers) (snd turn_aborted_markers) (render_turn_aborted g)"
proof -
  have r: "render_turn_aborted g
      = fst turn_aborted_markers @ turn_aborted_body g @ snd turn_aborted_markers"
    unfolding render_turn_aborted_def render_marked_def turn_aborted_markers_def by simp
  have b: "turn_aborted_body g \<noteq> []" "hd (turn_aborted_body g) = CHR 0x0A"
    by (simp_all add: turn_aborted_body_def)
  show ?thesis
    unfolding r
    by (rule matches_marked_text_render[of "CHR ''<''" "CHR ''t''" "''urn_aborted>''" _
          "CHR ''<''" "''/turn_aborted>''" _ "''</turn_aborted''" "CHR ''>''"])
      (simp_all add: b turn_aborted_markers_def)
qed

interpretation env_fragment: contextual_user_fragment render_environment_context
  "matches_marked_text (fst environment_context_markers) (snd environment_context_markers)"
  "\<lambda>_. True"
  by unfold_locales (simp_all add: CONTEXTUAL_USER_FRAGMENTS_def environment_context_recognised)

interpretation aborted_fragment: contextual_user_fragment render_turn_aborted
  "matches_marked_text (fst turn_aborted_markers) (snd turn_aborted_markers)" "\<lambda>_. True"
  by unfold_locales (simp_all add: CONTEXTUAL_USER_FRAGMENTS_def turn_aborted_recognised)

interpretation additional_fragment: contextual_user_fragment render_additional_user
  additional_context_matches_text "\<lambda>f. CHR ''>'' \<notin> set (acf_key f)"
  by unfold_locales (auto simp: CONTEXTUAL_USER_FRAGMENTS_def additional_context_recognised)

end
