(* ===== verification/Event_Mapping.thy ===== *)
theory Event_Mapping
  imports Context_Fragments
begin

text \<open>
  The two directions between what a user submits and what a conversation stores: user input
  becomes message content (\<open>codex-rs/protocol/src/models.rs\<close>), and a stored response item
  becomes a turn item again (\<open>codex-rs/core/src/event_mapping.rs\<close>, \<open>web_search.rs\<close>).

  Reading a file and decoding an image with the \<open>image\<close> crate are parameters: \<open>read_file\<close>
  gives the bytes of a path or the text of the I/O error, \<open>load_image\<close> the data URL of the
  processed image or how processing failed. A fresh UUID is an argument.
\<close>

section \<open>User input as message content\<close>

datatype PromptImageMode = ResizeToFit | PromptOriginal

text \<open>
  How image processing fails, each with the text the error displays; a decode error says
  whether the bytes are no valid image (\<open>is_invalid_image\<close>).
\<close>

datatype ImageProcessingError =
    Image_Read string
  | Image_Encode string
  | Image_Decode bool string
  | Image_UnsupportedFormat string

definition local_image_error_placeholder :: "path \<Rightarrow> string \<Rightarrow> ContentItem" where
  "local_image_error_placeholder p err =
     InputText (''Codex could not read the local image at `'' @ p @ ''`: '' @ err)"

definition invalid_image_error_placeholder :: "path \<Rightarrow> string \<Rightarrow> ContentItem" where
  "invalid_image_error_placeholder p err =
     InputText (''Image located at `'' @ p @ ''` is invalid: '' @ err)"

definition unsupported_image_error_placeholder :: "path \<Rightarrow> string \<Rightarrow> ContentItem" where
  "unsupported_image_error_placeholder p mime =
     InputText (''Codex cannot attach image at `'' @ p @ ''`: unsupported image `'' @ mime @ ''`.'')"

type_synonym image_loader = "path \<Rightarrow> string \<Rightarrow> PromptImageMode \<Rightarrow> ImageProcessingError + string"

definition local_image_content_items_with_label_number ::
  "image_loader \<Rightarrow> path \<Rightarrow> string \<Rightarrow> usize option \<Rightarrow> ImageDetail \<Rightarrow> ContentItem list" where
  "local_image_content_items_with_label_number load_image p file_bytes label_number detail =
     (let mode = (case detail of Original \<Rightarrow> PromptOriginal | _ \<Rightarrow> ResizeToFit) in
      case load_image p file_bytes mode of
        Inr data_url \<Rightarrow>
          (case label_number of
             Some n \<Rightarrow> [InputText (local_image_open_tag_text n)] | None \<Rightarrow> [])
          @ [InputImage data_url (Some detail)]
          @ (if label_number = None then [] else [InputText IMAGE_CLOSE_TAG])
      | Inl err \<Rightarrow>
          (case err of
             Image_Read e \<Rightarrow> [local_image_error_placeholder p e]
           | Image_Encode e \<Rightarrow> [local_image_error_placeholder p e]
           | Image_Decode invalid e \<Rightarrow>
               (if invalid then [invalid_image_error_placeholder p e]
                else [local_image_error_placeholder p e])
           | Image_UnsupportedFormat mime \<Rightarrow> [unsupported_image_error_placeholder p mime]))"

text \<open>The closure of \<open>flat_map\<close>, with \<open>image_index\<close> threaded through.\<close>

fun user_input_content ::
  "(path \<Rightarrow> string + string) \<Rightarrow> image_loader \<Rightarrow> usize \<Rightarrow> UserInput list \<Rightarrow> ContentItem list" where
  "user_input_content read_file load_image image_index [] = []"
| "user_input_content read_file load_image image_index (UserText t _ # rest) =
     InputText t # user_input_content read_file load_image image_index rest"
| "user_input_content read_file load_image image_index (UserImage url detail # rest) =
     InputImage url (Some (case detail of Some d \<Rightarrow> d | None \<Rightarrow> DEFAULT_IMAGE_DETAIL))
     # user_input_content read_file load_image (image_index + 1) rest"
| "user_input_content read_file load_image image_index (UserLocalImage p detail # rest) =
     (case read_file p of
        Inr file_bytes \<Rightarrow>
          local_image_content_items_with_label_number load_image p file_bytes
            (Some (image_index + 1)) (case detail of Some d \<Rightarrow> d | None \<Rightarrow> DEFAULT_IMAGE_DETAIL)
      | Inl err \<Rightarrow> [local_image_error_placeholder p err])
     @ user_input_content read_file load_image (image_index + 1) rest"

definition response_input_of_user_input ::
  "(path \<Rightarrow> string + string) \<Rightarrow> image_loader \<Rightarrow> UserInput list \<Rightarrow> ResponseInputItem" where
  "response_input_of_user_input read_file load_image items =
     In_Message ''user'' (user_input_content read_file load_image 0 items) None"

section \<open>Web search\<close>

definition search_action_detail :: "string option \<Rightarrow> string list option \<Rightarrow> string" where
  "search_action_detail query queries =
     (case query of
        Some (c # cs) \<Rightarrow> c # cs
      | _ \<Rightarrow>
          (let first = (case queries of Some (q # _) \<Rightarrow> q | _ \<Rightarrow> []) in
           if (case queries of Some qs \<Rightarrow> length qs > 1 | None \<Rightarrow> False) \<and> first \<noteq> []
           then first @ '' ...'' else first))"

fun web_search_action_detail :: "WebSearchAction \<Rightarrow> string" where
  "web_search_action_detail (WebSearch_Search query queries) = search_action_detail query queries"
| "web_search_action_detail (WebSearch_OpenPage url) = (case url of Some u \<Rightarrow> u | None \<Rightarrow> [])"
| "web_search_action_detail (WebSearch_FindInPage url pattern) =
     (case (pattern, url) of
        (Some p, Some u) \<Rightarrow> [CHR 0x27] @ p @ [CHR 0x27] @ '' in '' @ u
      | (Some p, None) \<Rightarrow> [CHR 0x27] @ p @ [CHR 0x27]
      | (None, Some u) \<Rightarrow> u
      | (None, None) \<Rightarrow> [])"
| "web_search_action_detail WebSearch_Other = []"

definition web_search_detail :: "WebSearchAction option \<Rightarrow> string \<Rightarrow> string" where
  "web_search_detail action query =
     (let detail = (case action of Some a \<Rightarrow> web_search_action_detail a | None \<Rightarrow> []) in
      if detail = [] then query else detail)"

section \<open>Turn items from response items\<close>

fun is_image_at :: "ContentItem list \<Rightarrow> usize \<Rightarrow> bool" where
  "is_image_at message i =
     (i < length message \<and> (case message ! i of InputImage _ _ \<Rightarrow> True | _ \<Rightarrow> False))"

text \<open>A tag that wraps an image is not user text.\<close>

definition is_image_wrapper_tag :: "ContentItem list \<Rightarrow> usize \<Rightarrow> string \<Rightarrow> bool" where
  "is_image_wrapper_tag message idx txt \<longleftrightarrow>
     (is_local_image_open_tag_text txt \<or> is_image_open_tag_text txt) \<and> is_image_at message (idx + 1)
     \<or> idx > 0 \<and> (is_local_image_close_tag_text txt \<or> is_image_close_tag_text txt)
         \<and> is_image_at message (idx - 1)"

fun parse_user_content :: "ContentItem list \<Rightarrow> usize \<Rightarrow> ContentItem list \<Rightarrow> UserInput list" where
  "parse_user_content message idx [] = []"
| "parse_user_content message idx (InputText txt # rest) =
     (if is_image_wrapper_tag message idx txt then parse_user_content message (idx + 1) rest
      else UserText txt [] # parse_user_content message (idx + 1) rest)"
| "parse_user_content message idx (InputImage url detail # rest) =
     UserImage url detail # parse_user_content message (idx + 1) rest"
| "parse_user_content message idx (OutputText _ # rest) = parse_user_content message (idx + 1) rest"

definition parse_user_message :: "string \<Rightarrow> ContentItem list \<Rightarrow> UserMessageItem option" where
  "parse_user_message uuid message =
     (if is_contextual_user_message_content message then None
      else Some \<lparr>umi_id = uuid, umi_client_id = None,
                 umi_content = parse_user_content message 0 message\<rparr>)"

fun agent_content :: "ContentItem \<Rightarrow> AgentMessageContent option" where
  "agent_content (InputText t) = Some (AgentText t)"
| "agent_content (OutputText t) = Some (AgentText t)"
| "agent_content (InputImage _ _) = None"

definition parse_agent_message ::
  "string \<Rightarrow> string option \<Rightarrow> ContentItem list \<Rightarrow> MessagePhase option \<Rightarrow> AgentMessageItem" where
  "parse_agent_message uuid mid message phase =
     \<lparr>ami_id = (case mid of Some i \<Rightarrow> i | None \<Rightarrow> uuid),
      ami_content = List.map_filter agent_content message, ami_phase = phase\<rparr>"

fun summary_text_of :: "ReasoningItemReasoningSummary \<Rightarrow> string" where
  "summary_text_of (SummaryText t) = t"

fun reasoning_text_of :: "ReasoningItemContent \<Rightarrow> string" where
  "reasoning_text_of (ReasoningText t) = t"
| "reasoning_text_of (ReasoningPlainText t) = t"

fun parse_turn_item :: "string \<Rightarrow> ResponseItem \<Rightarrow> TurnItem option" where
  "parse_turn_item uuid (Message mid role content phase) =
     (if role = ''user'' then map_option Turn_UserMessage (parse_user_message uuid content)
      else if role = ''assistant''
      then Some (Turn_AgentMessage (parse_agent_message uuid mid content phase))
      else None)"
| "parse_turn_item uuid (Reasoning rid summary content _) =
     Some (Turn_Reasoning \<lparr>ri_id = rid, ri_summary_text = map summary_text_of summary,
       ri_raw_content = map reasoning_text_of (case content of Some c \<Rightarrow> c | None \<Rightarrow> [])\<rparr>)"
| "parse_turn_item uuid (WebSearchCall wid _ action) =
     (let (act, query) = (case action of
            Some a \<Rightarrow> (a, web_search_action_detail a) | None \<Rightarrow> (WebSearch_Other, []))
      in Some (Turn_WebSearch \<lparr>wsi_id = (case wid of Some i \<Rightarrow> i | None \<Rightarrow> []),
           wsi_query = query, wsi_action = act\<rparr>))"
| "parse_turn_item uuid (ImageGenerationCall iid status revised_prompt res) =
     Some (Turn_ImageGeneration \<lparr>igi_id = iid, igi_status = status,
       igi_revised_prompt = revised_prompt, igi_result = res, igi_saved_path = None\<rparr>)"
| "parse_turn_item uuid _ = None"

section \<open>Round trip of user input\<close>

text \<open>
  What a stored input reads back as. The stored message has no place for the text elements of a
  text, so they are lost; an image without a detail is stored with the default one; a local image
  becomes an image with a data URL, or a text that says why it could not be attached.
\<close>

fun stored_input :: "(path \<Rightarrow> string + string) \<Rightarrow> image_loader \<Rightarrow> UserInput \<Rightarrow> UserInput" where
  "stored_input read_file load_image (UserText t _) = UserText t []"
| "stored_input read_file load_image (UserImage url detail) =
     UserImage url (Some (case detail of Some d \<Rightarrow> d | None \<Rightarrow> DEFAULT_IMAGE_DETAIL))"
| "stored_input read_file load_image (UserLocalImage p detail) =
     (let d = (case detail of Some d \<Rightarrow> d | None \<Rightarrow> DEFAULT_IMAGE_DETAIL) in
      case read_file p of
        Inl err \<Rightarrow> UserText (''Codex could not read the local image at `'' @ p @ ''`: '' @ err) []
      | Inr bytes \<Rightarrow>
          (case load_image p bytes (case d of Original \<Rightarrow> PromptOriginal | _ \<Rightarrow> ResizeToFit) of
             Inr url \<Rightarrow> UserImage url (Some d)
           | Inl (Image_Read e) \<Rightarrow>
               UserText (''Codex could not read the local image at `'' @ p @ ''`: '' @ e) []
           | Inl (Image_Encode e) \<Rightarrow>
               UserText (''Codex could not read the local image at `'' @ p @ ''`: '' @ e) []
           | Inl (Image_Decode invalid e) \<Rightarrow>
               (if invalid then UserText (''Image located at `'' @ p @ ''` is invalid: '' @ e) []
                else UserText (''Codex could not read the local image at `'' @ p @ ''`: '' @ e) [])
           | Inl (Image_UnsupportedFormat mime) \<Rightarrow>
               UserText (''Codex cannot attach image at `'' @ p @ ''`: unsupported image `''
                 @ mime @ ''`.'') []))"

text \<open>The inputs for which nothing is lost.\<close>

fun stored_exactly :: "UserInput \<Rightarrow> bool" where
  "stored_exactly (UserText _ elements) = (elements = [])"
| "stored_exactly (UserImage _ detail) = (detail \<noteq> None)"
| "stored_exactly (UserLocalImage _ _) = False"

lemma stored_exactly_id: "stored_exactly x \<Longrightarrow> stored_input read_file load_image x = x"
  by (cases x) auto

definition is_tag_text :: "string \<Rightarrow> bool" where
  "is_tag_text t \<longleftrightarrow> is_local_image_open_tag_text t \<or> is_image_open_tag_text t \<or> is_image_close_tag_text t"

fun plain_input :: "UserInput \<Rightarrow> bool" where
  "plain_input (UserText t _) = (\<not> is_tag_text t)"
| "plain_input _ = True"

lemma plain_text_no_wrapper: "\<not> is_tag_text t \<Longrightarrow> \<not> is_image_wrapper_tag m i t"
  by (auto simp: is_tag_text_def is_image_wrapper_tag_def is_local_image_close_tag_text_def)

lemma placeholder_not_tag:
  "\<not> is_tag_text (CHR ''C'' # t)" "\<not> is_tag_text (CHR ''I'' # t)"
  by (simp_all add: is_tag_text_def is_local_image_open_tag_text_def is_image_open_tag_text_def
      is_image_close_tag_text_def IMAGE_OPEN_TAG_def IMAGE_CLOSE_TAG_def
      LOCAL_IMAGE_OPEN_TAG_PREFIX_def strip_prefix_def starts_with_def)

lemma parse_wrapped_image:
  assumes "m = pre @ InputText (local_image_open_tag_text n) # InputImage u d # InputText IMAGE_CLOSE_TAG # post"
  shows "parse_user_content m (length pre)
      (InputText (local_image_open_tag_text n) # InputImage u d # InputText IMAGE_CLOSE_TAG # post)
    = UserImage u d # parse_user_content m (length pre + 3) post"
proof -
  have "is_image_wrapper_tag m (length pre) (local_image_open_tag_text n)"
    using assms by (simp add: is_image_wrapper_tag_def local_image_open_tag_recognised nth_append)
  moreover have "is_image_wrapper_tag m (length pre + 2) IMAGE_CLOSE_TAG"
    using assms by (simp add: is_image_wrapper_tag_def is_image_close_tag_text_def nth_append)
  ultimately show ?thesis by (simp add: numeral_3_eq_3 numeral_2_eq_2)
qed

lemma parse_user_content_roundtrip:
  assumes "m = pre @ user_input_content rf li n inputs" "list_all plain_input inputs"
  shows "parse_user_content m (length pre) (user_input_content rf li n inputs)
    = map (stored_input rf li) inputs"
  using assms
proof (induction inputs arbitrary: pre n)
  case (Cons x inputs)
  have step: "parse_user_content m (Suc (length pre)) (user_input_content rf li k inputs)
      = map (stored_input rf li) inputs"
    if "m = pre @ c # user_input_content rf li k inputs" for c k
    using Cons.IH[of "pre @ [c]" k] that Cons.prems(2) by simp
  show ?case
  proof (cases x)
    case (UserText t es)
    then show ?thesis using Cons.prems step[of "InputText t" n] by (simp add: plain_text_no_wrapper)
  next
    case (UserImage u d)
    then show ?thesis using Cons.prems(1) step by simp
  next
    case (UserLocalImage p detail)
    define d where "d = (case detail of Some d \<Rightarrow> d | None \<Rightarrow> DEFAULT_IMAGE_DETAIL)"
    have three: "parse_user_content m (length pre + 3) (user_input_content rf li k inputs)
        = map (stored_input rf li) inputs"
      if "m = pre @ c1 # c2 # c3 # user_input_content rf li k inputs" for c1 c2 c3 k
      using Cons.IH[of "pre @ [c1, c2, c3]" k] that Cons.prems(2) by (simp add: numeral_3_eq_3)
    show ?thesis
      using Cons.prems(1) step[of _ "Suc n"] three[of _ _ _ "Suc n"]
        parse_wrapped_image[of m pre "Suc n" _ _ "user_input_content rf li (Suc n) inputs"]
      unfolding UserLocalImage
      by (auto simp: local_image_content_items_with_label_number_def Let_def d_def[symmetric]
          local_image_error_placeholder_def invalid_image_error_placeholder_def
          unsupported_image_error_placeholder_def plain_text_no_wrapper placeholder_not_tag
          split: sum.splits ImageProcessingError.splits)
  qed
qed simp

section \<open>Properties\<close>

text \<open>
  C10: what a user submits is stored and read back. For every list of inputs in which no text
  is itself an image tag, and whose stored message is not taken for a context message, parsing
  the stored message gives one input for each submitted one, in order, and the tags that wrap a
  local image are gone. It reads back as follows: a text with the same text but without its text
  elements, which the message does not store; a remote image with the same URL and its detail,
  \<open>High\<close> if it had none; a local image as an image with the data URL of its processed bytes, or
  as a text with the note that it could not be attached. Hence a list of texts without text
  elements and of remote images with a detail reads back as exactly the submitted list.
\<close>

theorem user_input_roundtrip:
  assumes "list_all plain_input inputs"
    and "\<not> is_contextual_user_message_content (user_input_content read_file load_image 0 inputs)"
  shows "parse_turn_item uuid
      (response_item_of_input (response_input_of_user_input read_file load_image inputs))
    = Some (Turn_UserMessage \<lparr>umi_id = uuid, umi_client_id = None,
        umi_content = map (stored_input read_file load_image) inputs\<rparr>)
    \<and> (list_all stored_exactly inputs \<longrightarrow>
      parse_turn_item uuid
        (response_item_of_input (response_input_of_user_input read_file load_image inputs))
      = Some (Turn_UserMessage \<lparr>umi_id = uuid, umi_client_id = None, umi_content = inputs\<rparr>))"
proof -
  have "parse_turn_item uuid
      (response_item_of_input (response_input_of_user_input read_file load_image inputs))
    = Some (Turn_UserMessage \<lparr>umi_id = uuid, umi_client_id = None,
        umi_content = map (stored_input read_file load_image) inputs\<rparr>)"
    using assms parse_user_content_roundtrip[of _ "[]" read_file load_image 0 inputs]
    by (simp add: response_input_of_user_input_def parse_user_message_def)
  moreover have "map (stored_input read_file load_image) inputs = inputs" if "list_all stored_exactly inputs"
    using that by (simp add: list_all_iff stored_exactly_id map_idI)
  ultimately show ?thesis by simp
qed

theorem user_input_roundtrip_witness:
  "parse_turn_item ''id'' (response_item_of_input
      (response_input_of_user_input (\<lambda>p. Inr ''bytes'') (\<lambda>p b m. Inr ''data:image/png;base64,AA'')
        [UserText ''look'' [], UserLocalImage ''/tmp/a.png'' None]))
    = Some (Turn_UserMessage \<lparr>umi_id = ''id'', umi_client_id = None,
        umi_content = [UserText ''look'' [], UserImage ''data:image/png;base64,AA'' (Some High)]\<rparr>)
   \<and> parse_turn_item ''id'' (response_item_of_input
      (response_input_of_user_input (\<lambda>p. Inr ''bytes'') (\<lambda>p b m. Inr ''data:image/png;base64,AA'')
        [UserText ''look'' [], UserImage ''https://x/a.png'' (Some Low)]))
    = Some (Turn_UserMessage \<lparr>umi_id = ''id'', umi_client_id = None,
        umi_content = [UserText ''look'' [], UserImage ''https://x/a.png'' (Some Low)]\<rparr>)"
proof -
  let ?rf = "\<lambda>p::string. (Inr ''bytes'' :: string + string)"
  let ?li = "\<lambda>(p::string) (b::string) (m::PromptImageMode).
     (Inr ''data:image/png;base64,AA'' :: ImageProcessingError + string)"
  let ?in = "[UserText ''look'' [], UserLocalImage ''/tmp/a.png'' None]"
  let ?in2 = "[UserText ''look'' [], UserImage ''https://x/a.png'' (Some Low)]"
  have "list_all plain_input ?in" "list_all plain_input ?in2" by code_simp+
  moreover have "\<not> is_contextual_user_message_content (user_input_content ?rf ?li 0 ?in)"
    "\<not> is_contextual_user_message_content (user_input_content ?rf ?li 0 ?in2)" by code_simp+
  ultimately show ?thesis
    using user_input_roundtrip[of ?in ?rf ?li "''id''"] user_input_roundtrip[of ?in2 ?rf ?li "''id''"]
    by (simp add: DEFAULT_IMAGE_DETAIL_def)
qed

text \<open>
  C18: messages the agent adds are never mistaken for user turns. The environment context, the
  turn-aborted note and an additional-context entry whose key has no \<open>>\<close>, once rendered, make
  every user message that contains them contextual, and such a message gives no turn item.
\<close>

theorem contextual_fragments_are_not_user_messages:
  assumes "InputText t \<in> set content"
    and "t = render_environment_context env \<or> t = render_turn_aborted guidance
      \<or> (CHR ''>'' \<notin> set (acf_key f) \<and> t = render_additional_user f)"
  shows "is_contextual_user_message_content content
    \<and> parse_turn_item uuid (Message mid ''user'' content phase) = None"
proof -
  have "is_contextual_user_message_content content"
    using assms env_fragment.message_is_contextual aborted_fragment.message_is_contextual
      additional_fragment.message_is_contextual by blast
  then show ?thesis by (simp add: parse_user_message_def)
qed

theorem contextual_fragments_are_not_user_messages_witness:
  "parse_turn_item ''id'' (Message None ''user'' [InputText (render_turn_aborted INTERRUPTED_GUIDANCE)] None)
     = None"
  using contextual_fragments_are_not_user_messages[of "render_turn_aborted INTERRUPTED_GUIDANCE"
      "[InputText (render_turn_aborted INTERRUPTED_GUIDANCE)]" undefined INTERRUPTED_GUIDANCE] by simp

lemma render_additional_not_tag: "\<not> is_tag_text (render_additional_user f)"
proof -
  obtain v where r: "render_additional_user f
      = ''<external_'' @ acf_key f @ CHR ''>'' # v @ ''</external_'' @ acf_key f @ ''>''"
    by (rule render_additional_user_shape)
  show ?thesis
    by (simp add: r is_tag_text_def is_local_image_open_tag_text_def is_image_open_tag_text_def
        is_image_close_tag_text_def IMAGE_OPEN_TAG_def IMAGE_CLOSE_TAG_def
        LOCAL_IMAGE_OPEN_TAG_PREFIX_def strip_prefix_def starts_with_def)
qed

text \<open>
  C19: exactly which additional-context entries are recognised when the conversation is read
  back. The matcher takes the text up to the first \<open>>\<close> for the key, so the message of an entry is
  context (it gives no turn item) if and only if the key has no \<open>>\<close>, or the key is \<open>p>q</external_p\<close>
  for some \<open>q\<close> and some \<open>p\<close> without \<open>>\<close>. The message of every other entry, for any value, reads
  back as a message the user typed, whose text is the whole rendered fragment.
\<close>

theorem additional_context_key_gap:
  "parse_turn_item uuid (fragment_into ''user'' (render_additional_user f)) =
     (if CHR ''>'' \<notin> set (acf_key f)
         \<or> (\<exists>p q. acf_key f = p @ ''>'' @ q @ ''</external_'' @ p \<and> CHR ''>'' \<notin> set p)
      then None
      else Some (Turn_UserMessage \<lparr>umi_id = uuid, umi_client_id = None,
        umi_content = [UserText (render_additional_user f) []]\<rparr>))"
  unfolding additional_context_is_contextual[symmetric]
  by (simp add: fragment_into_def parse_user_message_def plain_text_no_wrapper render_additional_not_tag)

theorem additional_context_key_gap_witness:
  "parse_turn_item ''id'' (fragment_into ''user'' (render_additional_user \<lparr>acf_key = ''a>b'', acf_value = ''v''\<rparr>))
     = Some (Turn_UserMessage \<lparr>umi_id = ''id'', umi_client_id = None,
         umi_content = [UserText (render_additional_user \<lparr>acf_key = ''a>b'', acf_value = ''v''\<rparr>) []]\<rparr>)
   \<and> parse_turn_item ''id'' (fragment_into ''user'' (render_additional_user \<lparr>acf_key = ''a></external_a'', acf_value = ''v''\<rparr>))
     = None"
proof -
  have "\<nexists>p q. ''a>b'' = p @ ''>'' @ q @ ''</external_'' @ p"
    by (auto dest!: arg_cong[where f = length])
  moreover have "\<exists>p q. ''a></external_a'' = p @ ''>'' @ q @ ''</external_'' @ p \<and> CHR ''>'' \<notin> set p"
    by (rule exI[of _ "''a''"], rule exI[of _ "[]"]) simp
  ultimately show ?thesis
    unfolding additional_context_key_gap[of "''id''"] AdditionalContextFragment.select_convs by auto
qed

end
