(* ===== verification/Output_Truncation.thy ===== *)
theory Output_Truncation
  imports Text_Truncation Protocol_Events
begin

text \<open>
  Budgets for tool output, from \<open>TruncationPolicy\<close> in \<open>codex-rs/protocol/src/protocol.rs\<close>
  and from \<open>codex-rs/utils/output-truncation/src/lib.rs\<close>. A policy counts bytes or
  estimated tokens. The locale \<open>text_budget\<close> states what a cost measure and its snippet
  function promise each other; the loop over output items is analysed once inside it and
  interpreted for both kinds of policy.
\<close>

section \<open>Truncation policies\<close>

datatype TruncationPolicy = Bytes usize | Tokens usize

datatype TruncationMode = Mode_Bytes | Mode_Tokens

record TruncationPolicyConfig =
  tpc_mode :: TruncationMode
  tpc_limit :: i64

text \<open>\<open>config.limit as usize\<close> reinterprets a negative limit modulo \<open>2^64\<close>.\<close>

definition policy_of_config :: "TruncationPolicyConfig \<Rightarrow> TruncationPolicy" where
  "policy_of_config c =
     (let limit = nat (tpc_limit c mod 2 ^ 64) in
      case tpc_mode c of Mode_Bytes \<Rightarrow> Bytes limit | Mode_Tokens \<Rightarrow> Tokens limit)"

fun token_budget :: "TruncationPolicy \<Rightarrow> usize" where
  "token_budget (Bytes bytes) = approx_tokens_from_byte_count bytes"
| "token_budget (Tokens tokens) = tokens"

fun byte_budget :: "TruncationPolicy \<Rightarrow> usize" where
  "byte_budget (Bytes bytes) = bytes"
| "byte_budget (Tokens tokens) = approx_bytes_for_tokens tokens"

subsection \<open>Scaling by a floating-point factor\<close>

text \<open>
  \<open>(n as f64 * multiplier).ceil() as usize\<close> in IEEE double precision. A positive double is
  \<open>m / 2^k\<close> with a 53-bit significand; rounding a number of the form \<open>n / 2^k\<close> to nearest,
  ties to even, rounds \<open>n\<close> to 53 significant bits. The cast from \<open>usize\<close> rounds once, the
  product rounds once, \<open>ceil\<close> is exact and the cast back saturates.
\<close>

fun bit_length :: "nat \<Rightarrow> nat" where
  "bit_length n = (if n = 0 then 0 else Suc (bit_length (n div 2)))"

declare bit_length.simps [simp del]

definition round_f64 :: "nat \<Rightarrow> nat" where
  "round_f64 n =
     (let b = bit_length n in
      if b \<le> 53 then n
      else
        let sh = b - 53; q = n div 2 ^ sh; r = n mod 2 ^ sh; half = 2 ^ (sh - 1) in
        (if r > half \<or> (r = half \<and> odd q) then q + 1 else q) * 2 ^ sh)"

type_synonym f64_pos = "nat \<times> nat" \<comment> \<open>significand and binary exponent of \<open>m / 2^k\<close>\<close>

definition f64_scale_ceil :: "usize \<Rightarrow> f64_pos \<Rightarrow> usize" where
  "f64_scale_ceil n mk =
     (let (m, k) = mk; p = round_f64 (round_f64 n * m) in
      min ((p + (2 ^ k - 1)) div 2 ^ k) usize_MAX)"

text \<open>The literal \<open>1.2\<close> as a double.\<close>

definition f64_1_2 :: f64_pos where
  "f64_1_2 = (5404319552844595, 52)"

fun policy_mul :: "TruncationPolicy \<Rightarrow> f64_pos \<Rightarrow> TruncationPolicy" where
  "policy_mul (Bytes bytes) x = Bytes (f64_scale_ceil bytes x)"
| "policy_mul (Tokens tokens) x = Tokens (f64_scale_ceil tokens x)"

section \<open>Text\<close>

definition truncate_text :: "string \<Rightarrow> TruncationPolicy \<Rightarrow> string" where
  "truncate_text content policy =
     (case policy of
        Bytes bytes \<Rightarrow> truncate_middle_chars content bytes
      | Tokens tokens \<Rightarrow> fst (truncate_middle_with_token_budget content tokens))"

definition formatted_truncate_text :: "string \<Rightarrow> TruncationPolicy \<Rightarrow> string" where
  "formatted_truncate_text content policy =
     (if length content \<le> byte_budget policy then content
      else ''Total output lines: '' @ nat_to_string (line_count content) @ [CHR 0x0A, CHR 0x0A]
             @ truncate_text content policy)"

section \<open>Content items\<close>

fun text_segment :: "FunctionCallOutputContentItem \<Rightarrow> string option" where
  "text_segment (Out_InputText t) = Some t"
| "text_segment (Out_InputImage _ _) = None"
| "text_segment (Out_EncryptedContent _) = None"

definition is_text_item :: "FunctionCallOutputContentItem \<Rightarrow> bool" where
  "is_text_item i \<longleftrightarrow> text_segment i \<noteq> None"

fun combine_segments :: "string \<Rightarrow> string list \<Rightarrow> string" where
  "combine_segments combined [] = combined"
| "combine_segments combined (t # ts) =
     combine_segments ((if combined = [] then combined else combined @ [CHR 0x0A]) @ t) ts"

definition formatted_truncate_text_content_items_with_policy ::
  "FunctionCallOutputContentItem list \<Rightarrow> TruncationPolicy
   \<Rightarrow> FunctionCallOutputContentItem list \<times> usize option" where
  "formatted_truncate_text_content_items_with_policy items policy =
     (let text_segments = List.map_filter text_segment items in
      if text_segments = [] then (items, None)
      else
        let combined = combine_segments [] text_segments in
        if length combined \<le> byte_budget policy then (items, None)
        else (Out_InputText (formatted_truncate_text combined policy)
                # filter (\<lambda>i. \<not> is_text_item i) items,
              Some (approx_token_count combined)))"

text \<open>
  The loop of \<open>truncate_function_output_items_with_policy\<close>, with the two per-policy choices
  (what a text costs, how a text is cut to the remaining budget) as arguments. The result is
  \<open>out\<close> and \<open>omitted_text_items\<close>.
\<close>

fun truncate_items_loop ::
  "(string \<Rightarrow> usize) \<Rightarrow> (usize \<Rightarrow> string \<Rightarrow> string) \<Rightarrow> FunctionCallOutputContentItem list
   \<Rightarrow> usize \<Rightarrow> usize \<Rightarrow> FunctionCallOutputContentItem list
   \<Rightarrow> FunctionCallOutputContentItem list \<times> usize" where
  "truncate_items_loop cost_of snip [] remaining omitted out = (out, omitted)"
| "truncate_items_loop cost_of snip (Out_InputText t # rest) remaining omitted out =
     (if remaining = 0 then truncate_items_loop cost_of snip rest remaining (omitted + 1) out
      else
        let cost = cost_of t in
        if cost \<le> remaining then
          truncate_items_loop cost_of snip rest (usize_sat_sub remaining cost) omitted
            (out @ [Out_InputText t])
        else
          let snippet = snip remaining t in
          if snippet = [] then truncate_items_loop cost_of snip rest 0 (omitted + 1) out
          else truncate_items_loop cost_of snip rest 0 omitted (out @ [Out_InputText snippet]))"
| "truncate_items_loop cost_of snip (Out_InputImage u d # rest) remaining omitted out =
     truncate_items_loop cost_of snip rest remaining omitted (out @ [Out_InputImage u d])"
| "truncate_items_loop cost_of snip (Out_EncryptedContent e # rest) remaining omitted out =
     truncate_items_loop cost_of snip rest remaining omitted (out @ [Out_EncryptedContent e])"

fun text_cost :: "TruncationPolicy \<Rightarrow> string \<Rightarrow> usize" where
  "text_cost (Bytes _) t = length t"
| "text_cost (Tokens _) t = approx_token_count t"

fun text_snippet :: "TruncationPolicy \<Rightarrow> usize \<Rightarrow> string \<Rightarrow> string" where
  "text_snippet (Bytes _) remaining t = truncate_text t (Bytes remaining)"
| "text_snippet (Tokens _) remaining t = truncate_text t (Tokens remaining)"

definition omission_note :: "usize \<Rightarrow> string" where
  "omission_note n = ''[omitted '' @ nat_to_string n @ '' text items ...]''"

definition truncate_function_output_items_with_policy ::
  "FunctionCallOutputContentItem list \<Rightarrow> TruncationPolicy \<Rightarrow> FunctionCallOutputContentItem list" where
  "truncate_function_output_items_with_policy items policy =
     (let remaining = (case policy of
            Bytes _ \<Rightarrow> byte_budget policy | Tokens _ \<Rightarrow> token_budget policy);
          (out, omitted) =
            truncate_items_loop (text_cost policy) (text_snippet policy) items remaining 0 []
      in if omitted > 0 then out @ [Out_InputText (omission_note omitted)] else out)"

text \<open>\<open>usize::try_from\<close> of a positive \<open>i64\<close> is its value.\<close>

definition approx_tokens_from_byte_count_i64 :: "i64 \<Rightarrow> i64" where
  "approx_tokens_from_byte_count_i64 bytes =
     (if bytes \<le> 0 then 0 else i64_of_usize (approx_tokens_from_byte_count (nat bytes)))"

section \<open>The loop under a budget contract\<close>

definition texts_of :: "FunctionCallOutputContentItem list \<Rightarrow> string list" where
  "texts_of items = List.map_filter text_segment items"

lemma texts_of_simps [simp]:
  "texts_of [] = []"
  "texts_of (Out_InputText t # is) = t # texts_of is"
  "texts_of (Out_InputImage u d # is) = texts_of is"
  "texts_of (Out_EncryptedContent e # is) = texts_of is"
  "texts_of (xs @ ys) = texts_of xs @ texts_of ys"
  by (simp_all add: texts_of_def List.map_filter_simps map_filter_def)

lemma is_text_item_simps [simp]:
  "is_text_item (Out_InputText t)"
  "\<not> is_text_item (Out_InputImage u d)"
  "\<not> is_text_item (Out_EncryptedContent e)"
  by (simp_all add: is_text_item_def)

text \<open>
  A measure of text and a way to cut a text: the cut of an over-budget text costs at most the
  budget plus the room its truncation marker takes.
\<close>

locale text_budget =
  fixes cost_of :: "string \<Rightarrow> usize"
    and snip :: "usize \<Rightarrow> string \<Rightarrow> string"
    and slack :: nat
    and ok :: "string \<Rightarrow> bool"
  assumes snip_cost: "ok t \<Longrightarrow> 0 < r \<Longrightarrow> r < cost_of t \<Longrightarrow> cost_of (snip r t) \<le> r + slack"
begin

abbreviation total_cost :: "FunctionCallOutputContentItem list \<Rightarrow> nat" where
  "total_cost items \<equiv> sum_list (map cost_of (texts_of items))"

lemma loop_keeps_non_text:
  "filter (\<lambda>i. \<not> is_text_item i)
     (fst (truncate_items_loop cost_of snip items r om out))
   = filter (\<lambda>i. \<not> is_text_item i) (out @ items)"
proof (induction items arbitrary: r om out)
  case (Cons i items)
  then show ?case by (cases i) (simp_all add: Let_def)
qed simp

lemma loop_cost:
  assumes "\<forall>t\<in>set (texts_of items). ok t"
  shows "total_cost (fst (truncate_items_loop cost_of snip items r om out))
      \<le> total_cost out + (if r = 0 then 0 else r + slack)"
  using assms
proof (induction items arbitrary: r om out)
  case (Cons i items)
  show ?case
  proof (cases i)
    case (Out_InputText t)
    have ok: "ok t" "\<forall>t\<in>set (texts_of items). ok t" using Cons.prems Out_InputText by simp_all
    note IH = Cons.IH[OF ok(2)]
    consider "r = 0" | "0 < r" "cost_of t \<le> r" | "0 < r" "r < cost_of t" by linarith
    then show ?thesis
    proof cases
      case 1
      then show ?thesis using IH[of 0 "om + 1" out] Out_InputText by simp
    next
      case 2
      then show ?thesis using IH[of "r - cost_of t" om "out @ [Out_InputText t]"] Out_InputText
        by (auto simp: Let_def sat_simps split: if_splits)
    next
      case 3
      have "cost_of (snip r t) \<le> r + slack" using snip_cost[OF ok(1) 3] .
      then show ?thesis
        using IH[of 0 "om + 1" out] IH[of 0 om "out @ [Out_InputText (snip r t)]"] Out_InputText 3
        by (auto simp: Let_def)
    qed
  next
    case (Out_InputImage u d)
    then show ?thesis
      using Cons.IH[of r om "out @ [Out_InputImage u d]"] Cons.prems by simp
  next
    case (Out_EncryptedContent e)
    then show ?thesis
      using Cons.IH[of r om "out @ [Out_EncryptedContent e]"] Cons.prems by simp
  qed
qed simp

lemma loop_cost_le:
  assumes "\<forall>t\<in>set (texts_of items). ok t"
  shows "total_cost (fst (truncate_items_loop cost_of snip items r om out))
      \<le> total_cost out + (r + slack)"
  using loop_cost[OF assms, of r om out] by (auto split: if_splits)

lemma loop_fits:
  "total_cost items < r \<Longrightarrow> truncate_items_loop cost_of snip items r om out = (out @ items, om)"
proof (induction items arbitrary: r om out)
  case (Cons i items)
  then show ?case by (cases i) (auto simp: Let_def sat_simps)
qed simp

end

section \<open>Both policies honour the contract\<close>

text \<open>Strings are at most as long as an allocation can be.\<close>

definition alloc_ok :: "string \<Rightarrow> bool" where
  "alloc_ok t \<longleftrightarrow> length t \<le> usize_MAX"

definition TOKEN_SLACK :: nat where "TOKEN_SLACK = 11"

lemma byte_snippet_cost:
  assumes "alloc_ok t" "0 < r" "r < length t"
  shows "length (truncate_text t (Bytes r)) \<le> r + MARKER_MAX"
  using truncate_length[of r t False] assms
  by (simp add: truncate_text_def truncate_middle_chars_def alloc_ok_def)

lemma token_snippet_cost:
  assumes "alloc_ok t" "0 < r" "r < approx_token_count t"
  shows "approx_token_count (truncate_text t (Tokens r)) \<le> r + TOKEN_SLACK"
proof -
  have cost: "approx_token_count u \<le> (length u + 3) div 4" for u
    by (simp add: approx_token_count_def sat_simps APPROX_BYTES_PER_TOKEN_def div_le_mono)
  have "r < (length t + 3) div 4" using assms(3) cost[of t] by linarith
  then have big: "4 * r < length t" by linarith
  have bytes: "approx_bytes_for_tokens r = 4 * r"
    using big assms(1)
    by (simp add: approx_bytes_for_tokens_def sat_simps APPROX_BYTES_PER_TOKEN_def alloc_ok_def)
  have "truncate_text t (Tokens r) = truncate_with_byte_estimate t (4 * r) True"
    using big by (auto simp: truncate_text_def truncate_middle_with_token_budget_def bytes Let_def)
  moreover have "length (truncate_with_byte_estimate t (4 * r) True) \<le> 4 * r + MARKER_MAX"
    using truncate_length[of "4 * r" t True] assms(1,2) big by (simp add: alloc_ok_def)
  ultimately have "(length (truncate_text t (Tokens r)) + 3) div 4 \<le> (4 * r + MARKER_MAX + 3) div 4"
    by (intro div_le_mono) simp
  also have "\<dots> = r + TOKEN_SLACK" by (simp add: MARKER_MAX_def TOKEN_SLACK_def)
  finally show ?thesis using cost le_trans by blast
qed

interpretation byte_policy: text_budget length "text_snippet (Bytes n)" MARKER_MAX alloc_ok
  for n by unfold_locales (simp add: byte_snippet_cost)

interpretation token_policy:
  text_budget approx_token_count "text_snippet (Tokens n)" TOKEN_SLACK alloc_ok
  for n by unfold_locales (simp add: token_snippet_cost)

lemma text_cost_eta [simp]:
  "text_cost (Bytes n) = length" "text_cost (Tokens n) = approx_token_count"
  by (simp_all add: fun_eq_iff)

definition note_for :: "usize \<Rightarrow> FunctionCallOutputContentItem list" where
  "note_for omitted = (if omitted > 0 then [Out_InputText (omission_note omitted)] else [])"

lemma truncate_items_result:
  "truncate_function_output_items_with_policy is (Bytes n) =
     fst (truncate_items_loop length (text_snippet (Bytes n)) is n 0 [])
     @ note_for (snd (truncate_items_loop length (text_snippet (Bytes n)) is n 0 []))"
  "truncate_function_output_items_with_policy is (Tokens n) =
     fst (truncate_items_loop approx_token_count (text_snippet (Tokens n)) is n 0 [])
     @ note_for (snd (truncate_items_loop approx_token_count (text_snippet (Tokens n)) is n 0 []))"
  by (simp_all add: truncate_function_output_items_with_policy_def note_for_def case_prod_beta Let_def)

section \<open>Properties\<close>

text \<open>
  C27: bounding a list of output items by bytes. Images and encrypted items all stay, in
  order; the texts that stay take at most the budget plus one truncation marker, not counting
  the closing note that says how many texts were left out; and when the texts take less than
  the budget nothing changes.
\<close>

theorem output_items_byte_budget:
  assumes "list_all alloc_ok (texts_of is)"
  shows "\<exists>kept note. truncate_function_output_items_with_policy is (Bytes n) = kept @ note
    \<and> filter (\<lambda>i. \<not> is_text_item i) kept = filter (\<lambda>i. \<not> is_text_item i) is
    \<and> sum_list (map length (texts_of kept)) \<le> n + MARKER_MAX
    \<and> (note = [] \<or> (\<exists>k>0. note = [Out_InputText (omission_note k)]))
    \<and> (sum_list (map length (texts_of is)) < n \<longrightarrow> kept = is \<and> note = [])"
proof -
  let ?loop = "truncate_items_loop length (text_snippet (Bytes n)) is n 0 []"
  have "sum_list (map length (texts_of (fst ?loop))) \<le> n + MARKER_MAX"
    using byte_policy.loop_cost_le[of "is" n n 0 "[]"] assms by (simp add: list_all_iff)
  moreover have "filter (\<lambda>i. \<not> is_text_item i) (fst ?loop) = filter (\<lambda>i. \<not> is_text_item i) is"
    using byte_policy.loop_keeps_non_text[of n "is" n 0 "[]"] by simp
  moreover have "?loop = (is, 0)" if "sum_list (map length (texts_of is)) < n"
    using byte_policy.loop_fits[OF that, of n 0 "[]"] by simp
  ultimately show ?thesis
    unfolding truncate_items_result
    by (intro exI[of _ "fst ?loop"] exI[of _ "note_for (snd ?loop)"]) (auto simp: note_for_def)
qed

theorem output_items_byte_budget_witness:
  "\<exists>kept note. truncate_function_output_items_with_policy
       [Out_InputText ''abcdef'', Out_InputImage ''u'' None] (Bytes 3) = kept @ note
     \<and> filter (\<lambda>i. \<not> is_text_item i) kept = [Out_InputImage ''u'' None]"
  using output_items_byte_budget[of "[Out_InputText ''abcdef'', Out_InputImage ''u'' None]" 3]
  by (auto simp: alloc_ok_def int_limits)

text \<open>
  C28: the same under a token budget, with texts measured in estimated tokens; the marker
  costs at most 11 tokens.
\<close>

theorem output_items_token_budget:
  assumes "list_all alloc_ok (texts_of is)"
  shows "\<exists>kept note. truncate_function_output_items_with_policy is (Tokens n) = kept @ note
    \<and> filter (\<lambda>i. \<not> is_text_item i) kept = filter (\<lambda>i. \<not> is_text_item i) is
    \<and> sum_list (map approx_token_count (texts_of kept)) \<le> n + 11
    \<and> (note = [] \<or> (\<exists>k>0. note = [Out_InputText (omission_note k)]))
    \<and> (sum_list (map approx_token_count (texts_of is)) < n \<longrightarrow> kept = is \<and> note = [])"
proof -
  let ?loop = "truncate_items_loop approx_token_count (text_snippet (Tokens n)) is n 0 []"
  have "sum_list (map approx_token_count (texts_of (fst ?loop))) \<le> n + 11"
    using token_policy.loop_cost_le[of "is" n n 0 "[]"] assms by (simp add: list_all_iff TOKEN_SLACK_def)
  moreover have "filter (\<lambda>i. \<not> is_text_item i) (fst ?loop) = filter (\<lambda>i. \<not> is_text_item i) is"
    using token_policy.loop_keeps_non_text[of n "is" n 0 "[]"] by simp
  moreover have "?loop = (is, 0)" if "sum_list (map approx_token_count (texts_of is)) < n"
    using token_policy.loop_fits[OF that, of n 0 "[]"] by simp
  ultimately show ?thesis
    unfolding truncate_items_result
    by (intro exI[of _ "fst ?loop"] exI[of _ "note_for (snd ?loop)"]) (auto simp: note_for_def)
qed

theorem output_items_token_budget_witness:
  "\<exists>kept note. truncate_function_output_items_with_policy
       [Out_InputText ''abcdef'', Out_EncryptedContent ''e''] (Tokens 1) = kept @ note
     \<and> filter (\<lambda>i. \<not> is_text_item i) kept = [Out_EncryptedContent ''e'']"
  using output_items_token_budget[of "[Out_InputText ''abcdef'', Out_EncryptedContent ''e'']" 1]
  by (auto simp: alloc_ok_def int_limits)

end
