(* ===== verification/Context_History.thy ===== *)
theory Context_History
  imports Context_Normalize Event_Mapping Output_Truncation
begin

text \<open>
  The conversation history of a session, from
  \<open>codex-rs/core/src/context_manager/history.rs\<close>: recording items with truncated tool
  output, building the prompt, removing items together with their other half, replacing
  images, and the estimates of how many tokens the history takes.

  What the estimates take from other crates is a parameter: \<open>est_serialized_len\<close> is the length
  of \<open>serde_json::to_string\<close> of an item (\<open>None\<close> when it fails), \<open>est_image_dims\<close> the width and
  height of the image a base64 payload decodes to (\<open>None\<close> when decoding fails). The cache of
  image estimates is keyed by a digest of the URL and holds values of the same function.
\<close>

record estimator =
  est_serialized_len :: "ResponseItem \<Rightarrow> usize option"
  est_image_dims :: "string \<Rightarrow> (nat \<times> nat) option"

record ContextManager =
  items :: "ResponseItem list"
  history_version :: u64
  token_info :: "TokenUsageInfo option"
  reference_context_item :: "TurnContextItem option"

definition u64_sat_inc :: "u64 \<Rightarrow> u64" where
  "u64_sat_inc v = min (v + 1) u64_MAX"

section \<open>Classification of items\<close>

fun is_api_message :: "ResponseItem \<Rightarrow> bool" where
  "is_api_message (Message _ role _ _) = (role \<noteq> ''system'')"
| "is_api_message CompactionTrigger = False"
| "is_api_message OtherItem = False"
| "is_api_message _ = True"

fun is_model_generated_item :: "ResponseItem \<Rightarrow> bool" where
  "is_model_generated_item (Message _ role _ _) = (role = ''assistant'')"
| "is_model_generated_item CompactionTrigger = False"
| "is_model_generated_item (FunctionCallOutput _ _) = False"
| "is_model_generated_item (CustomToolCallOutput _ _ _) = False"
| "is_model_generated_item OtherItem = False"
| "is_model_generated_item _ = True"

fun is_codex_generated_item :: "ResponseItem \<Rightarrow> bool" where
  "is_codex_generated_item (FunctionCallOutput _ _) = True"
| "is_codex_generated_item (CustomToolCallOutput _ _ _) = True"
| "is_codex_generated_item (Message _ role _ _) = (role = ''developer'')"
| "is_codex_generated_item _ = False"

fun is_user_turn_boundary :: "ResponseItem \<Rightarrow> bool" where
  "is_user_turn_boundary (Message _ role content _) =
     (role = ''user'' \<and> \<not> is_contextual_user_message_content content)"
| "is_user_turn_boundary _ = False"

section \<open>Recording\<close>

definition ContextManager_new :: ContextManager where
  "ContextManager_new =
     \<lparr>items = [], history_version = 0, token_info = new_or_append None None None,
      reference_context_item = None\<rparr>"

definition truncate_function_output_payload ::
  "FunctionCallOutputPayload \<Rightarrow> TruncationPolicy \<Rightarrow> FunctionCallOutputPayload" where
  "truncate_function_output_payload out policy =
     \<lparr>fco_body = (case fco_body out of
        Body_Text content \<Rightarrow> Body_Text (truncate_text content policy)
      | Body_ContentItems is \<Rightarrow>
          Body_ContentItems (truncate_function_output_items_with_policy is policy)),
      fco_success = fco_success out\<rparr>"

fun process_item :: "ResponseItem \<Rightarrow> TruncationPolicy \<Rightarrow> ResponseItem" where
  "process_item (FunctionCallOutput call_id out) policy =
     FunctionCallOutput call_id (truncate_function_output_payload out (policy_mul policy f64_1_2))"
| "process_item (CustomToolCallOutput call_id name out) policy =
     CustomToolCallOutput call_id name
       (truncate_function_output_payload out (policy_mul policy f64_1_2))"
| "process_item i policy = i"

fun record_items :: "ContextManager \<Rightarrow> ResponseItem list \<Rightarrow> TruncationPolicy \<Rightarrow> ContextManager" where
  "record_items cm [] policy = cm"
| "record_items cm (i # rest) policy =
     (if \<not> is_api_message i then record_items cm rest policy
      else record_items (cm\<lparr>items := items cm @ [process_item i policy]\<rparr>) rest policy)"

definition normalize_history ::
  "bool \<Rightarrow> ContextManager \<Rightarrow> InputModality list \<Rightarrow> string + ContextManager" where
  "normalize_history dbg cm modalities =
     (case normalize_items dbg modalities (items cm) of
        Inl e \<Rightarrow> Inl e | Inr is \<Rightarrow> Inr (cm\<lparr>items := is\<rparr>))"

definition for_prompt ::
  "bool \<Rightarrow> ContextManager \<Rightarrow> InputModality list \<Rightarrow> string + ResponseItem list" where
  "for_prompt dbg cm modalities =
     (case normalize_history dbg cm modalities of Inl e \<Rightarrow> Inl e | Inr cm' \<Rightarrow> Inr (items cm'))"

section \<open>Removing and replacing\<close>

definition remove_first_item :: "ContextManager \<Rightarrow> ContextManager" where
  "remove_first_item cm =
     (case items cm of
        [] \<Rightarrow> cm
      | removed # rest \<Rightarrow> cm\<lparr>items := remove_corresponding_for rest removed\<rparr>)"

definition remove_last_item :: "ContextManager \<Rightarrow> ContextManager \<times> bool" where
  "remove_last_item cm =
     (case rev (items cm) of
        [] \<Rightarrow> (cm, False)
      | removed # popped \<Rightarrow>
          (cm\<lparr>items := remove_corresponding_for (rev popped) removed,
              history_version := u64_sat_inc (history_version cm)\<rparr>, True))"

definition replace_history :: "ContextManager \<Rightarrow> ResponseItem list \<Rightarrow> ContextManager" where
  "replace_history cm is =
     cm\<lparr>items := is, history_version := u64_sat_inc (history_version cm)\<rparr>"

fun is_out_image :: "FunctionCallOutputContentItem \<Rightarrow> bool" where
  "is_out_image (Out_InputImage _ _) = True"
| "is_out_image _ = False"

fun is_function_call_output :: "ResponseItem \<Rightarrow> bool" where
  "is_function_call_output (FunctionCallOutput _ _) = True"
| "is_function_call_output _ = False"

definition replace_output_images ::
  "string \<Rightarrow> FunctionCallOutputContentItem list \<Rightarrow> FunctionCallOutputContentItem list" where
  "replace_output_images placeholder cs =
     map (\<lambda>c. if is_out_image c then Out_InputText placeholder else c) cs"

definition replace_last_turn_images :: "ContextManager \<Rightarrow> string \<Rightarrow> ContextManager \<times> bool" where
  "replace_last_turn_images cm placeholder =
     (case rposition (\<lambda>i. is_function_call_output i \<or> is_user_turn_boundary i) (items cm) of
        None \<Rightarrow> (cm, False)
      | Some index \<Rightarrow>
          (case items cm ! index of
             FunctionCallOutput call_id out \<Rightarrow>
               (case content_items out of
                  None \<Rightarrow> (cm, False)
                | Some cs \<Rightarrow>
                    (let replaced = list_ex is_out_image cs;
                         out' = map_content_items (replace_output_images placeholder) out;
                         cm' = cm\<lparr>items := (items cm)[index := FunctionCallOutput call_id out']\<rparr>
                     in if replaced
                        then (cm'\<lparr>history_version := u64_sat_inc (history_version cm')\<rparr>, True)
                        else (cm', False)))
           | _ \<Rightarrow> (cm, False)))"

definition set_token_info :: "ContextManager \<Rightarrow> TokenUsageInfo option \<Rightarrow> ContextManager" where
  "set_token_info cm info = cm\<lparr>token_info := info\<rparr>"

definition set_reference_context_item :: "ContextManager \<Rightarrow> TurnContextItem option \<Rightarrow> ContextManager" where
  "set_reference_context_item cm item = cm\<lparr>reference_context_item := item\<rparr>"

definition update_token_info :: "ContextManager \<Rightarrow> TokenUsage \<Rightarrow> i64 option \<Rightarrow> ContextManager" where
  "update_token_info cm usage window =
     cm\<lparr>token_info := new_or_append (token_info cm) (Some usage) window\<rparr>"

section \<open>Size estimates\<close>

definition RESIZED_IMAGE_BYTES_ESTIMATE :: i64 where "RESIZED_IMAGE_BYTES_ESTIMATE = 7373"
definition ORIGINAL_IMAGE_PATCH_SIZE :: int where "ORIGINAL_IMAGE_PATCH_SIZE = 32"
definition ORIGINAL_IMAGE_MAX_PATCHES :: usize where "ORIGINAL_IMAGE_MAX_PATCHES = 10000"

definition estimate_reasoning_length :: "usize \<Rightarrow> usize" where
  "estimate_reasoning_length encoded_len = usize_sat_sub (usize_sat_mul encoded_len 3 div 4) 650"

definition estimate_encrypted_function_output_length :: "usize \<Rightarrow> usize" where
  "estimate_encrypted_function_output_length encoded_len = (usize_sat_mul encoded_len 9 + 15) div 16"

definition parse_base64_image_data_url :: "string \<Rightarrow> string option" where
  "parse_base64_image_data_url url =
     (if \<not> (case get_to url (length ''data:'') of
               None \<Rightarrow> False | Some pre \<Rightarrow> eq_ignore_ascii_case pre ''data:'') then None
      else
        (case find_sub url '','' of
           None \<Rightarrow> None
         | Some comma_index \<Rightarrow>
             let metadata = take comma_index url;
                 payload = drop (comma_index + 1) url;
                 parts = split_char (CHR '';'') (drop (length ''data:'') metadata);
                 mime_type = (case parts of [] \<Rightarrow> [] | p # _ \<Rightarrow> p);
                 has_base64_marker = list_ex (\<lambda>p. eq_ignore_ascii_case p ''base64'') (drop 1 parts)
             in if \<not> (case get_to mime_type (length ''image/'') of
                         None \<Rightarrow> False | Some pre \<Rightarrow> eq_ignore_ascii_case pre ''image/'') then None
                else if \<not> has_base64_marker then None
                else Some payload))"

definition estimate_original_image_bytes :: "estimator \<Rightarrow> string \<Rightarrow> i64 option" where
  "estimate_original_image_bytes est url =
     (case parse_base64_image_data_url url of
        None \<Rightarrow> None
      | Some payload \<Rightarrow>
          (case est_image_dims est payload of
             None \<Rightarrow> None
           | Some (width, height) \<Rightarrow>
               let patch = ORIGINAL_IMAGE_PATCH_SIZE;
                   wide = i64_sat_add (int width) (i64_sat_sub patch 1) div patch;
                   high = i64_sat_add (int height) (i64_sat_sub patch 1) div patch;
                   count = min (nat (i64_sat_mul wide high)) ORIGINAL_IMAGE_MAX_PATCHES
               in Some (i64_of_usize (approx_bytes_for_tokens count))))"

text \<open>The closure \<open>accumulate\<close> over \<open>(payload_bytes, replacement_bytes)\<close>.\<close>

definition accumulate_image ::
  "estimator \<Rightarrow> i64 \<times> i64 \<Rightarrow> string \<Rightarrow> ImageDetail option \<Rightarrow> i64 \<times> i64" where
  "accumulate_image est acc url detail =
     (case parse_base64_image_data_url url of
        None \<Rightarrow> acc
      | Some payload \<Rightarrow>
          (i64_sat_add (fst acc) (i64_of_usize (length payload)),
           i64_sat_add (snd acc)
             (if detail = Some Original
              then (case estimate_original_image_bytes est url of
                      Some b \<Rightarrow> b | None \<Rightarrow> RESIZED_IMAGE_BYTES_ESTIMATE)
              else RESIZED_IMAGE_BYTES_ESTIMATE)))"

fun image_data_url_estimate_adjustment :: "estimator \<Rightarrow> ResponseItem \<Rightarrow> i64 \<times> i64" where
  "image_data_url_estimate_adjustment est (Message _ _ content _) =
     foldl (\<lambda>acc c. case c of InputImage url detail \<Rightarrow> accumulate_image est acc url detail | _ \<Rightarrow> acc)
       (0, 0) content"
| "image_data_url_estimate_adjustment est (FunctionCallOutput _ out) =
     (case fco_body out of
        Body_ContentItems cs \<Rightarrow>
          foldl (\<lambda>acc c. case c of
                   Out_InputImage url detail \<Rightarrow> accumulate_image est acc url detail | _ \<Rightarrow> acc)
            (0, 0) cs
      | Body_Text _ \<Rightarrow> (0, 0))"
| "image_data_url_estimate_adjustment est _ = (0, 0)"

fun encrypted_function_output_estimate_adjustment :: "ResponseItem \<Rightarrow> i64 \<times> i64" where
  "encrypted_function_output_estimate_adjustment (FunctionCallOutput _ out) =
     (case fco_body out of
        Body_ContentItems cs \<Rightarrow>
          foldl (\<lambda>acc c. case c of
                   Out_EncryptedContent e \<Rightarrow>
                     (i64_sat_add (fst acc) (i64_of_usize (length e)),
                      i64_sat_add (snd acc)
                        (i64_of_usize (estimate_encrypted_function_output_length (length e))))
                 | _ \<Rightarrow> acc)
            (0, 0) cs
      | Body_Text _ \<Rightarrow> (0, 0))"
| "encrypted_function_output_estimate_adjustment _ = (0, 0)"

definition estimate_serialized_bytes :: "estimator \<Rightarrow> ResponseItem \<Rightarrow> i64" where
  "estimate_serialized_bytes est item =
     (let raw = (case est_serialized_len est item of Some n \<Rightarrow> i64_of_usize n | None \<Rightarrow> 0);
          (image_payload, image_replacement) = image_data_url_estimate_adjustment est item;
          (encrypted_payload, encrypted_replacement) =
            encrypted_function_output_estimate_adjustment item;
          raw2 = i64_sat_add (i64_sat_sub raw image_payload) image_replacement
      in i64_sat_add (i64_sat_sub raw2 encrypted_payload) encrypted_replacement)"

fun estimate_response_item_model_visible_bytes :: "estimator \<Rightarrow> ResponseItem \<Rightarrow> i64" where
  "estimate_response_item_model_visible_bytes est (Reasoning _ _ _ (Some content)) =
     i64_of_usize (estimate_reasoning_length (length content))"
| "estimate_response_item_model_visible_bytes est (Compaction content) =
     i64_of_usize (estimate_reasoning_length (length content))"
| "estimate_response_item_model_visible_bytes est (ContextCompaction (Some content)) =
     i64_of_usize (estimate_reasoning_length (length content))"
| "estimate_response_item_model_visible_bytes est item = estimate_serialized_bytes est item"

definition estimate_item_token_count :: "estimator \<Rightarrow> ResponseItem \<Rightarrow> i64" where
  "estimate_item_token_count est item =
     approx_tokens_from_byte_count_i64 (estimate_response_item_model_visible_bytes est item)"

section \<open>Totals\<close>

definition estimate_token_count_with_base_instructions ::
  "estimator \<Rightarrow> ContextManager \<Rightarrow> string \<Rightarrow> i64 option" where
  "estimate_token_count_with_base_instructions est cm base_text =
     Some (i64_sat_add (i64_of_usize (approx_token_count base_text))
       (foldl i64_sat_add 0 (map (estimate_item_token_count est) (items cm))))"

text \<open>The default base instructions are empty.\<close>

definition estimate_token_count :: "estimator \<Rightarrow> ContextManager \<Rightarrow> i64 option" where
  "estimate_token_count est cm = estimate_token_count_with_base_instructions est cm []"

fun is_encrypted_reasoning :: "ResponseItem \<Rightarrow> bool" where
  "is_encrypted_reasoning (Reasoning _ _ _ (Some _)) = True"
| "is_encrypted_reasoning _ = False"

definition get_non_last_reasoning_items_tokens :: "estimator \<Rightarrow> ContextManager \<Rightarrow> i64" where
  "get_non_last_reasoning_items_tokens est cm =
     (case rposition is_user_turn_boundary (items cm) of
        None \<Rightarrow> 0
      | Some last_user_index \<Rightarrow>
          foldl i64_sat_add 0
            (map (estimate_item_token_count est)
              (filter is_encrypted_reasoning (take last_user_index (items cm)))))"

definition items_after_last_model_generated_item :: "ContextManager \<Rightarrow> ResponseItem list" where
  "items_after_last_model_generated_item cm =
     (let start = (case rposition is_model_generated_item (items cm) of
            None \<Rightarrow> length (items cm) | Some index \<Rightarrow> usize_sat_add index 1)
      in drop start (items cm))"

definition get_total_token_usage :: "estimator \<Rightarrow> ContextManager \<Rightarrow> bool \<Rightarrow> i64" where
  "get_total_token_usage est cm server_reasoning_included =
     (let last_tokens = (case token_info cm of
            Some info \<Rightarrow> total_tokens (last_token_usage info) | None \<Rightarrow> 0);
          after = foldl i64_sat_add 0
            (map (estimate_item_token_count est) (items_after_last_model_generated_item cm))
      in if server_reasoning_included then i64_sat_add last_tokens after
         else i64_sat_add (i64_sat_add last_tokens (get_non_last_reasoning_items_tokens est cm)) after)"

record TotalTokenUsageBreakdown =
  last_api_response_total_tokens :: i64
  all_history_items_model_visible_bytes :: i64
  estimated_tokens_of_items_added :: i64
  estimated_bytes_of_items_added :: i64

definition get_total_token_usage_breakdown :: "estimator \<Rightarrow> ContextManager \<Rightarrow> TotalTokenUsageBreakdown" where
  "get_total_token_usage_breakdown est cm =
     (let last_usage = (case token_info cm of
            Some info \<Rightarrow> last_token_usage info | None \<Rightarrow> TokenUsage_default);
          after = items_after_last_model_generated_item cm
      in \<lparr>last_api_response_total_tokens = total_tokens last_usage,
          all_history_items_model_visible_bytes =
            foldl i64_sat_add 0 (map (estimate_response_item_model_visible_bytes est) (items cm)),
          estimated_tokens_of_items_added =
            foldl i64_sat_add 0 (map (estimate_item_token_count est) after),
          estimated_bytes_of_items_added =
            foldl i64_sat_add 0 (map (estimate_response_item_model_visible_bytes est) after)\<rparr>)"

section \<open>Recording keeps order and bounds tool output\<close>

lemma items_record_items:
  "items (record_items cm xs policy)
     = items cm @ map (\<lambda>i. process_item i policy) (filter is_api_message xs)"
  by (induction xs arbitrary: cm) auto

lemma record_items_frame [simp]:
  "history_version (record_items cm xs policy) = history_version cm"
  "token_info (record_items cm xs policy) = token_info cm"
  "reference_context_item (record_items cm xs policy) = reference_context_item cm"
  by (induction xs arbitrary: cm) auto

lemma process_item_keys [simp]:
  "call_key (process_item i policy) = call_key i" "output_key (process_item i policy) = output_key i"
  by (cases i; simp)+

lemma process_item_not_output: "\<not> is_output i \<Longrightarrow> process_item i policy = i"
  by (cases i) (simp_all add: is_output_def)

lemma truncate_text_bytes_bound:
  assumes "alloc_ok t"
  shows "length (truncate_text t (Bytes b)) \<le> b + MARKER_MAX"
proof -
  consider "t = []" | "t \<noteq> []" "b = 0" | "0 < b" "length t \<le> b" | "0 < b" "b < length t" by linarith
  then show ?thesis
  proof cases
    case 2
    have "length (utf8_chars t) \<le> usize_MAX"
      using length_utf8_chars_le[of t] assms by (simp add: alloc_ok_def)
    with 2 show ?thesis
      using length_marker[OF removed_units_bound, of "length t" "length (utf8_chars t)" False False] assms
      by (simp add: truncate_text_def truncate_middle_chars_def truncate_with_byte_estimate_def
          alloc_ok_def)
  next
    case 4
    then show ?thesis using byte_snippet_cost[OF assms] by simp
  qed (simp_all add: truncate_text_def truncate_middle_chars_def truncate_with_byte_estimate_def)
qed

lemma truncate_text_within_budget:
  "length t \<le> byte_budget policy \<Longrightarrow> truncate_text t policy = t"
  by (cases policy)
    (auto simp: truncate_text_def truncate_middle_chars_def truncate_middle_with_token_budget_def
      truncate_with_byte_estimate_def Let_def)

text \<open>
  How an item is stored: a tool output with its call id, name and success flag, a text as a text
  (the same one when it is within the scaled policy), content items as content items; every
  other item as it is.
\<close>

definition recorded_output ::
  "TruncationPolicy \<Rightarrow> FunctionCallOutputPayload \<Rightarrow> FunctionCallOutputPayload \<Rightarrow> bool" where
  "recorded_output policy out out' \<longleftrightarrow>
     fco_success out' = fco_success out
     \<and> (case fco_body out of
          Body_Text t \<Rightarrow> (\<exists>t'. fco_body out' = Body_Text t'
            \<and> (length t \<le> byte_budget (policy_mul policy f64_1_2) \<longrightarrow> t' = t))
        | Body_ContentItems _ \<Rightarrow> (\<exists>cs'. fco_body out' = Body_ContentItems cs'))"

definition recorded_as :: "TruncationPolicy \<Rightarrow> ResponseItem \<Rightarrow> ResponseItem \<Rightarrow> bool" where
  "recorded_as policy i j \<longleftrightarrow>
     (case i of
        FunctionCallOutput call_id out \<Rightarrow>
          (\<exists>out'. j = FunctionCallOutput call_id out' \<and> recorded_output policy out out')
      | CustomToolCallOutput call_id name out \<Rightarrow>
          (\<exists>out'. j = CustomToolCallOutput call_id name out' \<and> recorded_output policy out out')
      | _ \<Rightarrow> j = i)"

lemma process_item_recorded_as: "recorded_as policy i (process_item i policy)"
  by (cases i)
    (simp_all add: recorded_as_def recorded_output_def truncate_function_output_payload_def
      truncate_text_within_budget split: FunctionCallOutputBody.split)

lemma is_api_message_iff:
  "is_api_message i \<longleftrightarrow>
     (\<nexists>mid content phase. i = Message mid ''system'' content phase)
     \<and> i \<noteq> CompactionTrigger \<and> i \<noteq> OtherItem"
  by (cases i) auto

lemma record_items_append:
  "record_items (record_items cm xs policy) ys policy = record_items cm (xs @ ys) policy"
  by (induction xs arbitrary: cm) auto

section \<open>Token totals\<close>

lemma estimate_item_token_count_range [simp]:
  "0 \<le> estimate_item_token_count est i" "is_i64 (estimate_item_token_count est i)"
  "estimate_item_token_count est i \<le> i64_MAX"
  using i64_of_usize_range
  by (auto simp: estimate_item_token_count_def approx_tokens_from_byte_count_i64_def is_i64_def
      i64_of_usize_def int_limits)

lemma fold_token_counts:
  "foldl i64_sat_add 0 (map (estimate_item_token_count est) xs)
     = i64_clamp (sum_list (map (estimate_item_token_count est) xs))"
  using fold_sat_add_nonneg[of "map (estimate_item_token_count est) xs" 0] by (simp add: int_limits)

lemma token_sum_nonneg [simp]: "0 \<le> sum_list (map (estimate_item_token_count est) xs)"
  by (rule sum_list_nonneg) auto

lemma items_after_last_model_generated:
  assumes "items cm = us @ y # vs" "is_model_generated_item y"
    "\<forall>i\<in>set vs. \<not> is_model_generated_item i" "length (items cm) \<le> usize_MAX"
  shows "items_after_last_model_generated_item cm = vs"
proof -
  have "rposition is_model_generated_item (items cm) = Some (length us)"
    unfolding assms(1) using assms(2,3) by (rule rposition_append_match)
  with assms(1,4) show ?thesis
    by (simp add: items_after_last_model_generated_item_def sat_simps)
qed

text \<open>The part of a history before the last message the user typed.\<close>

definition before_last_user_turn :: "ResponseItem list \<Rightarrow> ResponseItem list" where
  "before_last_user_turn is = rev (tl (dropWhile (\<lambda>i. \<not> is_user_turn_boundary i) (rev is)))"

lemma dropWhile_none: "\<forall>x\<in>set xs. \<not> p x \<Longrightarrow> dropWhile (\<lambda>x. \<not> p x) (rev xs @ ys) = dropWhile (\<lambda>x. \<not> p x) ys"
  by (induction xs arbitrary: ys) auto

lemma non_last_reasoning_tokens:
  "get_non_last_reasoning_items_tokens est cm =
     i64_clamp (sum_list (map (estimate_item_token_count est)
       (filter is_encrypted_reasoning (before_last_user_turn (items cm)))))"
proof (cases "rposition is_user_turn_boundary (items cm)")
  case None
  then have "dropWhile (\<lambda>i. \<not> is_user_turn_boundary i) (rev (items cm)) = []"
    by (simp add: rposition_None)
  then have "before_last_user_turn (items cm) = []"
    by (simp only: before_last_user_turn_def list.sel rev.simps)
  with None show ?thesis
    by (simp add: get_non_last_reasoning_items_tokens_def i64_clamp_def int_limits)
next
  case (Some n)
  from rposition_Some_split[OF this] obtain us y vs where y: "items cm = us @ y # vs"
    "length us = n" "is_user_turn_boundary y" "\<forall>x\<in>set vs. \<not> is_user_turn_boundary x" by blast
  have "before_last_user_turn (items cm) = us"
    using y(3) dropWhile_none[OF y(4), of "y # rev us"] by (simp add: y(1) before_last_user_turn_def)
  with Some y(1,2) show ?thesis
    by (simp add: get_non_last_reasoning_items_tokens_def fold_token_counts)
qed

lemma i64_sat_add_clamp:
  "0 \<le> a \<Longrightarrow> 0 \<le> b \<Longrightarrow> i64_sat_add (i64_clamp a) (i64_clamp b) = i64_clamp (a + b)"
  "0 \<le> a \<Longrightarrow> a \<le> i64_MAX \<Longrightarrow> 0 \<le> b \<Longrightarrow> i64_sat_add a (i64_clamp b) = i64_clamp (a + b)"
  by (auto simp: sat_simps i64_clamp_def int_limits min_def max_def)

lemma items_after_no_model_generated:
  "\<forall>i\<in>set (items cm). \<not> is_model_generated_item i \<Longrightarrow> items_after_last_model_generated_item cm = []"
  using rposition_None[of is_model_generated_item "items cm"]
  by (simp add: items_after_last_model_generated_item_def)

section \<open>Properties\<close>




text \<open>
  C7: dropping the oldest or the newest item of a history whose calls and outputs are paired
  and whose call ids are unique drops both halves of a pair: what is left is paired again and
  its ids are unique.
\<close>

theorem remove_item_keeps_pairing:
  assumes "paired (items cm)" "unique_keys (items cm)"
  shows "paired (items (remove_first_item cm)) \<and> unique_keys (items (remove_first_item cm))
    \<and> paired (items (fst (remove_last_item cm))) \<and> unique_keys (items (fst (remove_last_item cm)))
    \<and> length (items (remove_first_item cm)) \<le> length (items cm) - 1
    \<and> length (items (fst (remove_last_item cm))) \<le> length (items cm) - 1"
proof -
  have len: "length (remove_corresponding_for xs x) \<le> length xs" for xs x
    by (cases "(xs, x)" rule: remove_corresponding_for.cases)
      (auto simp: remove_first_matching_def remove_nth_def split: option.splits)
  have "paired (items (remove_first_item cm)) \<and> unique_keys (items (remove_first_item cm))"
    using assms remove_pair_keeps_pairing[of "[]"]
    by (auto simp: remove_first_item_def split: list.splits)
  moreover have "paired (items (fst (remove_last_item cm))) \<and> unique_keys (items (fst (remove_last_item cm)))"
  proof (cases "rev (items cm)")
    case (Cons x xs)
    then have "items cm = rev xs @ x # []" by (metis rev.simps(2) rev_rev_ident)
    with assms remove_pair_keeps_pairing[of "rev xs" x "[]"] Cons show ?thesis
      by (simp add: remove_last_item_def)
  qed (use assms in \<open>simp add: remove_last_item_def\<close>)
  moreover have "length (items (fst (remove_last_item cm))) \<le> length (items cm) - 1"
    using len[of "rev (tl (rev (items cm)))"] by (auto simp: remove_last_item_def split: list.splits)
  moreover have "length (items (remove_first_item cm)) \<le> length (items cm) - 1"
    using len by (auto simp: remove_first_item_def split: list.splits)
  ultimately show ?thesis by blast
qed

theorem remove_item_keeps_pairing_witness:
  "paired (items (remove_first_item (ContextManager_new\<lparr>items :=
     [FunctionCall None ''f'' None ''{}'' ''c1'', FunctionCallOutput ''c1'' aborted_output]\<rparr>)))"
proof -
  let ?is = "[FunctionCall None ''f'' None ''{}'' ''c1'', FunctionCallOutput ''c1'' aborted_output]"
  have "paired ?is" "unique_keys ?is" by code_simp+
  then show ?thesis using remove_item_keeps_pairing[of "ContextManager_new\<lparr>items := ?is\<rparr>"] by simp
qed

lemma fco_body_update_same: "fco_body out = b \<Longrightarrow> out\<lparr>fco_body := b\<rparr> = out"
  by (cases out) simp

text \<open>
  C22: replacing the images of the last turn touches one item only. The candidate is the last
  function call output, provided no user message follows it. When it holds images each of them
  becomes the placeholder text, everything else stays, and the history version goes up; in
  every other case nothing changes and the answer is no.
\<close>

theorem replace_last_turn_images_spec:
  "(\<exists>us call_id out cs vs. items cm = us @ FunctionCallOutput call_id out # vs
      \<and> list_all (\<lambda>i. \<not> is_function_call_output i \<and> \<not> is_user_turn_boundary i) vs
      \<and> fco_body out = Body_ContentItems cs \<and> list_ex is_out_image cs
      \<and> replace_last_turn_images cm placeholder =
          (cm\<lparr>items := us @ FunctionCallOutput call_id
                (out\<lparr>fco_body := Body_ContentItems
                   (map (\<lambda>c. if is_out_image c then Out_InputText placeholder else c) cs)\<rparr>) # vs,
              history_version := u64_sat_inc (history_version cm)\<rparr>, True))
   \<or> (\<nexists>us call_id out cs vs. items cm = us @ FunctionCallOutput call_id out # vs
      \<and> list_all (\<lambda>i. \<not> is_function_call_output i \<and> \<not> is_user_turn_boundary i) vs
      \<and> fco_body out = Body_ContentItems cs \<and> list_ex is_out_image cs)
     \<and> replace_last_turn_images cm placeholder = (cm, False)"
  (is "?found \<or> ?none \<and> ?same")
proof -
  let ?p = "\<lambda>i. is_function_call_output i \<or> is_user_turn_boundary i"
  have match: "rposition ?p (items cm) = Some (length us)"
    if "items cm = us @ FunctionCallOutput c out # vs"
      "list_all (\<lambda>i. \<not> is_function_call_output i \<and> \<not> is_user_turn_boundary i) vs" for us c out vs
    using that rposition_append_match[of ?p "FunctionCallOutput c out" vs us] by (simp add: list_all_iff)
  show ?thesis
  proof (cases "?none")
    case False
    then obtain us c out cs vs where d: "items cm = us @ FunctionCallOutput c out # vs"
      "list_all (\<lambda>i. \<not> is_function_call_output i \<and> \<not> is_user_turn_boundary i) vs"
      "fco_body out = Body_ContentItems cs" "list_ex is_out_image cs" by blast
    have "replace_last_turn_images cm placeholder =
          (cm\<lparr>items := us @ FunctionCallOutput c
                (out\<lparr>fco_body := Body_ContentItems
                   (map (\<lambda>c. if is_out_image c then Out_InputText placeholder else c) cs)\<rparr>) # vs,
              history_version := u64_sat_inc (history_version cm)\<rparr>, True)"
      unfolding replace_last_turn_images_def match[OF d(1,2)]
      using d(1,3,4) by (simp add: content_items_def map_content_items_def replace_output_images_def Let_def)
    with d have ?found by blast
    then show ?thesis ..
  next
    case True
    have ?same
    proof (cases "rposition ?p (items cm)")
      case (Some n)
      from rposition_Some_split[OF this] obtain us y vs where y: "items cm = us @ y # vs"
        "length us = n" "\<forall>x\<in>set vs. \<not> ?p x" by blast
      have nth: "items cm ! n = y" using y(1,2) by auto
      have "\<not> list_ex is_out_image cs" if "y = FunctionCallOutput c out" "fco_body out = Body_ContentItems cs"
        for c out cs using True y(1,3) that unfolding list_all_iff by blast
      moreover have "map (\<lambda>c. if is_out_image c then Out_InputText placeholder else c) cs = cs"
        if "\<not> list_ex is_out_image cs" for cs using that by (induction cs) auto
      moreover have "(items cm)[n := y] = items cm" using nth by (metis list_update_id)
      ultimately show ?thesis
        unfolding replace_last_turn_images_def Some nth option.case
        by (cases y) (auto simp: content_items_def map_content_items_def Let_def nth fco_body_update_same
            replace_output_images_def split: FunctionCallOutputBody.splits)
    qed (simp add: replace_last_turn_images_def)
    with True show ?thesis by blast
  qed
qed

theorem replace_last_turn_images_spec_witness:
  "replace_last_turn_images ContextManager_new ''gone'' = (ContextManager_new, False)"
  using replace_last_turn_images_spec[of ContextManager_new "''gone''"]
  by (auto simp: ContextManager_new_def)

text \<open>
  C23: the token total. When the history ends in \<open>vs\<close> after the last item the model wrote, the
  total is the usage the server last reported plus the estimates of the items of \<open>vs\<close> and,
  when the server does not count earlier reasoning, plus the estimates of the encrypted reasoning
  before the last message the user typed. The sum is clamped once to the \<open>i64\<close> range (the
  saturating additions do not clamp in between), and no item is estimated twice: \<open>vs\<close> has no
  encrypted reasoning. So with \<open>server_reasoning_included\<close> only the items the server has not
  seen are estimated.
\<close>

theorem total_token_usage_counts_new_items:
  assumes "items cm = us @ y # vs" "is_model_generated_item y"
    and "list_all (\<lambda>i. \<not> is_model_generated_item i) vs" "length (items cm) \<le> usize_MAX"
    and "token_info cm = Some info" "0 \<le> total_tokens (last_token_usage info)"
      "total_tokens (last_token_usage info) \<le> i64_MAX"
  shows "get_total_token_usage est cm server_reasoning_included
    = i64_clamp (total_tokens (last_token_usage info)
        + (if server_reasoning_included then 0
           else sum_list (map (estimate_item_token_count est)
             (filter is_encrypted_reasoning (before_last_user_turn (items cm)))))
        + sum_list (map (estimate_item_token_count est) vs))
    \<and> list_all (\<lambda>i. \<not> is_encrypted_reasoning i) vs"
proof -
  have after: "items_after_last_model_generated_item cm = vs"
    using assms(1-4) by (intro items_after_last_model_generated) (auto simp: list_all_iff)
  have "is_model_generated_item i" if "is_encrypted_reasoning i" for i
    using that by (cases i rule: is_encrypted_reasoning.cases) auto
  then have "list_all (\<lambda>i. \<not> is_encrypted_reasoning i) vs"
    using assms(3) by (auto simp: list_all_iff)
  moreover have "get_total_token_usage est cm server_reasoning_included
    = i64_clamp (total_tokens (last_token_usage info)
        + (if server_reasoning_included then 0
           else sum_list (map (estimate_item_token_count est)
             (filter is_encrypted_reasoning (before_last_user_turn (items cm)))))
        + sum_list (map (estimate_item_token_count est) vs))"
    unfolding get_total_token_usage_def after fold_token_counts non_last_reasoning_tokens assms(5)
    by (simp add: i64_sat_add_clamp assms(6,7) Let_def)
  ultimately show ?thesis by blast
qed

theorem total_token_usage_counts_new_items_witness:
  "let est = \<lparr>est_serialized_len = (\<lambda>_. Some 8), est_image_dims = (\<lambda>_. None)\<rparr>;
       old = Reasoning ''r'' [] None (Some ''secret'') in
   get_total_token_usage est (ContextManager_new\<lparr>items :=
         [old, Message None ''user'' [] None, Compaction ''abc'', OtherItem],
       token_info := Some (full_context_window 100)\<rparr>) False
     = i64_clamp (100 + estimate_item_token_count est old + estimate_item_token_count est OtherItem)"
proof -
  let ?old = "Reasoning ''r'' [] None (Some ''secret'')"
  let ?items = "[?old, Message None ''user'' [] None, Compaction ''abc'', OtherItem]"
  let ?cm = "ContextManager_new\<lparr>items := ?items, token_info := Some (full_context_window 100)\<rparr>"
  have "total_tokens (last_token_usage (full_context_window 100)) = 100"
    by (simp add: full_context_window_def fill_to_context_window_def TokenUsage_default_def i64_wrap_def)
  moreover have "before_last_user_turn ?items = [?old]" by code_simp
  ultimately show ?thesis
    using total_token_usage_counts_new_items[of ?cm "[?old, Message None ''user'' [] None]"
        "Compaction ''abc''" "[OtherItem]" "full_context_window 100" _ False]
    by (simp add: int_limits Let_def)
qed

lemma parse_data_url_encoded:
  assumes "CHR '','' \<notin> set subtype" "CHR '';'' \<notin> set subtype"
    and "subtype = [] \<or> \<not> is_cont (hd subtype)"
  shows "parse_base64_image_data_url (''data:image/'' @ subtype @ '';base64,'' @ payload) = Some payload"
proof -
  let ?meta = "''data:image/'' @ subtype @ '';base64''"
  let ?url = "?meta @ CHR '','' # payload"
  have url: "''data:image/'' @ subtype @ '';base64,'' @ payload = ?url" by simp
  have scheme: "get_to ?url 5 = Some ''data:''"
    by (simp add: get_to_def is_char_boundary_def is_cont_def byte_of_def)
  have comma: "find_sub ?url '','' = Some (length ?meta)"
    by (rule find_sub_single_append) (use assms(1) in simp)
  have "split_char (CHR '';'') ((''image/'' @ subtype) @ CHR '';'' # ''base64'')
      = (''image/'' @ subtype) # split_char (CHR '';'') ''base64''"
    by (rule split_char_append) (use assms(2) in simp)
  then have parts: "split_char (CHR '';'') (drop 5 ?meta) = [''image/'' @ subtype, ''base64'']" by simp
  have mime: "get_to (''image/'' @ subtype) 6 = Some ''image/''"
    using assms(3) by (cases subtype) (auto simp: get_to_def is_char_boundary_def)
  have cut: "take (length ?meta) ?url = ?meta" "drop (length ?meta + 1) ?url = payload" by simp_all
  have len: "length ''data:'' = 5" "length ''image/'' = 6" by simp_all
  show ?thesis
    unfolding parse_base64_image_data_url_def url Let_def len scheme comma option.case cut parts
      list.case mime
    by (simp add: eq_ignore_ascii_case_def)
qed

lemma parse_data_url_suffix:
  assumes "parse_base64_image_data_url url = Some p"
  shows "\<exists>metadata. url = metadata @ '','' @ p \<and> CHR '','' \<notin> set metadata"
proof -
  from assms obtain i where i: "find_sub url '','' = Some i" "p = drop (Suc i) url"
    by (auto simp: parse_base64_image_data_url_def Let_def split: if_splits option.splits)
  from find_sub_single_first[OF i(1)] i(2) show ?thesis by (intro exI[of _ "take i url"]) simp
qed

text \<open>
  C24: the parser of image data URLs accepts what the image encoder writes: for a mime type
  under \<open>image/\<close> without comma or semicolon the payload after \<open>;base64,\<close> comes back; and
  whatever it accepts is what follows the first comma of the URL.
\<close>

theorem parse_data_url_roundtrip:
  assumes "CHR '','' \<notin> set subtype" "CHR '';'' \<notin> set subtype"
    and "subtype = [] \<or> \<not> is_cont (hd subtype)"
  shows "parse_base64_image_data_url (''data:image/'' @ subtype @ '';base64,'' @ payload) = Some payload
    \<and> (\<forall>url p. parse_base64_image_data_url url = Some p
         \<longrightarrow> (\<exists>metadata. url = metadata @ '','' @ p \<and> CHR '','' \<notin> set metadata))"
  using parse_data_url_encoded[OF assms] parse_data_url_suffix by blast

theorem parse_data_url_roundtrip_witness:
  "parse_base64_image_data_url ''data:image/png;base64,iVBORw'' = Some ''iVBORw''"
  using parse_data_url_roundtrip[of "''png''" "''iVBORw''"] by (simp add: is_cont_def byte_of_def)

end
