(* ===== verification/Rollout_Reconstruction.thy ===== *)
theory Rollout_Reconstruction
  imports Context_History
begin

text \<open>
  Rebuilding a conversation from its rollout file, from
  \<open>codex-rs/core/src/session/rollout_reconstruction.rs\<close>, and cutting a rollout before a user
  message, from \<open>codex-rs/core/src/thread_rollout_truncation.rs\<close>.

  The source scans the rollout from its end, turn by turn, to find the newest compaction and
  the settings of the newest user turn, and then replays only what follows a compaction. The
  reference definition replays the whole rollout from its beginning; the two are shown to build
  the same history.
\<close>

section \<open>Segments\<close>

record PreviousTurnSettings =
  pts_model :: string

datatype TurnReferenceContextItem = NeverSet | Cleared | Latest TurnContextItem

record ActiveReplaySegment =
  ars_turn_id :: "string option"
  ars_counts_as_user_turn :: bool
  ars_previous_turn_settings :: "PreviousTurnSettings option"
  ars_reference_context_item :: TurnReferenceContextItem
  ars_base_replacement_history :: "ResponseItem list option"

definition ActiveReplaySegment_default :: ActiveReplaySegment where
  "ActiveReplaySegment_default =
     \<lparr>ars_turn_id = None, ars_counts_as_user_turn = False, ars_previous_turn_settings = None,
      ars_reference_context_item = NeverSet, ars_base_replacement_history = None\<rparr>"

fun turn_ids_are_compatible :: "string option \<Rightarrow> string option \<Rightarrow> bool" where
  "turn_ids_are_compatible (Some a) (Some b) = (b = a)"
| "turn_ids_are_compatible _ _ = True"

text \<open>The local variables of the scan.\<close>

record replay_state =
  rs_base :: "ResponseItem list option"
  rs_settings :: "PreviousTurnSettings option"
  rs_reference :: TurnReferenceContextItem
  rs_suffix :: "RolloutItem list"
  rs_active :: "ActiveReplaySegment option"

definition finalize_active_segment :: "ActiveReplaySegment \<Rightarrow> replay_state \<Rightarrow> replay_state" where
  "finalize_active_segment seg st =
     (let st1 = (if rs_base st = None
                 then st\<lparr>rs_base := ars_base_replacement_history seg\<rparr> else st);
          st2 = (if rs_settings st1 = None \<and> ars_counts_as_user_turn seg
                 then st1\<lparr>rs_settings := ars_previous_turn_settings seg\<rparr> else st1)
      in if rs_reference st2 = NeverSet
            \<and> (ars_counts_as_user_turn seg \<or> ars_reference_context_item seg = Cleared)
         then st2\<lparr>rs_reference := ars_reference_context_item seg\<rparr> else st2)"

definition active_or_default :: "replay_state \<Rightarrow> ActiveReplaySegment" where
  "active_or_default st =
     (case rs_active st of Some seg \<Rightarrow> seg | None \<Rightarrow> ActiveReplaySegment_default)"

text \<open>One iteration of the backward scan; \<open>rest\<close> is what follows the item in the rollout.\<close>

fun scan_item :: "RolloutItem \<Rightarrow> RolloutItem list \<Rightarrow> replay_state \<Rightarrow> replay_state" where
  "scan_item (RCompacted compacted) rest st =
     (let seg = active_or_default st;
          seg1 = (if ars_reference_context_item seg = NeverSet
                  then seg\<lparr>ars_reference_context_item := Cleared\<rparr> else seg)
      in case (ars_base_replacement_history seg1, ci_replacement_history compacted) of
           (None, Some h) \<Rightarrow>
             st\<lparr>rs_active := Some (seg1\<lparr>ars_base_replacement_history := Some h\<rparr>), rs_suffix := rest\<rparr>
         | _ \<Rightarrow> st\<lparr>rs_active := Some seg1\<rparr>)"
| "scan_item (REventMsg (TurnComplete event)) rest st =
     (let seg = active_or_default st in
      st\<lparr>rs_active := Some (if ars_turn_id seg = None
           then seg\<lparr>ars_turn_id := Some (tce_turn_id event)\<rparr> else seg)\<rparr>)"
| "scan_item (REventMsg (TurnAborted event)) rest st =
     (case rs_active st of
        Some seg \<Rightarrow>
          (case (ars_turn_id seg, tae_turn_id event) of
             (None, Some turn_id) \<Rightarrow> st\<lparr>rs_active := Some (seg\<lparr>ars_turn_id := Some turn_id\<rparr>)\<rparr>
           | _ \<Rightarrow> st)
      | None \<Rightarrow>
          (case tae_turn_id event of
             Some turn_id \<Rightarrow>
               st\<lparr>rs_active := Some (ActiveReplaySegment_default\<lparr>ars_turn_id := Some turn_id\<rparr>)\<rparr>
           | None \<Rightarrow> st))"
| "scan_item (RTurnContext ctx) rest st =
     (let seg = active_or_default st;
          seg1 = (if ars_turn_id seg = None then seg\<lparr>ars_turn_id := tci_turn_id ctx\<rparr> else seg);
          seg2 = (if turn_ids_are_compatible (ars_turn_id seg1) (tci_turn_id ctx)
                  then let seg' = seg1\<lparr>ars_previous_turn_settings := Some \<lparr>pts_model = tci_model ctx\<rparr>\<rparr>
                       in if ars_reference_context_item seg' = NeverSet
                          then seg'\<lparr>ars_reference_context_item := Latest ctx\<rparr> else seg'
                  else seg1)
      in st\<lparr>rs_active := Some seg2\<rparr>)"
| "scan_item (REventMsg (TurnStarted event)) rest st =
     (case rs_active st of
        Some seg \<Rightarrow>
          if turn_ids_are_compatible (ars_turn_id seg) (Some (tse_turn_id event))
          then finalize_active_segment seg (st\<lparr>rs_active := None\<rparr>) else st
      | None \<Rightarrow> st)"
| "scan_item (RResponseItem item) rest st =
     (let seg = active_or_default st in
      st\<lparr>rs_active := Some (seg\<lparr>ars_counts_as_user_turn :=
           ars_counts_as_user_turn seg \<or> is_user_turn_boundary item\<rparr>)\<rparr>)"
| "scan_item _ rest st = st"

definition scan_done :: "replay_state \<Rightarrow> bool" where
  "scan_done st \<longleftrightarrow> rs_base st \<noteq> None \<and> rs_settings st \<noteq> None \<and> rs_reference st \<noteq> NeverSet"

text \<open>The loop over \<open>rollout_items.iter().enumerate().rev()\<close>, with its \<open>break\<close>.\<close>

fun scan_backwards :: "RolloutItem list \<Rightarrow> RolloutItem list \<Rightarrow> replay_state \<Rightarrow> replay_state" where
  "scan_backwards [] rest st = st"
| "scan_backwards (item # earlier) rest st =
     (let st' = scan_item item rest st in
      if scan_done st' then st' else scan_backwards earlier (item # rest) st')"

definition replay_init :: "RolloutItem list \<Rightarrow> replay_state" where
  "replay_init rollout =
     \<lparr>rs_base = None, rs_settings = None, rs_reference = NeverSet, rs_suffix = rollout, rs_active = None\<rparr>"

definition scan_rollout :: "RolloutItem list \<Rightarrow> replay_state" where
  "scan_rollout rollout =
     (let st = scan_backwards (rev rollout) [] (replay_init rollout) in
      case rs_active st of
        Some seg \<Rightarrow> finalize_active_segment seg (st\<lparr>rs_active := None\<rparr>)
      | None \<Rightarrow> st)"

section \<open>Replay\<close>

fun replay_item :: "TruncationPolicy \<Rightarrow> ContextManager \<Rightarrow> RolloutItem \<Rightarrow> ContextManager" where
  "replay_item policy history (RResponseItem item) = record_items history [item] policy"
| "replay_item policy history (RCompacted compacted) =
     (case ci_replacement_history compacted of
        Some h \<Rightarrow> replace_history history h | None \<Rightarrow> history)"
| "replay_item policy history _ = history"

definition replay_items :: "TruncationPolicy \<Rightarrow> ContextManager \<Rightarrow> RolloutItem list \<Rightarrow> ContextManager" where
  "replay_items policy history rollout = foldl (replay_item policy) history rollout"

record RolloutReconstruction =
  rr_history :: "ResponseItem list"
  rr_previous_turn_settings :: "PreviousTurnSettings option"
  rr_reference_context_item :: "TurnContextItem option"

definition reconstruct_history_from_rollout ::
  "TruncationPolicy \<Rightarrow> RolloutItem list \<Rightarrow> RolloutReconstruction" where
  "reconstruct_history_from_rollout policy rollout =
     (let st = scan_rollout rollout;
          base = (case rs_base st of
            Some h \<Rightarrow> replace_history ContextManager_new h | None \<Rightarrow> ContextManager_new)
      in \<lparr>rr_history = items (replay_items policy base (rs_suffix st)),
          rr_previous_turn_settings = rs_settings st,
          rr_reference_context_item =
            (case rs_reference st of Latest c \<Rightarrow> Some c | _ \<Rightarrow> None)\<rparr>)"

section \<open>Cutting a rollout\<close>

fun rollout_item_is_user_turn_boundary :: "RolloutItem \<Rightarrow> bool" where
  "rollout_item_is_user_turn_boundary (RResponseItem item) = is_user_turn_boundary item"
| "rollout_item_is_user_turn_boundary _ = False"

definition initial_history_has_prior_user_turns :: "InitialHistory \<Rightarrow> bool" where
  "initial_history_has_prior_user_turns h = scan_rollout_items h rollout_item_is_user_turn_boundary"

text \<open>The fresh id \<open>parse_turn_item\<close> draws does not matter for the test.\<close>

fun is_user_message_item :: "RolloutItem \<Rightarrow> bool" where
  "is_user_message_item (RResponseItem (Message mid role content phase)) =
     (case parse_turn_item [] (Message mid role content phase) of
        Some (Turn_UserMessage _) \<Rightarrow> True | _ \<Rightarrow> False)"
| "is_user_message_item _ = False"

fun user_positions_from :: "usize \<Rightarrow> RolloutItem list \<Rightarrow> usize list" where
  "user_positions_from idx [] = []"
| "user_positions_from idx (item # rest) =
     (if is_user_message_item item then idx # user_positions_from (Suc idx) rest
      else user_positions_from (Suc idx) rest)"

definition user_message_positions_in_rollout :: "RolloutItem list \<Rightarrow> usize list" where
  "user_message_positions_in_rollout rollout = user_positions_from 0 rollout"

definition truncate_rollout_before_nth_user_message_from_start ::
  "RolloutItem list \<Rightarrow> usize \<Rightarrow> RolloutItem list" where
  "truncate_rollout_before_nth_user_message_from_start rollout n =
     (if n = usize_MAX then rollout
      else
        let positions = user_message_positions_in_rollout rollout in
        if length positions \<le> n then rollout else take (positions ! n) rollout)"

section \<open>The scan finds the newest replacement history\<close>

fun replacement_of :: "RolloutItem \<Rightarrow> ResponseItem list option" where
  "replacement_of (RCompacted c) = ci_replacement_history c"
| "replacement_of _ = None"

fun last_replacement :: "RolloutItem list \<Rightarrow> ResponseItem list option" where
  "last_replacement [] = None"
| "last_replacement (i # rest) =
     (case last_replacement rest of Some h \<Rightarrow> Some h | None \<Rightarrow> replacement_of i)"

definition effective_base :: "replay_state \<Rightarrow> ResponseItem list option" where
  "effective_base st =
     (case rs_base st of
        Some h \<Rightarrow> Some h
      | None \<Rightarrow> (case rs_active st of Some seg \<Rightarrow> ars_base_replacement_history seg | None \<Rightarrow> None))"

definition suffix_ok :: "RolloutItem list \<Rightarrow> RolloutItem list \<Rightarrow> RolloutItem list \<Rightarrow> bool" where
  "suffix_ok rollout scanned suf \<longleftrightarrow>
     (if last_replacement scanned = None then suf = rollout
      else \<exists>us i. scanned = us @ i # suf \<and> replacement_of i \<noteq> None)"

definition scan_inv :: "RolloutItem list \<Rightarrow> RolloutItem list \<Rightarrow> replay_state \<Rightarrow> bool" where
  "scan_inv rollout scanned st \<longleftrightarrow>
     effective_base st = last_replacement scanned \<and> suffix_ok rollout scanned (rs_suffix st)"

lemma finalize_effective_base [simp]:
  "effective_base (finalize_active_segment seg (st\<lparr>rs_active := None\<rparr>))
     = effective_base (st\<lparr>rs_active := Some seg\<rparr>)"
  "rs_base (finalize_active_segment seg st)
     = (case rs_base st of Some h \<Rightarrow> Some h | None \<Rightarrow> ars_base_replacement_history seg)"
  "rs_suffix (finalize_active_segment seg st) = rs_suffix st"
  "rs_active (finalize_active_segment seg st) = rs_active st"
  by (auto simp: finalize_active_segment_def effective_base_def Let_def split: option.splits)

lemma active_base_default [simp]:
  "ars_base_replacement_history (active_or_default st)
     = (case rs_active st of Some seg \<Rightarrow> ars_base_replacement_history seg | None \<Rightarrow> None)"
  by (simp add: active_or_default_def ActiveReplaySegment_default_def split: option.splits)

lemma scan_item_other:
  assumes "replacement_of i = None"
  shows "effective_base (scan_item i rest st) = effective_base st"
    "rs_suffix (scan_item i rest st) = rs_suffix st"
  using assms
  by (cases "(i, rest, st)" rule: scan_item.cases;
      auto simp: effective_base_def Let_def ActiveReplaySegment_default_def finalize_active_segment_def
        split: option.splits if_splits)+

lemma scan_item_replacement:
  assumes "replacement_of i = Some h"
  shows "effective_base (scan_item i rest st) = (case effective_base st of Some b \<Rightarrow> Some b | None \<Rightarrow> Some h)"
    "rs_suffix (scan_item i rest st) = rest
      \<or> rs_suffix (scan_item i rest st) = rs_suffix st \<and> effective_base st \<noteq> None"
  using assms
  by (cases "(i, rest, st)" rule: scan_item.cases;
      auto simp: effective_base_def Let_def split: option.splits)+

lemma scan_inv_step:
  assumes "scan_inv rollout scanned st"
  shows "scan_inv rollout (i # scanned) (scan_item i scanned st)"
proof (cases "replacement_of i")
  case None
  have "suffix_ok rollout (i # scanned) suf" if "suffix_ok rollout scanned suf" for suf
    using that None by (auto simp: suffix_ok_def split: if_splits option.splits)
  with None assms show ?thesis
    by (simp add: scan_inv_def scan_item_other split: option.splits)
next
  case (Some h)
  have "suffix_ok rollout (i # scanned) (rs_suffix (scan_item i scanned st))"
    using scan_item_replacement(2)[OF Some, of scanned st]
  proof
    assume "rs_suffix (scan_item i scanned st) = scanned"
    with Some show ?thesis
      by (auto simp: suffix_ok_def split: option.splits intro!: exI[of _ "[]"])
  next
    assume same: "rs_suffix (scan_item i scanned st) = rs_suffix st \<and> effective_base st \<noteq> None"
    then have "last_replacement scanned \<noteq> None" using assms by (simp add: scan_inv_def)
    with assms obtain us j where "scanned = us @ j # rs_suffix st" "replacement_of j \<noteq> None"
      by (auto simp: scan_inv_def suffix_ok_def)
    with same \<open>last_replacement scanned \<noteq> None\<close> show ?thesis
      by (auto simp: suffix_ok_def intro!: exI[of _ "i # us"])
  qed
  with Some assms show ?thesis
    by (simp add: scan_inv_def scan_item_replacement(1)[OF Some] split: option.splits)
qed

lemma last_replacement_append:
  "last_replacement (xs @ ys) = (case last_replacement ys of Some h \<Rightarrow> Some h | None \<Rightarrow> last_replacement xs)"
  by (induction xs) (auto split: option.splits)

lemma scan_backwards_inv:
  assumes "scan_inv rollout scanned st" "rollout = rev earlier @ scanned"
  shows "\<exists>us scanned'. rollout = us @ scanned'
    \<and> scan_inv rollout scanned' (scan_backwards earlier scanned st)
    \<and> (us = [] \<or> rs_base (scan_backwards earlier scanned st) \<noteq> None)"
  using assms
proof (induction earlier arbitrary: scanned st)
  case Nil
  then show ?case by auto
next
  case (Cons i earlier)
  let ?st = "scan_item i scanned st"
  have inv: "scan_inv rollout (i # scanned) ?st" using Cons.prems(1) by (rule scan_inv_step)
  show ?case
  proof (cases "scan_done ?st")
    case True
    then have "scan_backwards (i # earlier) scanned st = ?st" "rs_base ?st \<noteq> None"
      by (simp_all add: Let_def scan_done_def)
    with inv Cons.prems(2) show ?thesis
      by (intro exI[of _ "rev earlier"] exI[of _ "i # scanned"]) (simp add: Let_def)
  next
    case False
    with Cons.IH[OF inv] Cons.prems(2) show ?thesis by (simp add: Let_def)
  qed
qed

text \<open>
  After the scan the base is the newest replacement history of the whole rollout, and the
  suffix to replay starts right behind some compaction that has one.
\<close>

lemma scan_rollout_spec:
  "rs_base (scan_rollout rollout) = last_replacement rollout
   \<and> suffix_ok rollout rollout (rs_suffix (scan_rollout rollout))"
proof -
  let ?st = "scan_backwards (rev rollout) [] (replay_init rollout)"
  have "scan_inv rollout [] (replay_init rollout)"
    by (simp add: scan_inv_def suffix_ok_def effective_base_def replay_init_def)
  from scan_backwards_inv[OF this, of "rev rollout"] obtain us scanned where
    u: "rollout = us @ scanned" "scan_inv rollout scanned ?st" "us = [] \<or> rs_base ?st \<noteq> None"
    unfolding rev_rev_ident append_Nil2 by blast
  have fin: "rs_base (scan_rollout rollout) = effective_base ?st"
    "rs_suffix (scan_rollout rollout) = rs_suffix ?st"
    by (auto simp: scan_rollout_def effective_base_def Let_def split: option.splits)
  have ok: "suffix_ok rollout scanned (rs_suffix ?st)" "effective_base ?st = last_replacement scanned"
    using u(2) by (simp_all add: scan_inv_def)
  show ?thesis
  proof (cases "us = []")
    case True
    with u(1) ok fin show ?thesis by simp
  next
    case False
    with u(3) have "rs_base ?st \<noteq> None" by simp
    then have "effective_base ?st \<noteq> None" by (auto simp: effective_base_def)
    then obtain h where h: "last_replacement scanned = Some h" using ok(2) by fastforce
    from ok(1) h obtain vs i where "scanned = vs @ i # rs_suffix ?st" "replacement_of i \<noteq> None"
      by (auto simp: suffix_ok_def)
    then have "\<exists>us i. rollout = us @ i # rs_suffix ?st \<and> replacement_of i \<noteq> None"
      using u(1) by (intro exI[of _ "us @ vs"] exI[of _ i]) simp
    moreover have "last_replacement rollout = Some h" using u(1) h by (simp add: last_replacement_append)
    ultimately show ?thesis
      using ok(2) h fin unfolding suffix_ok_def by simp
  qed
qed

section \<open>Replaying from a compaction\<close>

lemma items_replay_item:
  "items cm = items cm' \<Longrightarrow> items (replay_item policy cm i) = items (replay_item policy cm' i)"
  by (cases i) (simp_all add: replace_history_def items_record_items del: record_items.simps split: option.splits)

lemma items_replay_cong:
  "items cm = items cm' \<Longrightarrow> items (replay_items policy cm xs) = items (replay_items policy cm' xs)"
proof (induction xs arbitrary: cm cm')
  case (Cons x xs)
  show ?case using Cons.IH[OF items_replay_item[OF Cons.prems]] by (simp add: replay_items_def)
qed (simp add: replay_items_def)

lemma items_replay_from_replacement:
  assumes "replacement_of i = Some h"
  shows "items (replay_items policy cm (us @ i # vs)) = items (replay_items policy (replace_history cm' h) vs)"
proof -
  have "items (replay_item policy c i) = h" for c
    using assms by (cases i) (auto simp: replace_history_def)
  then show ?thesis
    using items_replay_cong[of "replay_item policy (replay_items policy cm us) i" "replace_history cm' h"]
    by (simp add: replay_items_def replace_history_def)
qed

lemma last_replacement_split:
  "last_replacement xs = Some h \<Longrightarrow>
     \<exists>us i vs. xs = us @ i # vs \<and> replacement_of i = Some h \<and> last_replacement vs = None"
proof (induction xs)
  case (Cons x xs)
  show ?case
  proof (cases "last_replacement xs")
    case None
    with Cons.prems show ?thesis by (intro exI[of _ "[]"]) simp
  next
    case (Some h')
    with Cons obtain us i vs where "xs = us @ i # vs" "replacement_of i = Some h" "last_replacement vs = None"
      by auto
    then show ?thesis by (intro exI[of _ "x # us"]) simp
  qed
qed simp

text \<open>With a replacement history in the list, where the replay starts from does not matter.\<close>

lemma items_replay_independent:
  assumes "last_replacement xs = Some h"
  shows "items (replay_items policy cm xs) = items (replay_items policy cm' xs)"
proof -
  from last_replacement_split[OF assms] obtain us i vs
    where "xs = us @ i # vs" "replacement_of i = Some h" by blast
  then show ?thesis
    using items_replay_from_replacement[of i h policy cm us vs cm]
      items_replay_from_replacement[of i h policy cm' us vs cm] by simp
qed

lemma reconstruct_equals_replay:
  "rr_history (reconstruct_history_from_rollout policy rollout)
     = items (replay_items policy ContextManager_new rollout)"
proof (cases "last_replacement rollout")
  case None
  with scan_rollout_spec[of rollout] show ?thesis
    by (simp add: reconstruct_history_from_rollout_def suffix_ok_def Let_def)
next
  case (Some h)
  let ?suf = "rs_suffix (scan_rollout rollout)"
  from Some scan_rollout_spec[of rollout] obtain us i h' where r: "rollout = us @ i # ?suf"
    "replacement_of i = Some h'" by (auto simp: suffix_ok_def)
  have all: "items (replay_items policy ContextManager_new rollout)
      = items (replay_items policy (replace_history ContextManager_new h') ?suf)"
    using items_replay_from_replacement[OF r(2)] r(1) by metis
  have "items (replay_items policy (replace_history ContextManager_new h) ?suf)
      = items (replay_items policy (replace_history ContextManager_new h') ?suf)"
  proof (cases "last_replacement ?suf")
    case None
    then have "last_replacement (us @ i # ?suf) = Some h'" using r(2) by (simp add: last_replacement_append)
    with r(1) Some show ?thesis by simp
  next
    case (Some h2)
    then show ?thesis by (rule items_replay_independent)
  qed
  with all Some scan_rollout_spec[of rollout] show ?thesis
    by (simp add: reconstruct_history_from_rollout_def Let_def)
qed

section \<open>Settings of the newest turn\<close>

text \<open>Items inside a turn that do not concern the scan but for user messages.\<close>

fun plain_item :: "RolloutItem \<Rightarrow> bool" where
  "plain_item (RResponseItem _) = True"
| "plain_item (RSessionMeta _) = True"
| "plain_item (REventMsg (TurnStarted _)) = False"
| "plain_item (REventMsg (TurnComplete _)) = False"
| "plain_item (REventMsg (TurnAborted _)) = False"
| "plain_item (REventMsg _) = True"
| "plain_item _ = False"

lemma scan_plain_item:
  assumes "plain_item i" "rs_active st = Some seg"
  shows "scan_item i rest st = st\<lparr>rs_active := Some (seg\<lparr>ars_counts_as_user_turn :=
    ars_counts_as_user_turn seg \<or> rollout_item_is_user_turn_boundary i\<rparr>)\<rparr>"
proof -
  have same: "st\<lparr>rs_active := Some seg\<rparr> = st" using assms(2) by (cases st) simp
  from assms same show ?thesis
    by (cases "(i, rest, st)" rule: scan_item.cases) (auto simp: active_or_default_def Let_def)
qed

lemma scan_plain_items:
  assumes "list_all plain_item xs" "rs_settings st = None" "rs_active st = Some seg"
  shows "scan_backwards (xs @ ys) rest st = scan_backwards ys (rev xs @ rest)
    (st\<lparr>rs_active := Some (seg\<lparr>ars_counts_as_user_turn :=
      ars_counts_as_user_turn seg \<or> list_ex rollout_item_is_user_turn_boundary xs\<rparr>)\<rparr>)"
  using assms
proof (induction xs arbitrary: rest st seg)
  case Nil
  then show ?case by (cases st) simp
next
  case (Cons x xs)
  then show ?case
    by (simp add: scan_plain_item[OF _ Cons.prems(3)] Let_def scan_done_def disj_assoc)
qed

lemma finalize_keeps_found:
  "rs_settings st = Some s \<Longrightarrow> rs_settings (finalize_active_segment seg st) = Some s"
  "rs_reference st = Latest c \<Longrightarrow> rs_reference (finalize_active_segment seg st) = Latest c"
  by (simp_all add: finalize_active_segment_def Let_def)

lemma scan_item_keeps_found:
  "rs_settings st = Some s \<Longrightarrow> rs_settings (scan_item i rest st) = Some s"
  "rs_reference st = Latest c \<Longrightarrow> rs_reference (scan_item i rest st) = Latest c"
  by (cases "(i, rest, st)" rule: scan_item.cases;
      auto simp: Let_def finalize_keeps_found split: option.splits)+

lemma scan_keeps_found:
  "rs_settings st = Some s \<Longrightarrow> rs_settings (scan_backwards xs rest st) = Some s"
  "rs_reference st = Latest c \<Longrightarrow> rs_reference (scan_backwards xs rest st) = Latest c"
  by (induction xs arbitrary: rest st) (simp_all add: Let_def scan_item_keeps_found)

lemma scan_last_turn:
  assumes "list_all plain_item b1" "list_all plain_item b2"
    and "list_ex rollout_item_is_user_turn_boundary (b1 @ b2)"
    and "tse_turn_id e = t" "tci_turn_id c = Some t" "tce_turn_id d = t"
  shows "let st = scan_backwards
        (REventMsg (TurnComplete d) # rev b2 @ RTurnContext c # rev b1 @ REventMsg (TurnStarted e) # pre)
        [] (replay_init rollout)
    in rs_settings st = Some \<lparr>pts_model = tci_model c\<rparr> \<and> rs_reference st = Latest c"
proof -
  have p: "list_all plain_item (rev b1)" "list_all plain_item (rev b2)" using assms(1,2) by simp_all
  have u: "list_ex rollout_item_is_user_turn_boundary (rev b2) \<or> list_ex rollout_item_is_user_turn_boundary (rev b1)"
    using assms(3) by (auto simp: list_ex_iff)
  show ?thesis
    using u
    by (simp add: Let_def scan_done_def replay_init_def active_or_default_def ActiveReplaySegment_default_def
        assms(4-6) scan_plain_items[OF p(2)] scan_plain_items[OF p(1)] finalize_active_segment_def
        scan_keeps_found)
qed

section \<open>User messages and user turns are the same thing\<close>

lemma user_message_iff_boundary: "is_user_message_item i \<longleftrightarrow> rollout_item_is_user_turn_boundary i"
  by (cases i rule: is_user_message_item.cases)
    (auto simp: parse_user_message_def split: option.splits)

definition user_turn_count :: "RolloutItem list \<Rightarrow> nat" where
  "user_turn_count rollout = length (filter rollout_item_is_user_turn_boundary rollout)"

lemma user_positions_nth:
  "n < length (user_positions_from k xs) \<Longrightarrow>
     \<exists>us y vs. xs = us @ y # vs \<and> user_positions_from k xs ! n = k + length us
       \<and> is_user_message_item y \<and> length (filter is_user_message_item us) = n"
proof (induction xs arbitrary: k n)
  case (Cons x xs)
  show ?case
  proof (cases "is_user_message_item x \<and> n = 0")
    case True
    then show ?thesis by (intro exI[of _ "[]"]) simp
  next
    case False
    define m where "m = (if is_user_message_item x then n - 1 else n)"
    from Cons.prems False have "m < length (user_positions_from (Suc k) xs)"
      by (auto simp: m_def split: if_splits)
    from Cons.IH[OF this] obtain us y vs where "xs = us @ y # vs"
      "user_positions_from (Suc k) xs ! m = Suc k + length us" "is_user_message_item y"
      "length (filter is_user_message_item us) = m" by blast
    with False show ?thesis
      by (intro exI[of _ "x # us"] exI[of _ y] exI[of _ vs]) (auto simp: m_def nth_Cons')
  qed
qed simp

lemma length_user_positions: "length (user_positions_from k xs) = length (filter is_user_message_item xs)"
  by (induction xs arbitrary: k) auto

section \<open>Properties\<close>

text \<open>
  C3: the history rebuilt from a rollout is the history a replay of the whole rollout from
  its beginning gives, although the source replays only what follows the compaction its
  backward scan settled on.
\<close>

theorem reconstruction_is_full_replay:
  "rr_history (reconstruct_history_from_rollout policy rollout)
     = items (foldl (replay_item policy) ContextManager_new rollout)"
  using reconstruct_equals_replay by (simp add: replay_items_def)



text \<open>
  C30: cutting a rollout before its \<open>n\<close>-th user message keeps a prefix with exactly \<open>n\<close> user
  turns and stops right at the next one; a rollout with at most \<open>n\<close> user turns is kept whole.
  What counts as a user message here is exactly what the history counts as a user turn.
\<close>

theorem truncate_rollout_keeps_n_user_turns:
  assumes "user_turn_count rollout < usize_MAX"
  shows "if user_turn_count rollout \<le> n
    then truncate_rollout_before_nth_user_message_from_start rollout n = rollout
    else \<exists>y rest. rollout = truncate_rollout_before_nth_user_message_from_start rollout n @ y # rest
      \<and> rollout_item_is_user_turn_boundary y
      \<and> user_turn_count (truncate_rollout_before_nth_user_message_from_start rollout n) = n"
proof -
  have count: "user_turn_count xs = length (filter is_user_message_item xs)" for xs
    by (simp add: user_turn_count_def user_message_iff_boundary cong: filter_cong)
  show ?thesis
  proof (cases "user_turn_count rollout \<le> n")
    case True
    then show ?thesis
      by (simp add: truncate_rollout_before_nth_user_message_from_start_def
          user_message_positions_in_rollout_def length_user_positions count Let_def)
  next
    case False
    then have n: "n < length (user_positions_from 0 rollout)" "n \<noteq> usize_MAX"
      using assms by (simp_all add: length_user_positions count)
    from user_positions_nth[OF n(1)] obtain us y vs where "rollout = us @ y # vs"
      "user_positions_from 0 rollout ! n = length us" "is_user_message_item y"
      "length (filter is_user_message_item us) = n" by auto
    moreover from this n have "truncate_rollout_before_nth_user_message_from_start rollout n = us"
      by (simp add: truncate_rollout_before_nth_user_message_from_start_def
          user_message_positions_in_rollout_def Let_def)
    ultimately show ?thesis using False by (auto simp: user_message_iff_boundary count)
  qed
qed

theorem truncate_rollout_keeps_n_user_turns_witness:
  "let rollout = [RResponseItem (Message None ''user'' [InputText ''a''] None),
         RResponseItem (Message None ''user'' [InputText ''b''] None)]
   in user_turn_count (truncate_rollout_before_nth_user_message_from_start rollout 1) = 1"
proof -
  let ?r = "[RResponseItem (Message None ''user'' [InputText ''a''] None),
         RResponseItem (Message None ''user'' [InputText ''b''] None)]"
  have "user_turn_count ?r = 2" by code_simp
  then show ?thesis
    using truncate_rollout_keeps_n_user_turns[of ?r 1] by (auto simp: int_limits Let_def)
qed

end
