(* ===== verification/Session_State.thy ===== *)
theory Session_State
  imports Rollout_Reconstruction
begin

text \<open>
  The mutable state of a session, from \<open>codex-rs/core/src/state\<close> and
  \<open>codex-rs/core/src/session/input_queue.rs\<close>: the store of additional context, the
  auto-compaction window, rate limits, the session record around the history, the state of the
  active turn and its queue of pending input.

  Every operation locks the state it changes, so a run of the program is a sequence of
  operations; what holds of every run is stated over the reachable states of a step relation.
  The session configuration, the prewarm handle and the channel to a waiting tool are carried
  along untouched and are type parameters.
\<close>

section \<open>Additional context\<close>

datatype AdditionalContextKind = Untrusted | Application

record AdditionalContextEntry =
  ace_value :: string
  ace_kind :: AdditionalContextKind

text \<open>A \<open>BTreeMap\<close> is the association list its iterator yields, in ascending order of keys.\<close>

type_synonym context_map = "(string \<times> AdditionalContextEntry) list"

record AdditionalContextStore =
  acs_values :: context_map

definition AdditionalContextStore_default :: AdditionalContextStore where
  "AdditionalContextStore_default = \<lparr>acs_values = []\<rparr>"

fun entry_fragment :: "string \<times> AdditionalContextEntry \<Rightarrow> ResponseInputItem" where
  "entry_fragment (key, entry) =
     (case ace_kind entry of
        Untrusted \<Rightarrow> fragment_into_response_input_item ''user''
          (render_additional_user \<lparr>acf_key = key, acf_value = ace_value entry\<rparr>)
      | Application \<Rightarrow> fragment_into_response_input_item ''developer''
          (render_additional_developer \<lparr>acf_key = key, acf_value = ace_value entry\<rparr>))"

definition additional_context_merge ::
  "AdditionalContextStore \<Rightarrow> context_map \<Rightarrow> AdditionalContextStore \<times> ResponseInputItem list" where
  "additional_context_merge store values =
     (store\<lparr>acs_values := values\<rparr>,
      map entry_fragment
        (filter (\<lambda>(key, value). map_of (acs_values store) key \<noteq> Some value) values))"

section \<open>The auto-compaction window\<close>

datatype AutoCompactWindowPrefill = ServerObserved i64 | Estimated i64

record AutoCompactWindow =
  acw_ordinal :: u64
  acw_prefill_input_tokens :: "AutoCompactWindowPrefill option"

record AutoCompactWindowSnapshot =
  acs_ordinal :: u64
  acs_prefill_input_tokens :: "i64 option"

definition AutoCompactWindow_new :: AutoCompactWindow where
  "AutoCompactWindow_new = \<lparr>acw_ordinal = 1, acw_prefill_input_tokens = None\<rparr>"

definition clear_prefill :: "AutoCompactWindow \<Rightarrow> AutoCompactWindow" where
  "clear_prefill w = w\<lparr>acw_prefill_input_tokens := None\<rparr>"

definition start_next :: "AutoCompactWindow \<Rightarrow> AutoCompactWindow" where
  "start_next w = clear_prefill (w\<lparr>acw_ordinal := u64_sat_inc (acw_ordinal w)\<rparr>)"

definition is_server_observed :: "AutoCompactWindow \<Rightarrow> bool" where
  "is_server_observed w =
     (case acw_prefill_input_tokens w of Some (ServerObserved _) \<Rightarrow> True | _ \<Rightarrow> False)"

definition ensure_server_observed_prefill_from_usage ::
  "AutoCompactWindow \<Rightarrow> TokenUsage \<Rightarrow> AutoCompactWindow" where
  "ensure_server_observed_prefill_from_usage w usage =
     (if is_server_observed w then w
      else w\<lparr>acw_prefill_input_tokens := Some (ServerObserved (max (input_tokens usage) 0))\<rparr>)"

definition set_estimated_prefill :: "AutoCompactWindow \<Rightarrow> i64 \<Rightarrow> AutoCompactWindow" where
  "set_estimated_prefill w tokens =
     (if is_server_observed w then w
      else w\<lparr>acw_prefill_input_tokens := Some (Estimated (max tokens 0))\<rparr>)"

definition window_snapshot :: "AutoCompactWindow \<Rightarrow> AutoCompactWindowSnapshot" where
  "window_snapshot w =
     \<lparr>acs_ordinal = acw_ordinal w,
      acs_prefill_input_tokens =
        (case acw_prefill_input_tokens w of
           Some (ServerObserved t) \<Rightarrow> Some t
         | Some (Estimated t) \<Rightarrow> Some t
         | None \<Rightarrow> None)\<rparr>"

section \<open>Rate limits\<close>

definition merge_rate_limit_fields :: "RateLimitSnapshot option \<Rightarrow> RateLimitSnapshot \<Rightarrow> RateLimitSnapshot" where
  "merge_rate_limit_fields previous snapshot =
     (let s1 = (if rls_limit_id snapshot = None then snapshot\<lparr>rls_limit_id := Some ''codex''\<rparr> else snapshot);
          s2 = (if rls_credits s1 = None
                then s1\<lparr>rls_credits := Option.bind previous rls_credits\<rparr> else s1);
          s3 = (if rls_individual_limit s2 = None
                then s2\<lparr>rls_individual_limit := Option.bind previous rls_individual_limit\<rparr> else s2)
      in if rls_plan_type s3 = None
         then s3\<lparr>rls_plan_type := Option.bind previous rls_plan_type\<rparr> else s3)"

section \<open>The session\<close>

record ('cfg, 'prewarm) SessionState =
  ss_session_configuration :: 'cfg
  ss_history :: ContextManager
  ss_latest_rate_limits :: "RateLimitSnapshot option"
  ss_server_reasoning_included :: bool
  ss_additional_context :: AdditionalContextStore
  ss_previous_turn_settings :: "PreviousTurnSettings option"
  ss_auto_compact_window :: AutoCompactWindow
  ss_startup_prewarm :: "'prewarm option"
  ss_next_turn_is_first :: bool

definition SessionState_new :: "'cfg \<Rightarrow> ('cfg, 'prewarm) SessionState" where
  "SessionState_new cfg =
     \<lparr>ss_session_configuration = cfg, ss_history = ContextManager_new, ss_latest_rate_limits = None,
      ss_server_reasoning_included = False, ss_additional_context = AdditionalContextStore_default,
      ss_previous_turn_settings = None, ss_auto_compact_window = AutoCompactWindow_new,
      ss_startup_prewarm = None, ss_next_turn_is_first = True\<rparr>"

definition session_record_items ::
  "('cfg, 'p) SessionState \<Rightarrow> ResponseItem list \<Rightarrow> TruncationPolicy \<Rightarrow> ('cfg, 'p) SessionState" where
  "session_record_items s is policy = s\<lparr>ss_history := record_items (ss_history s) is policy\<rparr>"

definition session_replace_history ::
  "('cfg, 'p) SessionState \<Rightarrow> ResponseItem list \<Rightarrow> TurnContextItem option \<Rightarrow> ('cfg, 'p) SessionState" where
  "session_replace_history s is reference =
     s\<lparr>ss_history := set_reference_context_item (replace_history (ss_history s) is) reference,
       ss_auto_compact_window := clear_prefill (ss_auto_compact_window s)\<rparr>"

definition session_set_token_info ::
  "('cfg, 'p) SessionState \<Rightarrow> TokenUsageInfo option \<Rightarrow> ('cfg, 'p) SessionState" where
  "session_set_token_info s info = s\<lparr>ss_history := set_token_info (ss_history s) info\<rparr>"

definition session_set_reference_context_item ::
  "('cfg, 'p) SessionState \<Rightarrow> TurnContextItem option \<Rightarrow> ('cfg, 'p) SessionState" where
  "session_set_reference_context_item s item =
     s\<lparr>ss_history := set_reference_context_item (ss_history s) item\<rparr>"

definition update_token_info_from_usage ::
  "('cfg, 'p) SessionState \<Rightarrow> TokenUsage \<Rightarrow> i64 option \<Rightarrow> ('cfg, 'p) SessionState" where
  "update_token_info_from_usage s usage window =
     s\<lparr>ss_history := update_token_info (ss_history s) usage window\<rparr>"

definition ensure_auto_compact_window_server_prefill_from_usage ::
  "('cfg, 'p) SessionState \<Rightarrow> TokenUsage \<Rightarrow> ('cfg, 'p) SessionState" where
  "ensure_auto_compact_window_server_prefill_from_usage s usage =
     s\<lparr>ss_auto_compact_window :=
         ensure_server_observed_prefill_from_usage (ss_auto_compact_window s) usage\<rparr>"

definition set_auto_compact_window_estimated_prefill ::
  "('cfg, 'p) SessionState \<Rightarrow> i64 \<Rightarrow> ('cfg, 'p) SessionState" where
  "set_auto_compact_window_estimated_prefill s tokens =
     s\<lparr>ss_auto_compact_window := set_estimated_prefill (ss_auto_compact_window s) tokens\<rparr>"

definition start_next_auto_compact_window :: "('cfg, 'p) SessionState \<Rightarrow> ('cfg, 'p) SessionState" where
  "start_next_auto_compact_window s =
     s\<lparr>ss_auto_compact_window := start_next (ss_auto_compact_window s)\<rparr>"

definition set_rate_limits ::
  "('cfg, 'p) SessionState \<Rightarrow> RateLimitSnapshot \<Rightarrow> ('cfg, 'p) SessionState" where
  "set_rate_limits s snapshot =
     s\<lparr>ss_latest_rate_limits := Some (merge_rate_limit_fields (ss_latest_rate_limits s) snapshot)\<rparr>"

definition token_info_and_rate_limits ::
  "('cfg, 'p) SessionState \<Rightarrow> TokenUsageInfo option \<times> RateLimitSnapshot option" where
  "token_info_and_rate_limits s = (token_info (ss_history s), ss_latest_rate_limits s)"

definition set_previous_turn_settings ::
  "('cfg, 'p) SessionState \<Rightarrow> PreviousTurnSettings option \<Rightarrow> ('cfg, 'p) SessionState" where
  "set_previous_turn_settings s settings = s\<lparr>ss_previous_turn_settings := settings\<rparr>"

definition set_next_turn_is_first :: "('cfg, 'p) SessionState \<Rightarrow> bool \<Rightarrow> ('cfg, 'p) SessionState" where
  "set_next_turn_is_first s v = s\<lparr>ss_next_turn_is_first := v\<rparr>"

definition set_server_reasoning_included :: "('cfg, 'p) SessionState \<Rightarrow> bool \<Rightarrow> ('cfg, 'p) SessionState" where
  "set_server_reasoning_included s v = s\<lparr>ss_server_reasoning_included := v\<rparr>"

definition set_session_startup_prewarm :: "('cfg, 'p) SessionState \<Rightarrow> 'p \<Rightarrow> ('cfg, 'p) SessionState" where
  "set_session_startup_prewarm s p = s\<lparr>ss_startup_prewarm := Some p\<rparr>"

definition take_session_startup_prewarm ::
  "('cfg, 'p) SessionState \<Rightarrow> ('cfg, 'p) SessionState \<times> 'p option" where
  "take_session_startup_prewarm s = (s\<lparr>ss_startup_prewarm := None\<rparr>, ss_startup_prewarm s)"

section \<open>Turn state and pending input\<close>

datatype TurnInput =
    Input_User "UserInput list" "string option"
  | Input_ResponseItem ResponseInputItem

datatype TaskKind = Task_Regular | Task_Compact

record 'tx TurnState =
  ts_pending_dynamic_tools :: "string \<rightharpoonup> 'tx"
  ts_pending_input :: "TurnInput list"
  ts_tool_calls :: u64
  ts_token_usage_at_turn_start :: TokenUsage

definition TurnState_default :: "'tx TurnState" where
  "TurnState_default = \<lparr>ts_pending_dynamic_tools = Map.empty, ts_pending_input = [],
     ts_tool_calls = 0, ts_token_usage_at_turn_start = TokenUsage_default\<rparr>"

definition clear_pending_waiters :: "'tx TurnState \<Rightarrow> 'tx TurnState" where
  "clear_pending_waiters t = t\<lparr>ts_pending_dynamic_tools := Map.empty\<rparr>"

definition insert_pending_dynamic_tool :: "'tx TurnState \<Rightarrow> string \<Rightarrow> 'tx \<Rightarrow> 'tx TurnState \<times> 'tx option" where
  "insert_pending_dynamic_tool t key tx =
     (t\<lparr>ts_pending_dynamic_tools := (ts_pending_dynamic_tools t)(key \<mapsto> tx)\<rparr>,
      ts_pending_dynamic_tools t key)"

definition remove_pending_dynamic_tool :: "'tx TurnState \<Rightarrow> string \<Rightarrow> 'tx TurnState \<times> 'tx option" where
  "remove_pending_dynamic_tool t key =
     (t\<lparr>ts_pending_dynamic_tools := (ts_pending_dynamic_tools t)(key := None)\<rparr>,
      ts_pending_dynamic_tools t key)"

definition clear_pending :: "'tx TurnState \<Rightarrow> 'tx TurnState" where
  "clear_pending t = (clear_pending_waiters t)\<lparr>ts_pending_input := []\<rparr>"

definition extend_pending_input_for_turn_state :: "'tx TurnState \<Rightarrow> TurnInput list \<Rightarrow> 'tx TurnState" where
  "extend_pending_input_for_turn_state t input = t\<lparr>ts_pending_input := ts_pending_input t @ input\<rparr>"

definition take_pending_input_for_turn_state :: "'tx TurnState \<Rightarrow> 'tx TurnState \<times> TurnInput list" where
  "take_pending_input_for_turn_state t = (t\<lparr>ts_pending_input := []\<rparr>, ts_pending_input t)"

text \<open>The same through the session's \<open>Mutex<Option<ActiveTurn>>\<close>.\<close>

definition get_pending_input :: "'tx TurnState option \<Rightarrow> 'tx TurnState option \<times> TurnInput list" where
  "get_pending_input active =
     (case active of
        Some t \<Rightarrow> (let (t', is) = take_pending_input_for_turn_state t in (Some t', is))
      | None \<Rightarrow> (None, []))"

definition has_pending_input :: "'tx TurnState option \<Rightarrow> bool" where
  "has_pending_input active =
     (case active of Some t \<Rightarrow> ts_pending_input t \<noteq> [] | None \<Rightarrow> False)"

definition take_queued_response_items_for_next_turn ::
  "ResponseInputItem list \<Rightarrow> ResponseInputItem list \<times> ResponseInputItem list" where
  "take_queued_response_items_for_next_turn idle_pending_input = ([], idle_pending_input)"

definition has_queued_response_items_for_next_turn :: "ResponseInputItem list \<Rightarrow> bool" where
  "has_queued_response_items_for_next_turn idle_pending_input = (idle_pending_input \<noteq> [])"

section \<open>Runs of the pending-input queue\<close>

text \<open>
  A run keeps two ledgers beside the turn state: what was accepted and not cleared, and what
  was delivered to the turn.
\<close>

record 'tx queue_run =
  qr_turn :: "'tx TurnState"
  qr_accepted :: "TurnInput list"
  qr_delivered :: "TurnInput list"

definition queue_init :: "'tx queue_run \<Rightarrow> bool" where
  "queue_init r \<longleftrightarrow> r = \<lparr>qr_turn = TurnState_default, qr_accepted = [], qr_delivered = []\<rparr>"

inductive queue_step :: "'tx queue_run \<Rightarrow> 'tx queue_run \<Rightarrow> bool" where
  q_extend: "queue_step r (r\<lparr>qr_turn := extend_pending_input_for_turn_state (qr_turn r) is,
      qr_accepted := qr_accepted r @ is\<rparr>)"
| q_take: "get_pending_input (Some (qr_turn r)) = (Some t, is) \<Longrightarrow>
      queue_step r (r\<lparr>qr_turn := t, qr_delivered := qr_delivered r @ is\<rparr>)"
| q_clear: "queue_step r (r\<lparr>qr_turn := clear_pending (qr_turn r), qr_accepted := qr_delivered r\<rparr>)"
| q_tool: "queue_step r (r\<lparr>qr_turn := fst (insert_pending_dynamic_tool (qr_turn r) key tx)\<rparr>)"
| q_answer: "queue_step r (r\<lparr>qr_turn := fst (remove_pending_dynamic_tool (qr_turn r) key)\<rparr>)"

lemmas turn_state_defs = extend_pending_input_for_turn_state_def take_pending_input_for_turn_state_def
  get_pending_input_def clear_pending_def clear_pending_waiters_def insert_pending_dynamic_tool_def
  remove_pending_dynamic_tool_def

interpretation queue_inv: step_invariant "queue_init :: 'tx queue_run \<Rightarrow> bool" queue_step
  "\<lambda>r. qr_accepted r = qr_delivered r @ ts_pending_input (qr_turn r)"
proof unfold_locales
  fix r r' :: "'tx queue_run"
  assume inv: "qr_accepted r = qr_delivered r @ ts_pending_input (qr_turn r)"
  assume "queue_step r r'"
  from this inv show "qr_accepted r' = qr_delivered r' @ ts_pending_input (qr_turn r')"
    by (cases rule: queue_step.cases) (auto simp: turn_state_defs)
qed (simp add: queue_init_def TurnState_default_def)

section \<open>Runs of the auto-compaction window\<close>

inductive window_step :: "AutoCompactWindow \<Rightarrow> AutoCompactWindow \<Rightarrow> bool" where
  w_server: "window_step w (ensure_server_observed_prefill_from_usage w usage)"
| w_estimate: "window_step w (set_estimated_prefill w tokens)"
| w_clear: "window_step w (clear_prefill w)"
| w_next: "window_step w (start_next w)"

definition window_ok :: "AutoCompactWindow \<Rightarrow> bool" where
  "window_ok w \<longleftrightarrow> 1 \<le> acw_ordinal w \<and> acw_ordinal w \<le> u64_MAX
     \<and> (case acs_prefill_input_tokens (window_snapshot w) of None \<Rightarrow> True | Some t \<Rightarrow> 0 \<le> t)"

lemmas window_defs = ensure_server_observed_prefill_from_usage_def set_estimated_prefill_def
  clear_prefill_def start_next_def window_snapshot_def u64_sat_inc_def

interpretation window_inv: step_invariant "\<lambda>w. w = AutoCompactWindow_new" window_step window_ok
proof unfold_locales
  fix w w' assume inv: "window_ok w" and "window_step w w'"
  from this(2) inv show "window_ok w'"
    by (cases rule: window_step.cases)
      (auto simp: window_ok_def window_defs int_limits split: if_splits)
qed (simp add: AutoCompactWindow_new_def window_ok_def window_snapshot_def int_limits)

section \<open>Sticky rate-limit fields\<close>

definition set_rate_limits_all :: "RateLimitSnapshot option \<Rightarrow> RateLimitSnapshot list \<Rightarrow> RateLimitSnapshot option" where
  "set_rate_limits_all prev xs = foldl (\<lambda>p x. Some (merge_rate_limit_fields p x)) prev xs"

lemma merge_rate_limit_fields_simps [simp]:
  "rls_limit_id (merge_rate_limit_fields p x) = Some (case rls_limit_id x of Some i \<Rightarrow> i | None \<Rightarrow> ''codex'')"
  "rls_credits (merge_rate_limit_fields p x)
     = (case rls_credits x of Some c \<Rightarrow> Some c | None \<Rightarrow> Option.bind p rls_credits)"
  "rls_individual_limit (merge_rate_limit_fields p x)
     = (case rls_individual_limit x of Some c \<Rightarrow> Some c | None \<Rightarrow> Option.bind p rls_individual_limit)"
  "rls_plan_type (merge_rate_limit_fields p x)
     = (case rls_plan_type x of Some c \<Rightarrow> Some c | None \<Rightarrow> Option.bind p rls_plan_type)"
  "rls_primary (merge_rate_limit_fields p x) = rls_primary x"
  "rls_secondary (merge_rate_limit_fields p x) = rls_secondary x"
  "rls_reached_type (merge_rate_limit_fields p x) = rls_reached_type x"
  by (simp_all add: merge_rate_limit_fields_def Let_def split: option.splits)

lemma sticky_field:
  assumes "\<And>p x. f (merge_rate_limit_fields p x) = (case f x of Some c \<Rightarrow> Some c | None \<Rightarrow> Option.bind p f)"
  shows "Option.bind (set_rate_limits_all prev xs) f
    = (case find_map f (rev xs) of Some c \<Rightarrow> Some c | None \<Rightarrow> Option.bind prev f)"
proof (induction xs rule: rev_induct)
  case (snoc x xs)
  then show ?case by (auto simp: set_rate_limits_all_def assms split: option.splits)
qed (simp add: set_rate_limits_all_def)

lemma sticky_field_from_start:
  assumes "\<And>p x. f (merge_rate_limit_fields p x) = (case f x of Some c \<Rightarrow> Some c | None \<Rightarrow> Option.bind p f)"
  shows "Option.bind (set_rate_limits_all None xs) f = find_map f (rev xs)"
  using sticky_field[of f None xs] assms by (auto split: option.splits)

section \<open>Properties\<close>

text \<open>
  C11: in every run of the input queue nothing is lost, duplicated or reordered: what was
  accepted and not cleared is what was delivered followed by what is still pending.
\<close>

theorem pending_input_is_fifo:
  assumes "reachable queue_init queue_step (r :: 'tx queue_run)"
  shows "qr_accepted r = qr_delivered r @ ts_pending_input (qr_turn r)"
  using assms by (rule queue_inv.reachable_inv)

theorem pending_input_is_fifo_witness:
  "\<exists>r :: unit queue_run. reachable queue_init queue_step r
     \<and> qr_accepted r = qr_delivered r @ ts_pending_input (qr_turn r)
     \<and> qr_accepted r = [Input_User [] None]"
proof -
  let ?i = "\<lparr>qr_turn = TurnState_default, qr_accepted = [], qr_delivered = []\<rparr> :: unit queue_run"
  let ?r = "?i\<lparr>qr_turn := extend_pending_input_for_turn_state (qr_turn ?i) [Input_User [] None],
      qr_accepted := qr_accepted ?i @ [Input_User [] None]\<rparr>"
  have "reachable queue_init queue_step ?i" by (rule reach_init) (simp add: queue_init_def)
  moreover have "queue_step ?i ?r" by (rule q_extend)
  ultimately have "reachable queue_init queue_step ?r" by (rule reach_step)
  from pending_input_is_fifo[OF this] this show ?thesis by (intro exI[of _ ?r]) simp
qed

text \<open>
  C31: the auto-compaction window. In every run its ordinal lies between 1 and the largest
  \<open>u64\<close>, never goes down, and the prefill is never negative; a prefill the server reported
  is not overwritten by a later report or an estimate, only by clearing or the next window.
\<close>

theorem auto_compact_window_runs:
  assumes "reachable (\<lambda>w. w = AutoCompactWindow_new) window_step w" "window_step w w'"
  shows "window_ok w \<and> window_ok w' \<and> acw_ordinal w \<le> acw_ordinal w'
    \<and> (is_server_observed w \<longrightarrow> w' = w \<or> acw_prefill_input_tokens w' = None)"
proof -
  have ok: "window_ok w" "window_ok w'"
    using assms window_inv.reachable_inv reach_step[OF assms] by blast+
  show ?thesis
    using assms(2) ok
    by (cases rule: window_step.cases) (auto simp: window_defs window_ok_def)
qed

theorem auto_compact_window_runs_witness:
  "window_ok (start_next AutoCompactWindow_new)"
  using auto_compact_window_runs[OF reach_init w_next, of AutoCompactWindow_new] by simp

text \<open>
  C32: rate limits are merged so that credits, individual limit and plan type keep the last
  value any snapshot carried, while the windows and the reached limit are those of the newest
  snapshot and the limit always has an id.
\<close>

theorem rate_limit_fields_are_sticky:
  assumes "set_rate_limits_all None (xs @ [x]) = Some r"
  shows "rls_credits r = find_map rls_credits (rev (xs @ [x]))
    \<and> rls_individual_limit r = find_map rls_individual_limit (rev (xs @ [x]))
    \<and> rls_plan_type r = find_map rls_plan_type (rev (xs @ [x]))
    \<and> rls_limit_id r \<noteq> None \<and> rls_primary r = rls_primary x \<and> rls_secondary r = rls_secondary x
    \<and> rls_reached_type r = rls_reached_type x"
proof -
  have r: "r = merge_rate_limit_fields (set_rate_limits_all None xs) x"
    using assms by (simp add: set_rate_limits_all_def)
  show ?thesis
    using sticky_field_from_start[of rls_credits "xs @ [x]"]
      sticky_field_from_start[of rls_individual_limit "xs @ [x]"]
      sticky_field_from_start[of rls_plan_type "xs @ [x]"] assms
    by (simp del: rev_append) (simp add: r)
qed

theorem rate_limit_fields_are_sticky_witness:
  "let x = \<lparr>rls_limit_id = None, rls_limit_name = None, rls_primary = None, rls_secondary = None,
       rls_credits = None, rls_individual_limit = None, rls_plan_type = Some Plan_Pro, rls_reached_type = None\<rparr>;
       y = x\<lparr>rls_plan_type := None\<rparr>
   in \<exists>r. set_rate_limits_all None ([x] @ [y]) = Some r \<and> rls_plan_type r = Some Plan_Pro"
proof -
  let ?x = "\<lparr>rls_limit_id = None, rls_limit_name = None, rls_primary = None, rls_secondary = None,
       rls_credits = None, rls_individual_limit = None, rls_plan_type = Some Plan_Pro, rls_reached_type = None\<rparr>"
  let ?y = "?x\<lparr>rls_plan_type := None\<rparr>"
  obtain r where r: "set_rate_limits_all None ([?x] @ [?y]) = Some r"
    by (simp add: set_rate_limits_all_def)
  from rate_limit_fields_are_sticky[OF r] r show ?thesis by (simp add: Let_def)
qed

text \<open>
  C33: additional context. Merging the same values a second time adds nothing; an entry is
  rendered exactly when the store did not hold it unchanged; and no rendered entry is a user
  message of the conversation (for untrusted entries as long as the key has no \<open>>\<close>).
\<close>

theorem additional_context_merge_behaviour:
  assumes "distinct (map fst (acs_values store))" "distinct (map fst values)"
    and "list_all (\<lambda>(key, e). ace_kind e = Untrusted \<longrightarrow> CHR ''>'' \<notin> set key) values"
  shows "let (store', fragments) = additional_context_merge store values in
    snd (additional_context_merge store' values) = []
    \<and> fragments = map entry_fragment (filter (\<lambda>kv. kv \<notin> set (acs_values store)) values)
    \<and> list_all (\<lambda>f. parse_turn_item uuid (response_item_of_input f) = None) fragments"
proof -
  have "parse_turn_item uuid (response_item_of_input (entry_fragment (k, e))) = None"
    if "(k, e) \<in> set values" for k e
  proof (cases "ace_kind e")
    case Untrusted
    with that assms(3) have "CHR ''>'' \<notin> set k" by (auto simp: list_all_iff)
    then have "is_contextual_user_message_content
        [InputText (render_additional_user \<lparr>acf_key = k, acf_value = ace_value e\<rparr>)]"
      by (intro additional_fragment.message_is_contextual) simp_all
    with Untrusted show ?thesis
      by (simp add: fragment_into_response_input_item_def parse_user_message_def)
  qed (simp add: fragment_into_response_input_item_def)
  moreover have "(\<lambda>(key, value). map_of (acs_values store) key \<noteq> Some value)
      = (\<lambda>kv. kv \<notin> set (acs_values store))"
    using map_of_eq_Some_iff[OF assms(1)] by auto
  moreover have "filter (\<lambda>(key, value). map_of values key \<noteq> Some value) values = []"
    using map_of_eq_Some_iff[OF assms(2)] by (auto simp: filter_empty_conv)
  ultimately show ?thesis
    by (auto simp: additional_context_merge_def list_all_iff)
qed

theorem additional_context_merge_behaviour_witness:
  "let values = [(''app'', \<lparr>ace_value = ''state'', ace_kind = Application\<rparr>),
       (''selection'', \<lparr>ace_value = ''text'', ace_kind = Untrusted\<rparr>)];
       (store', fragments) = additional_context_merge AdditionalContextStore_default values
   in snd (additional_context_merge store' values) = [] \<and> length fragments = 2"
proof -
  let ?v = "[(''app'', \<lparr>ace_value = ''state'', ace_kind = Application\<rparr>),
       (''selection'', \<lparr>ace_value = ''text'', ace_kind = Untrusted\<rparr>)]"
  have "list_all (\<lambda>(key, e). ace_kind e = Untrusted \<longrightarrow> CHR ''>'' \<notin> set key) ?v" by simp
  from additional_context_merge_behaviour[of AdditionalContextStore_default ?v, OF _ _ this, of "''u''"]
  show ?thesis by (simp add: AdditionalContextStore_default_def Let_def case_prod_beta)
qed

end
