(* ===== verification/Head_Tail_Buffer.thy ===== *)
theory Head_Tail_Buffer
  imports Codex_Prelude
begin

text \<open>
  The bounded output buffer of a running process, from
  \<open>codex-rs/core/src/unified_exec/head_tail_buffer.rs\<close>: it keeps the beginning and the end of a
  byte stream that arrives in chunks and counts what it dropped in between.

  The abstract view of a buffer is the stream pushed since it was last drained; the lemmas
  show that every operation refines the corresponding operation on streams.
\<close>

type_synonym chunk = string

record HeadTailBuffer =
  max_bytes :: usize
  head_budget :: usize
  tail_budget :: usize
  head :: "chunk list"
  tail :: "chunk list"
  head_bytes :: usize
  tail_bytes :: usize
  omitted_bytes :: usize

definition UNIFIED_EXEC_OUTPUT_MAX_BYTES :: usize where
  "UNIFIED_EXEC_OUTPUT_MAX_BYTES = 1024 * 1024"

definition HeadTailBuffer_new :: "usize \<Rightarrow> HeadTailBuffer" where
  "HeadTailBuffer_new mb =
     (let hb = mb div 2; tb = usize_sat_sub mb hb in
      \<lparr>max_bytes = mb, head_budget = hb, tail_budget = tb, head = [], tail = [],
       head_bytes = 0, tail_bytes = 0, omitted_bytes = 0\<rparr>)"

definition HeadTailBuffer_default :: HeadTailBuffer where
  "HeadTailBuffer_default = HeadTailBuffer_new UNIFIED_EXEC_OUTPUT_MAX_BYTES"

definition retained_bytes :: "HeadTailBuffer \<Rightarrow> usize" where
  "retained_bytes b = usize_sat_add (head_bytes b) (tail_bytes b)"

text \<open>The loop of \<open>trim_tail_to_budget\<close>: the chunks, \<open>tail_bytes\<close> and \<open>omitted_bytes\<close> it leaves.\<close>

fun trim_loop :: "usize \<Rightarrow> chunk list \<Rightarrow> usize \<Rightarrow> usize \<Rightarrow> chunk list \<times> usize \<times> usize" where
  "trim_loop excess [] tb om = ([], tb, om)"
| "trim_loop excess (front # rest) tb om =
     (if excess = 0 then (front # rest, tb, om)
      else if length front \<le> excess then
        trim_loop (excess - length front) rest (usize_sat_sub tb (length front))
          (usize_sat_add om (length front))
      else (drop excess front # rest, usize_sat_sub tb excess, usize_sat_add om excess))"

definition trim_tail_to_budget :: "HeadTailBuffer \<Rightarrow> HeadTailBuffer" where
  "trim_tail_to_budget b =
     (let excess = usize_sat_sub (tail_bytes b) (tail_budget b);
          (tl', tb, om) = trim_loop excess (tail b) (tail_bytes b) (omitted_bytes b)
      in b\<lparr>tail := tl', tail_bytes := tb, omitted_bytes := om\<rparr>)"

definition push_to_tail :: "HeadTailBuffer \<Rightarrow> chunk \<Rightarrow> HeadTailBuffer" where
  "push_to_tail b c =
     (if tail_budget b = 0 then b\<lparr>omitted_bytes := usize_sat_add (omitted_bytes b) (length c)\<rparr>
      else if length c \<ge> tail_budget b then
        (let start = usize_sat_sub (length c) (tail_budget b);
             kept = drop start c;
             dropped = usize_sat_sub (length c) (length kept)
         in b\<lparr>omitted_bytes := usize_sat_add (usize_sat_add (omitted_bytes b) (tail_bytes b)) dropped,
              tail_bytes := length kept, tail := [kept]\<rparr>)
      else trim_tail_to_budget
             (b\<lparr>tail_bytes := usize_sat_add (tail_bytes b) (length c), tail := tail b @ [c]\<rparr>))"

definition push_chunk :: "HeadTailBuffer \<Rightarrow> chunk \<Rightarrow> HeadTailBuffer" where
  "push_chunk b c =
     (if max_bytes b = 0 then b\<lparr>omitted_bytes := usize_sat_add (omitted_bytes b) (length c)\<rparr>
      else if head_bytes b < head_budget b then
        (let remaining_head = usize_sat_sub (head_budget b) (head_bytes b) in
         if length c \<le> remaining_head then
           b\<lparr>head_bytes := usize_sat_add (head_bytes b) (length c), head := head b @ [c]\<rparr>
         else
           let head_part = take remaining_head c; tail_part = drop remaining_head c;
               b1 = (if head_part \<noteq> []
                     then b\<lparr>head_bytes := usize_sat_add (head_bytes b) (length head_part),
                            head := head b @ [head_part]\<rparr> else b)
           in push_to_tail b1 tail_part)
      else push_to_tail b c)"

definition to_bytes :: "HeadTailBuffer \<Rightarrow> string" where
  "to_bytes b = concat (head b) @ concat (tail b)"

definition drain_chunks :: "HeadTailBuffer \<Rightarrow> HeadTailBuffer \<times> chunk list" where
  "drain_chunks b =
     (b\<lparr>head := [], tail := [], head_bytes := 0, tail_bytes := 0, omitted_bytes := 0\<rparr>,
      head b @ tail b)"

section \<open>The abstract view\<close>

definition take_last :: "nat \<Rightarrow> 'a list \<Rightarrow> 'a list" where
  "take_last n xs = drop (length xs - n) xs"

lemma length_take_last [simp]: "length (take_last n xs) = min n (length xs)"
  by (simp add: take_last_def)

lemma take_last_short [simp]: "length xs \<le> n \<Longrightarrow> take_last n xs = xs"
  by (simp add: take_last_def)

lemma take_last_append_long: "n \<le> length ys \<Longrightarrow> take_last n (xs @ ys) = take_last n ys"
  by (simp add: take_last_def)

lemma take_last_idem: "take_last n (take_last n xs @ ys) = take_last n (xs @ ys)"
proof (cases "length ys \<le> n")
  case True
  then have "length (take_last n xs @ ys) - n = min n (length xs) + length ys - n" by simp
  with True show ?thesis by (auto simp: take_last_def min_def drop_append add.commute)
next
  case False
  then show ?thesis by (simp add: take_last_append_long)
qed

text \<open>
  The invariant, with the stream as a parameter: budgets split the maximum, head and tail are
  the two ends of the stream, and the counters count.
\<close>

definition budgets_ok :: "HeadTailBuffer \<Rightarrow> bool" where
  "budgets_ok b \<longleftrightarrow> head_budget b = max_bytes b div 2 \<and> tail_budget b = max_bytes b - max_bytes b div 2"

definition holds_stream :: "HeadTailBuffer \<Rightarrow> string \<Rightarrow> bool" where
  "holds_stream b s \<longleftrightarrow> budgets_ok b
     \<and> concat (head b) = take (head_budget b) s \<and> head_bytes b = length (take (head_budget b) s)
     \<and> concat (tail b) = take_last (tail_budget b) (drop (head_budget b) s)
     \<and> tail_bytes b = length (take_last (tail_budget b) (drop (head_budget b) s))
     \<and> omitted_bytes b + head_bytes b + tail_bytes b = length s"

lemma budgets_ok_update [simp]:
  "budgets_ok (b\<lparr>head := h\<rparr>) = budgets_ok b" "budgets_ok (b\<lparr>tail := h\<rparr>) = budgets_ok b"
  "budgets_ok (b\<lparr>head_bytes := n\<rparr>) = budgets_ok b" "budgets_ok (b\<lparr>tail_bytes := n\<rparr>) = budgets_ok b"
  "budgets_ok (b\<lparr>omitted_bytes := n\<rparr>) = budgets_ok b"
  by (simp_all add: budgets_ok_def)

lemma budgets_ok_push_to_tail [simp]: "budgets_ok (push_to_tail b c) = budgets_ok b"
  by (simp add: push_to_tail_def trim_tail_to_budget_def Let_def case_prod_beta)

lemma budgets_ok_zero: "budgets_ok b \<Longrightarrow> max_bytes b = 0 \<Longrightarrow> head_budget b = 0 \<and> tail_budget b = 0"
  by (simp add: budgets_ok_def)

lemma trim_loop_spec:
  assumes "excess \<le> length (concat chunks)" "tb = length (concat chunks)" "om + excess \<le> usize_MAX"
  shows "\<exists>chunks'. trim_loop excess chunks tb om = (chunks', tb - excess, om + excess)
    \<and> concat chunks' = drop excess (concat chunks)"
  using assms
proof (induction excess chunks tb om rule: trim_loop.induct)
  case (2 excess front rest tb om)
  show ?case
  proof (cases "excess = 0 \<or> \<not> length front \<le> excess")
    case True
    with 2 show ?thesis by (auto simp: sat_simps)
  next
    case False
    then have ih: "\<exists>chunks'. trim_loop (excess - length front) rest (usize_sat_sub tb (length front))
          (usize_sat_add om (length front))
        = (chunks', usize_sat_sub tb (length front) - (excess - length front),
           usize_sat_add om (length front) + (excess - length front))
        \<and> concat chunks' = drop (excess - length front) (concat rest)"
      using "2.prems" by (intro "2.IH") (auto simp: sat_simps)
    have "om + length front \<le> usize_MAX" using False "2.prems" by simp
    with ih False "2.prems" show ?thesis by (auto simp: sat_simps min_def add.commute)
  qed
qed simp

lemma push_to_tail_spec:
  assumes "concat (tail b) = take_last (tail_budget b) d"
    "tail_bytes b = length (take_last (tail_budget b) d)"
    "omitted_bytes b + length (take_last (tail_budget b) d) + length c \<le> usize_MAX"
  shows "concat (tail (push_to_tail b c)) = take_last (tail_budget b) (d @ c)
    \<and> tail_bytes (push_to_tail b c) = length (take_last (tail_budget b) (d @ c))
    \<and> omitted_bytes (push_to_tail b c) + length (take_last (tail_budget b) (d @ c))
        = omitted_bytes b + length (take_last (tail_budget b) d) + length c
    \<and> max_bytes (push_to_tail b c) = max_bytes b \<and> head_budget (push_to_tail b c) = head_budget b
    \<and> tail_budget (push_to_tail b c) = tail_budget b \<and> head (push_to_tail b c) = head b
    \<and> head_bytes (push_to_tail b c) = head_bytes b"
proof -
  let ?tb = "tail_budget b"
  consider "?tb = 0" | "?tb \<noteq> 0" "?tb \<le> length c" | "?tb \<noteq> 0" "length c < ?tb" by linarith
  then show ?thesis
  proof cases
    case 1
    with assms show ?thesis
      by (auto simp: push_to_tail_def take_last_def sat_simps)
  next
    case 2
    with assms show ?thesis
      by (auto simp: push_to_tail_def take_last_append_long sat_simps Let_def)
        (auto simp: take_last_def)
  next
    case 3
    let ?ex = "tail_bytes b + length c - ?tb"
    have small: "tail_bytes b + length c \<le> usize_MAX" using assms(2,3) by simp
    have pre: "?ex \<le> length (concat (tail b @ [c]))" "tail_bytes b + length c = length (concat (tail b @ [c]))"
      "omitted_bytes b + ?ex \<le> usize_MAX" using assms by auto
    from trim_loop_spec[OF pre] obtain t where
      t: "trim_loop ?ex (tail b @ [c]) (tail_bytes b + length c) (omitted_bytes b)
        = (t, tail_bytes b + length c - ?ex, omitted_bytes b + ?ex)"
      "concat t = drop ?ex (concat (tail b @ [c]))" by blast
    have eq: "push_to_tail b c = b\<lparr>tail := t, tail_bytes := tail_bytes b + length c - ?ex,
        omitted_bytes := omitted_bytes b + ?ex\<rparr>"
      using 3 small t(1) by (simp add: push_to_tail_def trim_tail_to_budget_def sat_simps Let_def)
    have "concat t = take_last ?tb (concat (tail b) @ c)"
      using t(2) assms(1,2) by (simp add: take_last_def)
    then have "concat t = take_last ?tb (d @ c)" using assms(1) by (simp add: take_last_idem)
    moreover have "tail_bytes b + length c - ?ex = min ?tb (length d + length c)"
      using assms(2) 3 by (auto simp: min_def)
    ultimately show ?thesis unfolding eq using assms(2) by (auto simp: min_def)
  qed
qed

lemma push_chunk_full_head:
  assumes "holds_stream b s" "length (s @ c) \<le> usize_MAX" "head_budget b \<le> length s"
  shows "holds_stream (push_to_tail b c) (s @ c)"
proof -
  note inv = assms(1)[unfolded holds_stream_def]
  have "omitted_bytes b + length (take_last (tail_budget b) (drop (head_budget b) s)) + length c \<le> usize_MAX"
    using inv assms(2) by simp
  with push_to_tail_spec[of b "drop (head_budget b) s" c] inv assms(3) show ?thesis
    by (simp add: holds_stream_def)
qed

lemma push_chunk_split:
  assumes "holds_stream b s" "length (s @ c) \<le> usize_MAX"
    "length s < head_budget b" "head_budget b < length (s @ c)"
  shows "holds_stream (push_chunk b c) (s @ c)"
proof -
  note inv = assms(1)[unfolded holds_stream_def]
  let ?n = "head_budget b - length s"
  let ?b = "b\<lparr>head_bytes := head_budget b, head := head b @ [take ?n c]\<rparr>"
  have hd: "head_bytes b = length s" "concat (head b) = s" "concat (tail b) = []" "tail_bytes b = 0"
    "omitted_bytes b = 0" using inv assms(3) by simp_all
  have "max_bytes b \<noteq> 0" using inv assms(3) budgets_ok_zero[of b] by auto
  then have eq: "push_chunk b c = push_to_tail ?b (drop ?n c)"
    using assms hd by (simp add: push_chunk_def sat_simps Let_def)
  have "concat (tail ?b) = take_last (tail_budget ?b) []" "tail_bytes ?b = length (take_last (tail_budget ?b) [])"
    "omitted_bytes ?b + length (take_last (tail_budget ?b) []) + length (drop ?n c) \<le> usize_MAX"
    using hd assms(2) by simp_all
  note spec = push_to_tail_spec[OF this]
  define r where "r = push_to_tail ?b (drop ?n c)"
  have "budgets_ok r" using inv by (simp add: r_def)
  moreover have "head_budget r = head_budget b" "tail_budget r = tail_budget b"
    "head r = head b @ [take ?n c]" "head_bytes r = head_budget b"
    "concat (tail r) = take_last (tail_budget b) (drop ?n c)"
    "tail_bytes r = length (take_last (tail_budget b) (drop ?n c))"
    "omitted_bytes r + length (take_last (tail_budget b) (drop ?n c)) = length (drop ?n c)"
    using spec hd(5) by (simp_all add: r_def)
  moreover have "head_budget b + length (drop ?n c) = length s + length c" using assms(3,4) by simp
  ultimately show ?thesis
    unfolding eq r_def[symmetric] holds_stream_def using hd(2) assms(3,4) by (simp del: length_drop)
qed

lemma push_chunk_holds:
  assumes "holds_stream b s" "length (s @ c) \<le> usize_MAX"
  shows "holds_stream (push_chunk b c) (s @ c)"
proof -
  note inv = assms(1)[unfolded holds_stream_def]
  consider "max_bytes b = 0" | "max_bytes b \<noteq> 0" "length (s @ c) \<le> head_budget b" "length s < head_budget b"
    | "length s < head_budget b" "head_budget b < length (s @ c)"
    | "max_bytes b \<noteq> 0" "head_budget b \<le> length s" by linarith
  then show ?thesis
  proof cases
    case 1
    then have eq: "push_chunk b c = b\<lparr>omitted_bytes := omitted_bytes b + length c\<rparr>"
      using inv assms(2) by (simp add: push_chunk_def sat_simps)
    show ?thesis
      unfolding eq using 1 inv budgets_ok_zero[of b] by (simp add: holds_stream_def take_last_def)
  next
    case 2
    then have "push_chunk b c = b\<lparr>head_bytes := length s + length c, head := head b @ [c]\<rparr>"
      using inv assms(2) by (simp add: push_chunk_def sat_simps Let_def)
    with 2 inv show ?thesis by (simp add: holds_stream_def)
  next
    case 3
    with assms show ?thesis by (intro push_chunk_split)
  next
    case 4
    then have "push_chunk b c = push_to_tail b c" using inv by (simp add: push_chunk_def)
    with push_chunk_full_head[OF assms 4(2)] show ?thesis by simp
  qed
qed

lemma max_bytes_push_chunk [simp]: "max_bytes (push_chunk b c) = max_bytes b"
proof -
  have "max_bytes (push_to_tail b' c') = max_bytes b'" for b' c'
    by (simp add: push_to_tail_def trim_tail_to_budget_def Let_def case_prod_beta)
  then show ?thesis by (simp add: push_chunk_def Let_def)
qed

lemma holds_stream_new: "holds_stream (HeadTailBuffer_new mb) []"
  by (simp add: holds_stream_def budgets_ok_def HeadTailBuffer_new_def sat_simps Let_def)

section \<open>Runs\<close>

text \<open>A run of the buffer beside the stream it has seen since it was last drained.\<close>

datatype buffer_op = Push chunk | Drain

fun run_op :: "HeadTailBuffer \<times> string \<Rightarrow> buffer_op \<Rightarrow> HeadTailBuffer \<times> string" where
  "run_op (b, s) (Push c) = (push_chunk b c, s @ c)"
| "run_op (b, s) Drain = (fst (drain_chunks b), [])"

fun pushed_bytes :: "buffer_op list \<Rightarrow> nat" where
  "pushed_bytes [] = 0"
| "pushed_bytes (Push c # ops) = length c + pushed_bytes ops"
| "pushed_bytes (Drain # ops) = pushed_bytes ops"

lemma run_holds:
  assumes "holds_stream b s" "length s + pushed_bytes ops \<le> usize_MAX"
  shows "holds_stream (fst (foldl run_op (b, s) ops)) (snd (foldl run_op (b, s) ops))
    \<and> max_bytes (fst (foldl run_op (b, s) ops)) = max_bytes b"
  using assms
proof (induction ops arbitrary: b s)
  case (Cons op ops)
  show ?case
  proof (cases op)
    case (Push c)
    with Cons.prems have "holds_stream (push_chunk b c) (s @ c)" by (intro push_chunk_holds) auto
    from Cons.IH[OF this] Push Cons.prems(2) show ?thesis by simp
  next
    case Drain
    have "holds_stream (fst (drain_chunks b)) []"
      using Cons.prems(1) by (simp add: holds_stream_def drain_chunks_def)
    from Cons.IH[OF this] Drain Cons.prems(2) show ?thesis by (simp add: drain_chunks_def)
  qed
qed simp

section \<open>Properties\<close>

text \<open>
  C9: whatever chunks a process writes and however often the buffer is drained in between,
  the buffer holds exactly the first \<open>max / 2\<close> bytes and the last \<open>max - max / 2\<close> of the
  remaining bytes of the stream since the last drain, reports how many bytes are missing
  between the two, and never retains more than its maximum.
\<close>

theorem head_tail_buffer_contents:
  assumes "pushed_bytes ops \<le> usize_MAX" "mb \<le> usize_MAX"
    and "foldl run_op (HeadTailBuffer_new mb, []) ops = (b, s)"
  shows "to_bytes b = take (mb div 2) s @ take_last (mb - mb div 2) (drop (mb div 2) s)
    \<and> retained_bytes b = length (to_bytes b) \<and> length (to_bytes b) \<le> mb
    \<and> omitted_bytes b + length (to_bytes b) = length s"
proof -
  have "holds_stream b s" "max_bytes b = mb"
    using run_holds[OF holds_stream_new, of ops mb] assms by (simp_all add: HeadTailBuffer_new_def Let_def)
  then have bud: "head_budget b = mb div 2" "tail_budget b = mb - mb div 2"
    and st: "concat (head b) = take (head_budget b) s" "head_bytes b = length (take (head_budget b) s)"
    "concat (tail b) = take_last (tail_budget b) (drop (head_budget b) s)"
    "tail_bytes b = length (take_last (tail_budget b) (drop (head_budget b) s))"
    "omitted_bytes b + head_bytes b + tail_bytes b = length s"
    unfolding holds_stream_def budgets_ok_def by blast+
  have tb: "to_bytes b = take (mb div 2) s @ take_last (mb - mb div 2) (drop (mb div 2) s)"
    by (simp only: to_bytes_def st bud)
  have len: "length (to_bytes b) = head_bytes b + tail_bytes b" by (simp add: to_bytes_def st)
  have "head_bytes b \<le> mb div 2" "tail_bytes b \<le> mb - mb div 2" by (simp_all only: st bud length_take length_take_last min.cobounded1)
  moreover have "mb div 2 + (mb - mb div 2) = mb" by simp
  ultimately have "length (to_bytes b) \<le> mb" unfolding len by linarith
  with assms(2) tb st(5) len show ?thesis by (simp add: retained_bytes_def sat_simps)
qed

theorem head_tail_buffer_contents_witness:
  "to_bytes (push_chunk (push_chunk (HeadTailBuffer_new 4) ''abc'') ''defg'') = ''abfg''
   \<and> omitted_bytes (push_chunk (push_chunk (HeadTailBuffer_new 4) ''abc'') ''defg'') = 3"
  using head_tail_buffer_contents[of "[Push ''abc'', Push ''defg'']" 4
      "push_chunk (push_chunk (HeadTailBuffer_new 4) ''abc'') ''defg''" "''abcdefg''"]
  by (auto simp: int_limits take_last_def)

end
