(* ===== verification/Template_Rendering.thy ===== *)
theory Template_Rendering
  imports Utf8_Text "HOL-Library.List_Lexorder" "HOL-Library.Char_ord"
begin

text \<open>
  Prompt templates, from \<open>codex-rs/utils/template/src/lib.rs\<close>: parsing \<open>{{ name }}\<close>
  placeholders and the escapes \<open>{{{{\<close> and \<open>}}}}\<close>, and rendering with exactly the variables
  the template names. Sorted sets and maps are ascending lists; strings compare by their bytes.
\<close>

section \<open>Data\<close>

datatype TemplateParseError =
    EmptyPlaceholder usize
  | NestedPlaceholder usize
  | UnmatchedClosingDelimiter usize
  | UnterminatedPlaceholder usize

datatype TemplateRenderError = DuplicateValue string | ExtraValue string | MissingValue string

datatype TemplateError = Template_Parse TemplateParseError | Template_Render TemplateRenderError

datatype Segment = Literal string | Placeholder string

record Template =
  placeholders :: "string list"
  segments :: "Segment list"

abbreviation OPEN :: string where "OPEN \<equiv> ''{{''"
abbreviation CLOSE :: string where "CLOSE \<equiv> ''}}''"

text \<open>
  In the format strings of \<open>write!\<close> a doubled brace stands for one brace, so the messages name a
  single brace although the delimiters have two.
\<close>

fun parse_error_display :: "TemplateParseError \<Rightarrow> string" where
  "parse_error_display (EmptyPlaceholder start) =
     ''template placeholder at byte '' @ nat_to_string start @ '' is empty''"
| "parse_error_display (NestedPlaceholder start) =
     ''template placeholder starting at byte '' @ nat_to_string start @ '' contains a nested `{`''"
| "parse_error_display (UnmatchedClosingDelimiter start) =
     ''template contains an unmatched `}` at byte '' @ nat_to_string start"
| "parse_error_display (UnterminatedPlaceholder start) =
     ''template placeholder starting at byte '' @ nat_to_string start @ '' is missing `}`''"

fun render_error_display :: "TemplateRenderError \<Rightarrow> string" where
  "render_error_display (DuplicateValue name) = ''template value `'' @ name @ ''` was provided more than once''"
| "render_error_display (ExtraValue name) = ''template value `'' @ name @ ''` is not used by this template''"
| "render_error_display (MissingValue name) = ''template placeholder `'' @ name @ ''` is missing a value''"

section \<open>Parsing\<close>

text \<open>\<open>segments\<close> is kept in order; the last one is \<open>last\<close>.\<close>

definition push_literal :: "Segment list \<Rightarrow> string \<Rightarrow> Segment list" where
  "push_literal segs lit =
     (if lit = [] then segs
      else case rev segs of
             Literal existing # before \<Rightarrow> rev before @ [Literal (existing @ lit)]
           | _ \<Rightarrow> segs @ [Literal lit])"

definition slice :: "string \<Rightarrow> usize \<Rightarrow> usize \<Rightarrow> string" where
  "slice s a b = take (b - a) (drop a s)"

text \<open>\<open>rest.chars().next()\<close> and its \<open>len_utf8\<close>, for a rest that is not empty.\<close>

definition next_char_len :: "string \<Rightarrow> usize" where
  "next_char_len rest = length (hd (utf8_chars rest))"

lemma next_char_len_pos: "rest \<noteq> [] \<Longrightarrow> 0 < next_char_len rest"
  by (cases rest) (simp_all add: next_char_len_def)

function parse_placeholder_loop :: "string \<Rightarrow> usize \<Rightarrow> usize \<Rightarrow> TemplateParseError + (string \<times> usize)" where
  "parse_placeholder_loop source start cursor =
     (if cursor < length source then
        (let rest = drop cursor source in
         if starts_with rest OPEN then Inl (NestedPlaceholder start)
         else if starts_with rest CLOSE then
           (let placeholder = trim (slice source (start + 2) cursor) in
            if placeholder = [] then Inl (EmptyPlaceholder start)
            else Inr (placeholder, cursor + 2))
         else parse_placeholder_loop source start (cursor + next_char_len rest))
      else Inl (UnterminatedPlaceholder start))"
  by pat_completeness auto
termination
  by (relation "measure (\<lambda>(source, start, cursor). length source - cursor)")
    (auto simp: next_char_len_pos diff_less_mono2)

declare parse_placeholder_loop.simps [simp del]

definition parse_placeholder :: "string \<Rightarrow> usize \<Rightarrow> TemplateParseError + (string \<times> usize)" where
  "parse_placeholder source start = parse_placeholder_loop source start (start + 2)"

lemma parse_placeholder_loop_advances:
  "parse_placeholder_loop source start cursor = Inr (p, n) \<Longrightarrow> cursor < n"
proof (induction source start cursor rule: parse_placeholder_loop.induct)
  case (1 source start cursor)
  from "1.prems" show ?case
    using "1.IH" by (subst (asm) parse_placeholder_loop.simps) (fastforce simp: Let_def split: if_splits)
qed

function parse_loop ::
  "string \<Rightarrow> usize \<Rightarrow> usize \<Rightarrow> Segment list \<Rightarrow> string list \<Rightarrow> TemplateParseError + Template" where
  "parse_loop source cursor literal_start segs names =
     (if cursor < length source then
        (let rest = drop cursor source; pending = slice source literal_start cursor in
         if starts_with rest ''{{{{'' then
           parse_loop source (cursor + 4) (cursor + 4) (push_literal (push_literal segs pending) OPEN) names
         else if starts_with rest ''}}}}'' then
           parse_loop source (cursor + 4) (cursor + 4) (push_literal (push_literal segs pending) CLOSE) names
         else if starts_with rest OPEN then
           (case parse_placeholder source cursor of
              Inl e \<Rightarrow> Inl e
            | Inr (p, next_cursor) \<Rightarrow>
                parse_loop source next_cursor next_cursor
                  (push_literal segs pending @ [Placeholder p]) (insort_insert p names))
         else if starts_with rest CLOSE then Inl (UnmatchedClosingDelimiter cursor)
         else parse_loop source (cursor + next_char_len rest) literal_start segs names)
      else Inr \<lparr>placeholders = names, segments = push_literal segs (drop literal_start source)\<rparr>)"
  by pat_completeness auto
termination
proof (relation "measure (\<lambda>(source, cursor, _, _, _). length source - cursor)", goal_cases)
  case (4 source cursor literal_start segs names rest pending b p next_cursor)
  then have "cursor < next_cursor"
    using parse_placeholder_loop_advances[of source cursor "cursor + 2" p next_cursor]
    by (simp add: parse_placeholder_def)
  with 4 show ?case by (simp add: diff_less_mono2)
qed (auto simp: next_char_len_pos diff_less_mono2)

declare parse_loop.simps [simp del]

definition Template_parse :: "string \<Rightarrow> TemplateParseError + Template" where
  "Template_parse source = parse_loop source 0 0 [] []"

section \<open>Rendering\<close>

text \<open>The map under construction is an association list in ascending order of names.\<close>

fun build_variable_map ::
  "(string \<times> string) list \<Rightarrow> (string \<times> string) list \<Rightarrow> TemplateRenderError + (string \<times> string) list" where
  "build_variable_map [] acc = Inr acc"
| "build_variable_map ((name, val) # rest) acc =
     (if name \<in> fst ` set acc then Inl (DuplicateValue name)
      else build_variable_map rest (insort_key fst (name, val) acc))"

fun render_segments :: "(string \<times> string) list \<Rightarrow> Segment list \<Rightarrow> TemplateRenderError + string" where
  "render_segments vars [] = Inr []"
| "render_segments vars (Literal lit # rest) =
     (case render_segments vars rest of Inl e \<Rightarrow> Inl e | Inr out \<Rightarrow> Inr (lit @ out))"
| "render_segments vars (Placeholder name # rest) =
     (case map_of vars name of
        None \<Rightarrow> Inl (MissingValue name)
      | Some val \<Rightarrow>
          (case render_segments vars rest of Inl e \<Rightarrow> Inl e | Inr out \<Rightarrow> Inr (val @ out)))"

definition Template_render :: "Template \<Rightarrow> (string \<times> string) list \<Rightarrow> TemplateRenderError + string" where
  "Template_render t variables =
     (case build_variable_map variables [] of
        Inl e \<Rightarrow> Inl e
      | Inr vars \<Rightarrow>
          (case filter (\<lambda>p. p \<notin> fst ` set vars) (placeholders t) of
             p # _ \<Rightarrow> Inl (MissingValue p)
           | [] \<Rightarrow>
               (case filter (\<lambda>n. n \<notin> set (placeholders t)) (map fst vars) of
                  n # _ \<Rightarrow> Inl (ExtraValue n)
                | [] \<Rightarrow> render_segments vars (segments t))))"

definition render_template :: "string \<Rightarrow> (string \<times> string) list \<Rightarrow> TemplateError + string" where
  "render_template source variables =
     (case Template_parse source of
        Inl e \<Rightarrow> Inl (Template_Parse e)
      | Inr t \<Rightarrow>
          (case Template_render t variables of Inl e \<Rightarrow> Inl (Template_Render e) | Inr out \<Rightarrow> Inr out))"

section \<open>What a parsed template is\<close>

fun seg_name :: "Segment \<Rightarrow> string option" where
  "seg_name (Placeholder n) = Some n"
| "seg_name (Literal _) = None"

definition seg_names :: "Segment list \<Rightarrow> string set" where
  "seg_names segs = set (List.map_filter seg_name segs)"

fun seg_value :: "(string \<times> string) list \<Rightarrow> Segment \<Rightarrow> string" where
  "seg_value vars (Literal lit) = lit"
| "seg_value vars (Placeholder n) = (case map_of vars n of Some v \<Rightarrow> v | None \<Rightarrow> [])"

definition names_ok :: "string list \<Rightarrow> Segment list \<Rightarrow> bool" where
  "names_ok names segs \<longleftrightarrow> sorted names \<and> distinct names \<and> set names = seg_names segs"

lemma seg_names_simps [simp]:
  "seg_names [] = {}" "seg_names (xs @ ys) = seg_names xs \<union> seg_names ys"
  "seg_names (Literal l # xs) = seg_names xs" "seg_names (Placeholder n # xs) = insert n (seg_names xs)"
  by (auto simp: seg_names_def in_map_filter)

lemma push_literal_cases:
  obtains "push_literal segs lit = segs" "lit = []"
  | before l where "segs = before @ [Literal l]" "push_literal segs lit = before @ [Literal (l @ lit)]"
  | "push_literal segs lit = segs @ [Literal lit]"
proof (cases "lit = []")
  case False
  show ?thesis
  proof (cases "rev segs")
    case (Cons x xs)
    then have segs: "segs = rev xs @ [x]" by (metis rev.simps(2) rev_rev_ident)
    show ?thesis
      using that False Cons segs by (cases x) (auto simp: push_literal_def)
  qed (use that False in \<open>auto simp: push_literal_def\<close>)
qed (use that in \<open>auto simp: push_literal_def\<close>)

lemma push_literal_names [simp]: "seg_names (push_literal segs lit) = seg_names segs"
  by (cases segs lit rule: push_literal_cases) auto

lemma push_literal_value [simp]:
  "concat (map (seg_value vars) (push_literal segs lit)) = concat (map (seg_value vars) segs) @ lit"
  by (cases segs lit rule: push_literal_cases) auto

lemma names_ok_insert: "names_ok names segs \<Longrightarrow> names_ok (insort_insert p names) (segs @ [Placeholder p])"
  by (simp add: names_ok_def sorted_insort_insert distinct_insort_insert set_insort_insert)

lemma parse_loop_names:
  "parse_loop source cursor lit segs names = Inr t \<Longrightarrow> names_ok names segs
     \<Longrightarrow> names_ok (placeholders t) (segments t)"
proof (induction source cursor lit segs names rule: parse_loop.induct)
  case (1 source cursor lit segs names)
  have push: "names_ok names (push_literal xs l)" if "names_ok names xs" for xs l
    using that by (simp add: names_ok_def)
  let ?rest = "drop cursor source" and ?pend = "slice source lit cursor"
  show ?case
  proof (cases "cursor < length source")
    case False
    with "1.prems" push show ?thesis by (subst (asm) parse_loop.simps) auto
  next
    case True
    consider "starts_with ?rest ''{{{{''" | "\<not> starts_with ?rest ''{{{{''" "starts_with ?rest ''}}}}''"
      | "\<not> starts_with ?rest ''{{{{''" "\<not> starts_with ?rest ''}}}}''" "starts_with ?rest OPEN"
      | "\<not> starts_with ?rest ''{{{{''" "\<not> starts_with ?rest ''}}}}''" "\<not> starts_with ?rest OPEN"
        "\<not> starts_with ?rest CLOSE"
      | "\<not> starts_with ?rest ''{{{{''" "\<not> starts_with ?rest ''}}}}''" "\<not> starts_with ?rest OPEN"
        "starts_with ?rest CLOSE" by blast
    then show ?thesis
    proof cases
      case 1
      show ?thesis
        using "1.IH"(1)[OF True refl refl 1] "1.prems" True 1 push
        by (subst (asm) (2) parse_loop.simps) (simp add: Let_def)
    next
      case 2
      show ?thesis
        using "1.IH"(2)[OF True refl refl 2] "1.prems" True 2 push
        by (subst (asm) (2) parse_loop.simps) (simp add: Let_def)
    next
      case 3
      then obtain p n where p: "parse_placeholder source cursor = Inr (p, n)"
        "parse_loop source n n (push_literal segs ?pend @ [Placeholder p]) (insort_insert p names) = Inr t"
        using "1.prems"(1) True
        by (subst (asm) parse_loop.simps) (auto simp: Let_def split: sum.splits prod.splits)
      from "1.IH"(3)[OF True refl refl 3 p(1) refl p(2)] names_ok_insert[OF push[OF "1.prems"(2)]]
      show ?thesis by simp
    next
      case 4
      show ?thesis
        using "1.IH"(4)[OF True refl refl 4] "1.prems" True 4
        by (subst (asm) (2) parse_loop.simps) (simp add: Let_def)
    next
      case 5
      with "1.prems"(1) True show ?thesis by (subst (asm) parse_loop.simps) (simp add: Let_def)
    qed
  qed
qed

lemma Template_parse_names: "Template_parse source = Inr t \<Longrightarrow> names_ok (placeholders t) (segments t)"
  unfolding Template_parse_def by (erule parse_loop_names) (simp add: names_ok_def)

section \<open>Rendering succeeds exactly on the named variables\<close>

lemma distinct_fst_insort:
  "distinct (map fst (insort_key fst x acc)) \<longleftrightarrow> fst x \<notin> fst ` set acc \<and> distinct (map fst acc)"
  by (induction acc) (auto simp: set_insort_key)

lemma build_variable_map_ok:
  assumes "distinct (map fst vars)" "fst ` set vars \<inter> fst ` set acc = {}" "distinct (map fst acc)"
  shows "\<exists>m. build_variable_map vars acc = Inr m \<and> set m = set vars \<union> set acc \<and> distinct (map fst m)"
  using assms
proof (induction vars acc rule: build_variable_map.induct)
  case (2 name val rest acc)
  have "distinct (map fst (insort_key fst (name, val) acc))"
    using "2.prems" by (auto simp: distinct_fst_insort)
  moreover have "fst ` set rest \<inter> fst ` set (insort_key fst (name, val) acc) = {}"
    using "2.prems" by (auto simp: set_insort_key)
  moreover have new: "name \<notin> fst ` set acc" "distinct (map fst rest)" using "2.prems" by auto
  ultimately obtain m where "build_variable_map rest (insort_key fst (name, val) acc) = Inr m"
    "set m = set rest \<union> set (insort_key fst (name, val) acc)" "distinct (map fst m)"
    using "2.IH"[OF new(1)] by blast
  with new(1) show ?case by (intro exI[of _ m]) (auto simp: set_insort_key)
qed simp

lemma build_variable_map_dup:
  "\<not> distinct (map fst vars) \<or> fst ` set vars \<inter> fst ` set acc \<noteq> {} \<Longrightarrow>
     \<exists>n. build_variable_map vars acc = Inl (DuplicateValue n)"
proof (induction vars acc rule: build_variable_map.induct)
  case (2 name val rest acc)
  show ?case
  proof (cases "name \<in> fst ` set acc")
    case False
    with "2.prems" have "\<not> distinct (map fst rest)
        \<or> fst ` set rest \<inter> fst ` set (insort_key fst (name, val) acc) \<noteq> {}"
      by (auto simp: set_insort_key)
    with 2 False show ?thesis by simp
  qed simp
qed simp

lemma render_segments_ok:
  "seg_names segs \<subseteq> fst ` set vars \<Longrightarrow>
     render_segments vars segs = Inr (concat (map (seg_value vars) segs))"
proof (induction vars segs rule: render_segments.induct)
  case (3 vars name rest)
  then obtain v where "map_of vars name = Some v" by (auto simp: dom_map_of_conv_image_fst[symmetric])
  with 3 show ?case by simp
qed auto

lemma seg_value_cong: "map_of vars = map_of vars' \<Longrightarrow> seg_value vars = seg_value vars'"
proof
  fix x assume "map_of vars = map_of vars'"
  then show "seg_value vars x = seg_value vars' x" by (cases x) simp_all
qed

lemma Template_render_spec:
  assumes "names_ok (placeholders t) (segments t)"
  shows "if distinct (map fst vars) \<and> fst ` set vars = seg_names (segments t)
    then Template_render t vars = Inr (concat (map (seg_value vars) (segments t)))
    else \<exists>e. Template_render t vars = Inl e"
proof (cases "distinct (map fst vars)")
  case False
  then show ?thesis
    using build_variable_map_dup[of vars "[]"] by (auto simp: Template_render_def)
next
  case True
  obtain m where m: "build_variable_map vars [] = Inr m" "set m = set vars" "distinct (map fst m)"
    using build_variable_map_ok[OF True, of "[]"] by auto
  have ph: "set (placeholders t) = seg_names (segments t)" using assms by (simp add: names_ok_def)
  show ?thesis
  proof (cases "fst ` set vars = seg_names (segments t)")
    case eq: True
    have "filter (\<lambda>p. p \<notin> fst ` set m) (placeholders t) = []"
      "filter (\<lambda>n. n \<notin> set (placeholders t)) (map fst m) = []"
      using m(2) eq ph by (auto simp: filter_empty_conv)
    moreover have "map_of m = map_of vars"
      using m(2,3) True by (metis map_of_inject_set)
    ultimately show ?thesis
      using m(1,2) eq True render_segments_ok[of "segments t" m] seg_value_cong[of m vars]
      by (simp add: Template_render_def)
  next
    case ne: False
    have "filter (\<lambda>p. p \<notin> fst ` set m) (placeholders t) \<noteq> []
        \<or> filter (\<lambda>n. n \<notin> set (placeholders t)) (map fst m) \<noteq> []"
      using m(2) ne ph by (auto simp: filter_empty_conv)
    then show ?thesis
      using m(1) ne True by (auto simp: Template_render_def split: list.splits)
  qed
qed

section \<open>Escaped text\<close>

fun escape_braces :: "string \<Rightarrow> string" where
  "escape_braces (c # d # s) =
     (if c = CHR ''{'' \<and> d = CHR ''{'' then ''{{{{'' @ escape_braces s
      else if c = CHR ''}'' \<and> d = CHR ''}'' then ''}}}}'' @ escape_braces s
      else c # escape_braces (d # s))"
| "escape_braces s = s"

lemma escape_braces_cont: "list_all is_cont cs \<Longrightarrow> escape_braces (cs @ s) = cs @ escape_braces s"
proof (induction cs)
  case (Cons c cs)
  have "c \<noteq> CHR ''{''" "c \<noteq> CHR ''}''" using Cons.prems by (auto simp: is_cont_def byte_of_def)
  with Cons show ?case by (cases "cs @ s") auto
qed simp

lemma escape_braces_single:
  assumes "\<not> starts_with (c # s) OPEN" "\<not> starts_with (c # s) CLOSE"
  shows "escape_braces (c # s) = c # escape_braces s"
  using assms by (cases s) (auto simp: starts_with_def)

lemma hd_escape: "s \<noteq> [] \<Longrightarrow> hd (escape_braces s) = hd s"
  by (cases s rule: escape_braces.cases) auto

text \<open>
  Parsing an escaped text from any position: the segments collected are literals only, and
  together with the pending piece they spell the text.
\<close>

lemma slice_extend:
  assumes "a \<le> b" "drop b s = w @ r"
  shows "slice s a (b + length w) = slice s a b @ w"
proof -
  have eq: "b + length w - a = (b - a) + length w" using assms(1) by simp
  show ?thesis using assms unfolding slice_def eq take_add by simp
qed

definition literals_only :: "Segment list \<Rightarrow> bool" where
  "literals_only segs \<longleftrightarrow> seg_names segs = {}"

abbreviation text_of :: "Segment list \<Rightarrow> string" where
  "text_of segs \<equiv> concat (map (seg_value []) segs)"

lemma slice_same [simp]: "slice s a a = []"
  by (simp add: slice_def)

lemma drop_step: "drop i s = w @ r \<Longrightarrow> drop (i + length w) s = r"
  by (metis append_eq_conv_conj drop_drop add.commute)

lemma escape_braces_Nil_iff [simp]: "escape_braces s = [] \<longleftrightarrow> s = []"
  by (cases s rule: escape_braces.cases) auto

text \<open>A character that starts no brace pair is copied with its continuation bytes.\<close>

lemma escape_braces_char:
  assumes "\<not> starts_with (c # u) OPEN" "\<not> starts_with (c # u) CLOSE"
  defines "conts \<equiv> takeWhile is_cont u" and "v \<equiv> dropWhile is_cont u"
  shows "escape_braces (c # u) = (c # conts) @ escape_braces v"
    "next_char_len ((c # conts) @ escape_braces v) = length (c # conts)"
    "\<not> starts_with ((c # conts) @ escape_braces v) OPEN"
    "\<not> starts_with ((c # conts) @ escape_braces v) CLOSE"
proof -
  have u: "u = conts @ v" by (simp add: conts_def v_def)
  have cs: "list_all is_cont conts" by (auto simp: conts_def list_all_iff dest: set_takeWhileD)
  show esc: "escape_braces (c # u) = (c # conts) @ escape_braces v"
    using escape_braces_single[OF assms(1,2)] escape_braces_cont[OF cs, of v] u by simp
  have v: "v = [] \<or> \<not> is_cont (hd v)" unfolding v_def by (metis hd_dropWhile)
  then have "takeWhile is_cont (escape_braces v) = []"
    using hd_escape[of v] by (cases "v = []") (auto simp: takeWhile_eq_Nil_iff)
  then have "takeWhile is_cont (conts @ escape_braces v) = conts"
    using cs by (simp add: list_all_iff)
  then show "next_char_len ((c # conts) @ escape_braces v) = length (c # conts)"
    by (simp add: next_char_len_def)
  have hd2: "hd (conts @ escape_braces v) = hd u" "conts @ escape_braces v = [] \<longleftrightarrow> u = []"
    using u hd_escape[of v] by (cases "v = []"; auto simp: hd_append)+
  show "\<not> starts_with ((c # conts) @ escape_braces v) OPEN" "\<not> starts_with ((c # conts) @ escape_braces v) CLOSE"
    using assms(1,2) hd2 by (cases u; cases "conts @ escape_braces v"; auto simp: starts_with_def)+
qed

lemma starts_with_four: "\<not> starts_with r [c, c] \<Longrightarrow> \<not> starts_with r [c, c, c, c]"
  by (auto simp: starts_with_iff)

lemma parse_escaped:
  assumes "drop cursor source = escape_braces s" "lit \<le> cursor" "literals_only segs"
  shows "\<exists>t. parse_loop source cursor lit segs [] = Inr t \<and> placeholders t = []
    \<and> literals_only (segments t) \<and> text_of (segments t) = text_of segs @ slice source lit cursor @ s"
  using assms
proof (induction s arbitrary: cursor lit segs rule: length_induct)
  case (1 s)
  note IH = "1.IH"[rule_format]
  have rest: "drop cursor source = escape_braces s" by (rule "1.prems")
  have len: "cursor < length source \<longleftrightarrow> s \<noteq> []"
    using rest escape_braces_Nil_iff[of s] by (metis drop_eq_Nil linorder_not_le)
  let ?pend = "slice source lit cursor"
  consider "s = []" | v where "s = OPEN @ v" | v where "s = CLOSE @ v"
    | c u where "s = c # u" "\<not> starts_with s OPEN" "\<not> starts_with s CLOSE"
    by (cases s) (auto simp: starts_with_iff)
  then show ?case
  proof cases
    case 1
    then have "drop cursor source = []" using rest by simp
    then have "drop lit source = ?pend"
      using "1.prems"(2) append_take_drop_id[of "cursor - lit" "drop lit source"] by (simp add: slice_def)
    with 1 len "1.prems"(3) show ?thesis
      by (subst parse_loop.simps) (simp add: literals_only_def)
  next
    case 2
    have r: "drop cursor source = ''{{{{'' @ escape_braces v" using rest 2 by simp
    have "parse_loop source cursor lit segs [] = parse_loop source (cursor + 4) (cursor + 4)
        (push_literal (push_literal segs ?pend) OPEN) []"
      by (subst parse_loop.simps) (use len 2 r in \<open>simp add: Let_def starts_with_def\<close>)
    moreover have "drop (cursor + 4) source = escape_braces v" using drop_step[OF r] by (simp add: numeral_eq_Suc)
    ultimately show ?thesis
      using IH[of v "cursor + 4" "cursor + 4" "push_literal (push_literal segs ?pend) OPEN"] 2 "1.prems"(3)
      by (simp add: literals_only_def)
  next
    case 3
    have r: "drop cursor source = ''}}}}'' @ escape_braces v" using rest 3 by simp
    have "parse_loop source cursor lit segs [] = parse_loop source (cursor + 4) (cursor + 4)
        (push_literal (push_literal segs ?pend) CLOSE) []"
      by (subst parse_loop.simps) (use len 3 r in \<open>simp add: Let_def starts_with_def\<close>)
    moreover have "drop (cursor + 4) source = escape_braces v" using drop_step[OF r] by (simp add: numeral_eq_Suc)
    ultimately show ?thesis
      using IH[of v "cursor + 4" "cursor + 4" "push_literal (push_literal segs ?pend) CLOSE"] 3 "1.prems"(3)
      by (simp add: literals_only_def)
  next
    case 4
    let ?w = "c # takeWhile is_cont u" and ?v = "dropWhile is_cont u"
    note ch = escape_braces_char[OF 4(2,3)[unfolded 4(1)]]
    have r: "drop cursor source = ?w @ escape_braces ?v" using rest 4(1) ch(1) by simp
    have "parse_loop source cursor lit segs [] = parse_loop source (cursor + length ?w) lit segs []"
      using len 4(1) starts_with_four[OF ch(3)] starts_with_four[OF ch(4)] ch(2-4)
      by (subst parse_loop.simps) (simp only: r Let_def if_True if_False simp_thms list.distinct)
    moreover have "length ?v < length s" using 4(1) length_dropWhile_le[of is_cont u] by simp
    ultimately show ?thesis
      using IH[of ?v "cursor + length ?w" lit segs] drop_step[OF r] "1.prems"(2,3) 4(1)
        slice_extend[OF "1.prems"(2) r] by simp
  qed
qed

section \<open>Properties\<close>

text \<open>
  C34: text survives: doubling every brace pair of a text gives a template without placeholders
  that renders, with no variables, to that text.
\<close>

theorem escaped_text_roundtrip:
  "render_template (escape_braces s) [] = Inr s"
proof -
  obtain t where t: "Template_parse (escape_braces s) = Inr t" "placeholders t = []"
    "literals_only (segments t)" "text_of (segments t) = s"
    using parse_escaped[of 0 "escape_braces s" s 0 "[]"] by (auto simp: Template_parse_def literals_only_def)
  have "Template_render t [] = Inr s"
    using Template_render_spec[OF Template_parse_names[OF t(1)], of "[]"] t(3,4)
    by (simp add: literals_only_def)
  with t(1) show ?thesis by (simp add: render_template_def)
qed

text \<open>
  C35: rendering a parsed template succeeds exactly when every variable is given once and the
  names are those the template uses, no fewer and no more; the result is then the segments in
  order with each placeholder replaced by its value.
\<close>

theorem template_render_exact:
  assumes "Template_parse source = Inr t"
  shows "if distinct (map fst vars) \<and> fst ` set vars = seg_names (segments t)
    then Template_render t vars = Inr (concat (map (seg_value vars) (segments t)))
    else \<exists>e. Template_render t vars = Inl e"
  using Template_render_spec[OF Template_parse_names[OF assms]] .

theorem template_render_exact_witness:
  "\<exists>t. Template_parse ''{{ a }}!'' = Inr t \<and> Template_render t [(''a'', ''hi'')] = Inr ''hi!''"
proof -
  let ?t = "\<lparr>placeholders = [''a''], segments = [Placeholder ''a'', Literal ''!'']\<rparr>"
  have "Template_parse ''{{ a }}!'' = Inr ?t" by code_simp
  from this template_render_exact[OF this, of "[(''a'', ''hi'')]"] show ?thesis by simp
qed

end
