(* ===== verification/Stream_Parser.thy ===== *)
theory Stream_Parser
  imports Utf8_Text
begin

text \<open>
  Incremental parsing of model output, from \<open>codex-rs/utils/stream-parser/src\<close>: the trait
  \<open>StreamTextParser\<close> (\<open>stream_text.rs\<close>), the plain assistant-text parser (\<open>assistant_text.rs\<close>),
  the parser that hides inline tags (\<open>inline_hidden_tag.rs\<close>) and the adapter from bytes to text
  (\<open>utf8_stream.rs\<close>).

  What the trait's users rely on is that the result does not depend on how the stream was cut
  into chunks. That law is the locale \<open>stream_text_parser\<close>; the byte adapter is analysed inside
  it for any inner parser, and the hidden-tag parser is its interpretation.
\<close>

section \<open>Chunks\<close>

record 't StreamTextChunk =
  visible_text :: string
  extracted :: "'t list"

definition chunk_default :: "'t StreamTextChunk" where
  "chunk_default = \<lparr>visible_text = [], extracted = []\<rparr>"

definition chunk_is_empty :: "'t StreamTextChunk \<Rightarrow> bool" where
  "chunk_is_empty c \<longleftrightarrow> visible_text c = [] \<and> extracted c = []"

text \<open>The output of two calls, one after the other.\<close>

definition chunk_append :: "'t StreamTextChunk \<Rightarrow> 't StreamTextChunk \<Rightarrow> 't StreamTextChunk" where
  "chunk_append a b = \<lparr>visible_text = visible_text a @ visible_text b,
     extracted = extracted a @ extracted b\<rparr>"

lemma chunk_append_assoc: "chunk_append (chunk_append a b) c = chunk_append a (chunk_append b c)"
  by (simp add: chunk_append_def)

lemma chunk_append_default [simp]:
  "chunk_append chunk_default a = a" "chunk_append a chunk_default = a"
  by (simp_all add: chunk_append_def chunk_default_def)

section \<open>Assistant text\<close>

text \<open>The parser has no fields: it passes every chunk on.\<close>

record AssistantTextChunk =
  atc_visible_text :: string

definition assistant_push_str :: "string \<Rightarrow> AssistantTextChunk" where
  "assistant_push_str c = \<lparr>atc_visible_text = c\<rparr>"

definition assistant_finish :: AssistantTextChunk where
  "assistant_finish = \<lparr>atc_visible_text = []\<rparr>"

definition assistant_chunk_is_empty :: "AssistantTextChunk \<Rightarrow> bool" where
  "assistant_chunk_is_empty c \<longleftrightarrow> atc_visible_text c = []"

section \<open>Inline hidden tags\<close>

record 't ExtractedInlineTag =
  eit_tag :: 't
  eit_content :: string

record 't InlineTagSpec =
  its_tag :: 't
  its_open :: string
  its_close :: string

record 't ActiveTag =
  at_tag :: 't
  at_close :: string
  at_content :: string

record 't InlineHiddenTagParser =
  ihp_specs :: "'t InlineTagSpec list"
  ihp_pending :: string
  ihp_active :: "'t ActiveTag option"

text \<open>The assertions of \<open>new\<close> are the panic \<open>None\<close>.\<close>

definition InlineHiddenTagParser_new :: "'t InlineTagSpec list \<Rightarrow> 't InlineHiddenTagParser option" where
  "InlineHiddenTagParser_new specs =
     (if specs \<noteq> [] \<and> list_all (\<lambda>s. its_open s \<noteq> [] \<and> its_close s \<noteq> []) specs
      then Some \<lparr>ihp_specs = specs, ihp_pending = [], ihp_active = None\<rparr> else None)"

text \<open>
  \<open>min_by\<close> over the specs that occur: the smallest position, then the longest delimiter, then
  the smallest index (an earlier minimum is kept).
\<close>

fun next_open_from ::
  "'t InlineTagSpec list \<Rightarrow> string \<Rightarrow> usize \<Rightarrow> (usize \<times> usize \<times> usize) option \<Rightarrow> (usize \<times> usize \<times> usize) option" where
  "next_open_from [] pending idx best = best"
| "next_open_from (spec # rest) pending idx best =
     next_open_from rest pending (Suc idx)
       (case find_sub pending (its_open spec) of
          None \<Rightarrow> best
        | Some pos \<Rightarrow>
            (case best of
               None \<Rightarrow> Some (pos, length (its_open spec), idx)
             | Some (bpos, blen, bidx) \<Rightarrow>
                 if pos < bpos \<or> pos = bpos \<and> length (its_open spec) > blen
                 then Some (pos, length (its_open spec), idx) else best))"

definition find_next_open :: "'t InlineTagSpec list \<Rightarrow> string \<Rightarrow> (usize \<times> usize) option" where
  "find_next_open specs pending =
     map_option (\<lambda>(pos, _, idx). (pos, idx)) (next_open_from specs pending 0 None)"

definition longest_suffix_prefix_len :: "string \<Rightarrow> string \<Rightarrow> usize" where
  "longest_suffix_prefix_len s needle =
     (let mx = min (length s) (usize_sat_sub (length needle) 1) in
      case find (\<lambda>k. is_char_boundary needle k \<and> ends_with s (take k needle)) (rev [1..<Suc mx]) of
        Some k \<Rightarrow> k
      | None \<Rightarrow> 0)"

definition max_open_prefix_suffix_len :: "'t InlineTagSpec list \<Rightarrow> string \<Rightarrow> usize" where
  "max_open_prefix_suffix_len specs pending =
     foldr (\<lambda>spec m. max (longest_suffix_prefix_len pending (its_open spec)) m) specs 0"

text \<open>
  The loop of \<open>push_str\<close>. Every iteration that goes on removes a delimiter from the pending
  text, so with delimiters that are not empty one more unit of fuel than pending bytes is
  enough; running out of fuel is \<open>None\<close>.
\<close>

fun push_loop ::
  "nat \<Rightarrow> 't InlineTagSpec list \<Rightarrow> 't ActiveTag option \<Rightarrow> string
   \<Rightarrow> ('t ActiveTag option \<times> string \<times> 't ExtractedInlineTag StreamTextChunk) option" where
  "push_loop 0 specs active pending = None"
| "push_loop (Suc fuel) specs (Some active) pending =
     (case find_sub pending (at_close active) of
        Some close_idx \<Rightarrow>
          map_option
            (\<lambda>(a, p, out). (a, p, chunk_append
               \<lparr>visible_text = [], extracted =
                 [\<lparr>eit_tag = at_tag active, eit_content = at_content active @ take close_idx pending\<rparr>]\<rparr> out))
            (push_loop fuel specs None (drop (close_idx + length (at_close active)) pending))
      | None \<Rightarrow>
          (let keep = longest_suffix_prefix_len pending (at_close active);
               n = usize_sat_sub (length pending) keep
           in Some (Some (active\<lparr>at_content := at_content active @ take n pending\<rparr>),
                    drop n pending, chunk_default)))"
| "push_loop (Suc fuel) specs None pending =
     (case find_next_open specs pending of
        Some (open_idx, spec_idx) \<Rightarrow>
          (let spec = specs ! spec_idx in
           map_option
             (\<lambda>(a, p, out). (a, p, chunk_append \<lparr>visible_text = take open_idx pending, extracted = []\<rparr> out))
             (push_loop fuel specs
               (Some \<lparr>at_tag = its_tag spec, at_close = its_close spec, at_content = []\<rparr>)
               (drop (open_idx + length (its_open spec)) pending)))
      | None \<Rightarrow>
          (let keep = max_open_prefix_suffix_len specs pending;
               n = usize_sat_sub (length pending) keep
           in Some (None, drop n pending, \<lparr>visible_text = take n pending, extracted = []\<rparr>)))"

definition hidden_tag_push_str ::
  "'t InlineHiddenTagParser \<Rightarrow> string \<Rightarrow> ('t InlineHiddenTagParser \<times> 't ExtractedInlineTag StreamTextChunk) option" where
  "hidden_tag_push_str st c =
     (let pending = ihp_pending st @ c in
      map_option (\<lambda>(a, p, out). (st\<lparr>ihp_active := a, ihp_pending := p\<rparr>, out))
        (push_loop (Suc (length pending)) (ihp_specs st) (ihp_active st) pending))"

definition hidden_tag_finish ::
  "'t InlineHiddenTagParser \<Rightarrow> 't InlineHiddenTagParser \<times> 't ExtractedInlineTag StreamTextChunk" where
  "hidden_tag_finish st =
     (case ihp_active st of
        Some active \<Rightarrow>
          (st\<lparr>ihp_active := None, ihp_pending := []\<rparr>,
           \<lparr>visible_text = [], extracted =
             [\<lparr>eit_tag = at_tag active, eit_content = at_content active @ ihp_pending st\<rparr>]\<rparr>)
      | None \<Rightarrow>
          (st\<lparr>ihp_pending := []\<rparr>, \<lparr>visible_text = ihp_pending st, extracted = []\<rparr>))"

section \<open>From bytes to text\<close>

datatype Utf8StreamParserError =
    InvalidUtf8 usize usize
  | IncompleteUtf8AtEof

record 's Utf8StreamParser =
  usp_inner :: 's
  usp_pending_utf8 :: string

definition Utf8StreamParser_new :: "'s \<Rightarrow> 's Utf8StreamParser" where
  "Utf8StreamParser_new inner = \<lparr>usp_inner = inner, usp_pending_utf8 = []\<rparr>"

text \<open>The adapter over an inner parser given by its \<open>push_str\<close> and \<open>finish\<close>.\<close>

definition push_bytes ::
  "('s \<Rightarrow> string \<Rightarrow> 's \<times> 't StreamTextChunk) \<Rightarrow> 's Utf8StreamParser \<Rightarrow> string
   \<Rightarrow> 's Utf8StreamParser \<times> (Utf8StreamParserError + 't StreamTextChunk)" where
  "push_bytes push_str st c =
     (let pending = usp_pending_utf8 st @ c in
      case from_utf8_err pending of
        None \<Rightarrow>
          (let (inner, out) = push_str (usp_inner st) pending in
           (\<lparr>usp_inner = inner, usp_pending_utf8 = []\<rparr>, Inr out))
      | Some (valid_up_to, Some error_len) \<Rightarrow> (st, Inl (InvalidUtf8 valid_up_to error_len))
      | Some (valid_up_to, None) \<Rightarrow>
          if valid_up_to = 0 then (st\<lparr>usp_pending_utf8 := pending\<rparr>, Inr chunk_default)
          else
            (case from_utf8_err (take valid_up_to pending) of
               Some (v, e) \<Rightarrow> (st, Inl (InvalidUtf8 v (case e of Some l \<Rightarrow> l | None \<Rightarrow> 0)))
             | None \<Rightarrow>
                 (let (inner, out) = push_str (usp_inner st) (take valid_up_to pending) in
                  (\<lparr>usp_inner = inner, usp_pending_utf8 = drop valid_up_to pending\<rparr>, Inr out))))"

definition utf8_finish ::
  "('s \<Rightarrow> string \<Rightarrow> 's \<times> 't StreamTextChunk) \<Rightarrow> ('s \<Rightarrow> 's \<times> 't StreamTextChunk) \<Rightarrow> 's Utf8StreamParser
   \<Rightarrow> 's Utf8StreamParser \<times> (Utf8StreamParserError + 't StreamTextChunk)" where
  "utf8_finish push_str finish st =
     (case from_utf8_err (usp_pending_utf8 st) of
        Some (v, Some error_len) \<Rightarrow> (st, Inl (InvalidUtf8 v error_len))
      | Some (v, None) \<Rightarrow> (st, Inl IncompleteUtf8AtEof)
      | None \<Rightarrow>
          (let (inner, out) =
             (if usp_pending_utf8 st = [] then (usp_inner st, chunk_default)
              else push_str (usp_inner st) (usp_pending_utf8 st));
             (inner, tail) = finish inner
           in (\<lparr>usp_inner = inner, usp_pending_utf8 = []\<rparr>, Inr (chunk_append out tail))))"

definition into_inner :: "'s Utf8StreamParser \<Rightarrow> Utf8StreamParserError + 's" where
  "into_inner st =
     (case from_utf8_err (usp_pending_utf8 st) of
        None \<Rightarrow> Inr (usp_inner st)
      | Some (v, Some error_len) \<Rightarrow> Inl (InvalidUtf8 v error_len)
      | Some (v, None) \<Rightarrow> Inl IncompleteUtf8AtEof)"

definition into_inner_lossy :: "'s Utf8StreamParser \<Rightarrow> 's" where
  "into_inner_lossy st = usp_inner st"

text \<open>A client of the adapter: bytes arrive in chunks, then the stream ends.\<close>

fun push_bytes_all ::
  "('s \<Rightarrow> string \<Rightarrow> 's \<times> 't StreamTextChunk) \<Rightarrow> 's Utf8StreamParser \<Rightarrow> string list
   \<Rightarrow> Utf8StreamParserError + ('s Utf8StreamParser \<times> 't StreamTextChunk)" where
  "push_bytes_all push_str st [] = Inr (st, chunk_default)"
| "push_bytes_all push_str st (c # cs) =
     (case push_bytes push_str st c of
        (st', Inl e) \<Rightarrow> Inl e
      | (st', Inr out) \<Rightarrow>
          (case push_bytes_all push_str st' cs of
             Inl e \<Rightarrow> Inl e
           | Inr (st'', out') \<Rightarrow> Inr (st'', chunk_append out out')))"

definition parse_byte_stream ::
  "('s \<Rightarrow> string \<Rightarrow> 's \<times> 't StreamTextChunk) \<Rightarrow> ('s \<Rightarrow> 's \<times> 't StreamTextChunk) \<Rightarrow> 's \<Rightarrow> string list
   \<Rightarrow> Utf8StreamParserError + 't StreamTextChunk" where
  "parse_byte_stream push_str finish inner cs =
     (case push_bytes_all push_str (Utf8StreamParser_new inner) cs of
        Inl e \<Rightarrow> Inl e
      | Inr (st, out) \<Rightarrow>
          (case utf8_finish push_str finish st of
             (st', Inl e) \<Rightarrow> Inl e
           | (st', Inr tail) \<Rightarrow> Inr (chunk_append out tail)))"

fun push_all ::
  "('s \<Rightarrow> string \<Rightarrow> 's \<times> 't StreamTextChunk) \<Rightarrow> 's \<Rightarrow> string list \<Rightarrow> 's \<times> 't StreamTextChunk" where
  "push_all push_str st [] = (st, chunk_default)"
| "push_all push_str st (c # cs) =
     (let (st', out) = push_str st c; (st'', out') = push_all push_str st' cs
      in (st'', chunk_append out out'))"

lemma push_bytes_pending:
  assumes "push_bytes push_str st c = (st', Inr out)"
  obtains v where "utf8_valid (take v (usp_pending_utf8 st @ c))"
    and "usp_pending_utf8 st' = drop v (usp_pending_utf8 st @ c)"
proof (cases "from_utf8_err (usp_pending_utf8 st @ c)")
  case None
  with assms show ?thesis
    using that[of "length (usp_pending_utf8 st @ c)"]
    by (auto simp: push_bytes_def utf8_valid_def split: prod.splits)
next
  case (Some r)
  obtain v e where r: "r = (v, e)" by (cases r)
  have "usp_pending_utf8 st' = drop v (usp_pending_utf8 st @ c)"
    using assms Some r
    by (auto simp: push_bytes_def Let_def split: option.splits if_splits prod.splits)
  with from_utf8_err_prefix[OF Some[unfolded r]] that show ?thesis by blast
qed

section \<open>The contract of a parser\<close>

text \<open>
  The law every client of \<open>StreamTextParser\<close> uses: pushing two pieces of text one after the other
  is pushing them at once, and an empty piece does nothing. \<open>ok\<close> is the parser's invariant.
\<close>

locale stream_text_parser =
  fixes push :: "'s \<Rightarrow> string \<Rightarrow> 's \<times> 't StreamTextChunk"
    and ok :: "'s \<Rightarrow> bool"
  assumes ok_push: "ok st \<Longrightarrow> utf8_valid a \<Longrightarrow> ok (fst (push st a))"
    and push_Nil: "ok st \<Longrightarrow> push st [] = (st, chunk_default)"
    and push_append: "ok st \<Longrightarrow> utf8_valid a \<Longrightarrow> utf8_valid b \<Longrightarrow>
      push st (a @ b) =
        (fst (push (fst (push st a)) b),
         chunk_append (snd (push st a)) (snd (push (fst (push st a)) b)))"
begin

lemma push_all_concat:
  "ok st \<Longrightarrow> list_all utf8_valid cs \<Longrightarrow> push_all push st cs = push st (concat cs)"
proof (induction cs arbitrary: st)
  case (Cons c cs)
  have v: "utf8_valid (concat cs)"
    using Cons.prems(2) by (induction cs) (auto intro: utf8_valid_append)
  show ?case
    using Cons v by (simp add: push_append ok_push case_prod_beta Let_def)
qed (simp add: push_Nil)

text \<open>
  The adapter: between calls the pending bytes are the start of one character.
\<close>

lemma push_bytes_all_valid:
  assumes "ok (usp_inner st)"
    and "usp_pending_utf8 st = [] \<or> from_utf8_err (usp_pending_utf8 st) = Some (0, None)"
    and "utf8_valid (usp_pending_utf8 st @ concat cs)"
  shows "push_bytes_all push st cs =
    Inr (\<lparr>usp_inner = fst (push (usp_inner st) (usp_pending_utf8 st @ concat cs)), usp_pending_utf8 = []\<rparr>,
         snd (push (usp_inner st) (usp_pending_utf8 st @ concat cs)))"
  using assms
proof (induction cs arbitrary: st)
  case Nil
  then have "usp_pending_utf8 st = []" by (auto simp: utf8_valid_def)
  with Nil show ?case by (simp add: push_Nil)
next
  case (Cons c cs)
  let ?x = "usp_pending_utf8 st @ c"
  have valid: "utf8_valid (?x @ concat cs)" using Cons.prems(3) by simp
  consider (all) "from_utf8_err ?x = None" "utf8_valid (concat cs)"
    | (cut) v where "from_utf8_err ?x = Some (v, None)" "utf8_valid (drop v ?x @ concat cs)"
    using valid_prefix[OF valid] by metis
  then show ?case
  proof cases
    case all
    define st' where "st' = \<lparr>usp_inner = fst (push (usp_inner st) ?x), usp_pending_utf8 = []\<rparr>"
    have x: "utf8_valid ?x" using all by (simp add: utf8_valid_def)
    have st': "push_bytes push st c = (st', Inr (snd (push (usp_inner st) ?x)))"
      using all by (simp add: push_bytes_def st'_def case_prod_beta Let_def)
    have "push_bytes_all push st' cs = Inr (\<lparr>usp_inner = fst (push (usp_inner st') (concat cs)),
        usp_pending_utf8 = []\<rparr>, snd (push (usp_inner st') (concat cs)))"
      using Cons.IH[of st'] all ok_push[OF Cons.prems(1) x] by (simp add: st'_def)
    with st' push_append[OF Cons.prems(1) x all(2)] show ?thesis by (simp add: st'_def)
  next
    case cut
    define st' where "st' = \<lparr>usp_inner = fst (push (usp_inner st) (take v ?x)), usp_pending_utf8 = drop v ?x\<rparr>"
    have x: "utf8_valid (take v ?x)" using from_utf8_err_prefix[OF cut(1)] by simp
    have rest: "from_utf8_err (drop v ?x) = Some (0, None)" by (rule from_utf8_err_rest[OF cut(1)])
    have st': "push_bytes push st c = (st', Inr (snd (push (usp_inner st) (take v ?x))))"
      using cut x Cons.prems(1)
      by (cases st) (auto simp: push_bytes_def st'_def case_prod_beta Let_def utf8_valid_def push_Nil
          simp del: take_append drop_append)
    have ok': "ok (usp_inner st')" using ok_push[OF Cons.prems(1) x] by (simp add: st'_def)
    have "push_bytes_all push st' cs = Inr (\<lparr>usp_inner = fst (push (usp_inner st') (drop v ?x @ concat cs)),
        usp_pending_utf8 = []\<rparr>, snd (push (usp_inner st') (drop v ?x @ concat cs)))"
      using Cons.IH[of st'] cut(2) ok' rest by (simp add: st'_def)
    moreover have "push (usp_inner st) (?x @ concat cs) =
        (fst (push (usp_inner st') (drop v ?x @ concat cs)),
         chunk_append (snd (push (usp_inner st) (take v ?x))) (snd (push (usp_inner st') (drop v ?x @ concat cs))))"
      using push_append[OF Cons.prems(1) x cut(2)]
      by (simp only: st'_def append_assoc[symmetric] append_take_drop_id) simp
    ultimately show ?thesis using st' by simp
  qed
qed

lemma push_bytes_all_valid_iff:
  "push_bytes_all push st cs = Inr (st', out) \<Longrightarrow>
   utf8_valid (usp_pending_utf8 st @ concat cs) \<longleftrightarrow> utf8_valid (usp_pending_utf8 st')"
proof (induction cs arbitrary: st out)
  case (Cons c cs)
  obtain st1 o1 where 1: "push_bytes push st c = (st1, Inr o1)"
    using Cons.prems by (auto split: prod.splits sum.splits)
  obtain o2 where 2: "push_bytes_all push st1 cs = Inr (st', o2)"
    using Cons.prems 1 by (auto split: prod.splits sum.splits)
  obtain v where v: "utf8_valid (take v (usp_pending_utf8 st @ c))"
    and st1: "usp_pending_utf8 st1 = drop v (usp_pending_utf8 st @ c)"
    using push_bytes_pending[OF 1] by blast
  have "utf8_valid (usp_pending_utf8 st @ c @ concat cs)
      \<longleftrightarrow> utf8_valid (drop v (usp_pending_utf8 st @ c) @ concat cs)"
    using utf8_valid_append_iff[OF v, of "drop v (usp_pending_utf8 st @ c) @ concat cs"]
    by (simp only: append_assoc[symmetric] append_take_drop_id)
  with Cons.IH[OF 2] st1 show ?case by simp
qed simp

lemma parse_byte_stream_valid:
  assumes "ok st" "utf8_valid (concat cs)"
  shows "parse_byte_stream push finish st cs =
    Inr (chunk_append (snd (push st (concat cs))) (snd (finish (fst (push st (concat cs))))))"
  using push_bytes_all_valid[of "Utf8StreamParser_new st" cs] assms
  by (simp add: parse_byte_stream_def Utf8StreamParser_new_def utf8_finish_def case_prod_beta
      from_utf8_err.simps[of "[]"])

lemma parse_byte_stream_invalid:
  assumes "\<not> utf8_valid (concat cs)"
  shows "\<exists>e. parse_byte_stream push finish st cs = Inl e"
proof (cases "push_bytes_all push (Utf8StreamParser_new st) cs")
  case (Inr r)
  obtain st' out where r: "r = (st', out)" by (cases r)
  have "\<not> utf8_valid (usp_pending_utf8 st')"
    using push_bytes_all_valid_iff[OF Inr[unfolded r]] assms by (simp add: Utf8StreamParser_new_def)
  then show ?thesis
    using Inr r by (auto simp: parse_byte_stream_def utf8_finish_def utf8_valid_def split: option.splits)
qed (simp add: parse_byte_stream_def)

end

section \<open>Delimiters that may be cut\<close>

text \<open>
  The last \<open>k\<close> bytes of \<open>s\<close> are the first \<open>k\<close> of a delimiter. On valid text the test for a
  character boundary in \<open>longest_suffix_prefix_len\<close> never fails, so the function returns the
  longest overlap.
\<close>

definition overlap :: "string \<Rightarrow> string \<Rightarrow> usize \<Rightarrow> bool" where
  "overlap s d k \<longleftrightarrow> k < length d \<and> k \<le> length s \<and> drop (length s - k) s = take k d"

definition delimiter :: "string \<Rightarrow> bool" where
  "delimiter d \<longleftrightarrow> d \<noteq> [] \<and> utf8_valid d"

lemma find_rev_upt:
  fixes m :: nat and P :: "nat \<Rightarrow> bool"
  defines "r \<equiv> (case find P (rev [1..<Suc m]) of Some k \<Rightarrow> k | None \<Rightarrow> 0)"
  shows "(r = 0 \<or> P r) \<and> r \<le> m \<and> (\<forall>k. 0 < k \<and> k \<le> m \<and> P k \<longrightarrow> k \<le> r)"
  unfolding r_def
proof (induction m)
  case (Suc m)
  have "rev [1..<Suc (Suc m)] = Suc m # rev [1..<Suc m]" by simp
  with Suc show ?case by (auto simp: le_Suc_eq simp del: upt_Suc)
qed simp

lemma overlap_valid:
  assumes "utf8_valid s" "delimiter d" "overlap s d k"
  shows "utf8_valid (take k d)" "is_char_boundary d k"
proof -
  have s: "s = take (length s - k) s @ take k d"
    using assms(3) append_take_drop_id[of "length s - k" s] by (simp add: overlap_def)
  have first: "\<not> is_cont (d ! 0)" using assms(2) utf8_valid_first by (simp add: delimiter_def)
  show valid: "utf8_valid (take k d)"
  proof (cases "k = 0")
    case False
    then show ?thesis
      using utf8_valid_suffix(2)[of "take (length s - k) s" "take k d"] s assms first
      by (auto simp: delimiter_def)
  qed simp
  have "utf8_valid (drop k d)"
    using valid assms(2) utf8_valid_append_iff[OF valid, of "drop k d"] by (simp add: delimiter_def)
  then have "\<not> is_cont (d ! k)"
    using utf8_valid_first[of "drop k d"] assms(3) by (simp add: overlap_def)
  then show "is_char_boundary d k" using assms(3) by (simp add: is_char_boundary_def overlap_def)
qed

lemma longest_suffix_prefix_len:
  assumes "utf8_valid s" "delimiter d"
  shows "overlap s d (longest_suffix_prefix_len s d)"
    and "overlap s d k \<Longrightarrow> k \<le> longest_suffix_prefix_len s d"
proof -
  let ?m = "min (length s) (length d - 1)"
  let ?P = "\<lambda>k. is_char_boundary d k \<and> ends_with s (take k d)"
  have d: "0 < length d" using assms(2) by (simp add: delimiter_def)
  have l: "longest_suffix_prefix_len s d = (case find ?P (rev [1..<Suc ?m]) of Some k \<Rightarrow> k | None \<Rightarrow> 0)"
    by (simp add: longest_suffix_prefix_len_def sat_simps Let_def)
  note r = find_rev_upt[of ?P ?m, folded l]
  show "overlap s d (longest_suffix_prefix_len s d)"
  proof -
    have "longest_suffix_prefix_len s d < length d" using r d by linarith
    with r show ?thesis by (auto simp: overlap_def ends_with_def)
  qed
  assume k: "overlap s d k"
  show "k \<le> longest_suffix_prefix_len s d"
  proof (cases "k = 0")
    case False
    have "?P k" using overlap_valid(2)[OF assms k] k by (simp add: overlap_def ends_with_def)
    moreover have "k \<le> ?m" using k by (auto simp: overlap_def)
    ultimately show ?thesis using r False by blast
  qed simp
qed

text \<open>Text in front of the overlap takes part in no later occurrence and no later overlap.\<close>

lemma no_occurrence_before_overlap:
  assumes "utf8_valid s" "delimiter d" "find_sub s d = None"
    and n: "n \<le> length s - longest_suffix_prefix_len s d" and j: "j < n"
  shows "take k d = drop j (s @ b) \<Longrightarrow> k \<le> length d \<Longrightarrow> k < length s - j"
    and "\<not> starts_with (drop j (s @ b)) d"
proof -
  have short: "k < length s - j" if "take k d = take k (drop j (s @ b))" "k \<le> length d" for k
  proof (rule ccontr)
    assume "\<not> k < length s - j"
    then have k: "length s - j \<le> k" by simp
    have sub: "take (length s - j) d = drop j s"
      using arg_cong[OF that(1), of "take (length s - j)"] k n j by (simp add: min_def split: if_splits)
    show False
    proof (cases "length s - j < length d")
      case True
      then have "overlap s d (length s - j)" using sub n j by (simp add: overlap_def)
      with longest_suffix_prefix_len(2)[OF assms(1,2)] n j show False by fastforce
    next
      case False
      with sub have "starts_with (drop j s) d" using that k by (simp add: starts_with_def)
      with assms(3) n j show False by (auto simp: find_sub_None_iff)
    qed
  qed
  show "take k d = drop j (s @ b) \<Longrightarrow> k \<le> length d \<Longrightarrow> k < length s - j"
    by (rule short) (metis min.idem take_take)
  show "\<not> starts_with (drop j (s @ b)) d"
  proof
    assume "starts_with (drop j (s @ b)) d"
    then have d: "take (length d) (drop j (s @ b)) = d" by (simp add: starts_with_def)
    then have "length d < length s - j" using short[of "length d"] by simp
    with d have "starts_with (drop j s) d" by (simp add: starts_with_def)
    with assms(3) n j show False by (auto simp: find_sub_None_iff)
  qed
qed

lemma find_sub_shift:
  assumes "n \<le> length t" "\<And>j. j < n \<Longrightarrow> \<not> starts_with (drop j t) d"
  shows "find_sub t d = map_option ((+) n) (find_sub (drop n t) d)"
  using assms
proof (induction n arbitrary: t)
  case (Suc n)
  from Suc.prems(1) obtain c r where t: "t = c # r" by (cases t) auto
  have "find_sub r d = map_option ((+) n) (find_sub (drop n r) d)"
    using Suc.prems t by (intro Suc.IH) force+
  with t Suc.prems(2)[of 0] show ?case by (simp add: option.map_comp o_def)
qed (simp add: option.map_ident plus_nat.add_0[abs_def])

lemma find_sub_new_end:
  assumes "find_sub p d = None" "find_sub (p @ b) d = Some j"
  shows "length p < j + length d"
proof (rule ccontr)
  assume "\<not> ?thesis"
  then have "starts_with (drop j p) d"
    using find_sub_Some[OF assms(2)] by (simp add: starts_with_def)
  with assms(1) \<open>\<not> ?thesis\<close> show False by (simp add: find_sub_None_iff)
qed

lemma occurrence_inside:
  assumes "find_sub p u = Some i" "find_sub (p @ b) d = Some j" "j \<le> i" "length p < j + length d"
  shows "find_sub d u \<noteq> None"
proof -
  have u: "i + length u \<le> length p" "take (length u) (drop i p) = u"
    using find_sub_Some[OF assms(1)] by auto
  have d: "take (length d) (drop j (p @ b)) = d" using find_sub_Some[OF assms(2)] by auto
  have "take (length u) (drop (i - j) d) = take (length u) (drop (i - j) (take (length d) (drop j (p @ b))))"
    by (simp only: d)
  also have "\<dots> = u" using u assms(3,4) by (simp add: drop_take)
  finally have "starts_with (drop (i - j) d) u" by (simp add: starts_with_def)
  moreover have "i - j \<le> length d" using u(1) assms(3,4) by simp
  ultimately show ?thesis by (auto simp: find_sub_None_iff)
qed

lemma find_sub_pending:
  assumes "utf8_valid s" "delimiter d" "find_sub s d = None" "n \<le> length s - longest_suffix_prefix_len s d"
  shows "find_sub (s @ b) d = map_option ((+) n) (find_sub (drop n s @ b) d)"
proof -
  have "find_sub (s @ b) d = map_option ((+) n) (find_sub (drop n (s @ b)) d)"
    using assms(4) no_occurrence_before_overlap(2)[OF assms] by (intro find_sub_shift) auto
  moreover have "n \<le> length s" using assms(4) by simp
  ultimately show ?thesis by simp
qed

lemma longest_suffix_prefix_len_pending:
  assumes "utf8_valid s" "delimiter d" "find_sub s d = None" "n \<le> length s - longest_suffix_prefix_len s d"
    and "utf8_valid (s @ b)" "utf8_valid (drop n s @ b)"
  shows "longest_suffix_prefix_len (s @ b) d = longest_suffix_prefix_len (drop n s @ b) d"
proof -
  have n: "n \<le> length s" using assms(4) by simp
  have "overlap (s @ b) d k \<longleftrightarrow> overlap (drop n s @ b) d k" for k
  proof
    assume k: "overlap (drop n s @ b) d k"
    have "drop (length (s @ b) - k) (s @ b) = drop (length (drop n s @ b) - k) (drop n s @ b)"
    proof -
      have "length s + length b - (n + k) + n = length s + length b - k"
        using k n unfolding overlap_def by auto
      with n show ?thesis by simp
    qed
    then have "drop (length (s @ b) - k) (s @ b) = take k d" using k by (simp only: overlap_def)
    moreover have "k \<le> length (s @ b)" "k < length d" using k by (auto simp: overlap_def)
    ultimately show "overlap (s @ b) d k" by (simp only: overlap_def)
  next
    assume k: "overlap (s @ b) d k"
    let ?j = "length (s @ b) - k"
    have "\<not> ?j < n"
    proof
      assume j: "?j < n"
      have "k < length s - ?j"
        using no_occurrence_before_overlap(1)[OF assms(1-4) j, of k b] k by (simp add: overlap_def)
      with k show False by (simp add: overlap_def)
    qed
    with k n show "overlap (drop n s @ b) d k" by (auto simp: overlap_def)
  qed
  then show ?thesis
    by (metis (no_types, lifting) assms(2,5,6) le_antisym longest_suffix_prefix_len)
qed

section \<open>The loop\<close>

definition parser_specs_ok :: "'t InlineTagSpec list \<Rightarrow> bool" where
  "parser_specs_ok specs \<longleftrightarrow> list_all (\<lambda>s. delimiter (its_open s) \<and> delimiter (its_close s)) specs"

text \<open>No opening delimiter occurs inside a different one.\<close>

definition opens_separate :: "'t InlineTagSpec list \<Rightarrow> bool" where
  "opens_separate specs \<longleftrightarrow>
     list_all (\<lambda>a. list_all (\<lambda>b. its_open a = its_open b \<or> find_sub (its_open a) (its_open b) = None) specs) specs"

definition active_ok :: "'t ActiveTag option \<Rightarrow> bool" where
  "active_ok a \<longleftrightarrow> (case a of None \<Rightarrow> True | Some t \<Rightarrow> delimiter (at_close t))"

lemma next_open_from_result:
  "next_open_from specs p k best = Some (i, l, x) \<Longrightarrow>
   best = Some (i, l, x) \<or> k \<le> x \<and> x < k + length specs \<and> find_sub p (its_open (specs ! (x - k))) = Some i"
proof (induction specs arbitrary: k best)
  case (Cons spec rest)
  from Cons.prems Cons.IH[of "Suc k"] show ?case
    by (fastforce simp: nth_Cons' split: option.splits if_splits prod.splits)
qed simp

lemma find_next_open_Some:
  assumes "find_next_open specs p = Some (i, x)"
  shows "x < length specs" "find_sub p (its_open (specs ! x)) = Some i"
  using assms next_open_from_result[of specs p 0 None] by (fastforce simp: find_next_open_def)+

lemma next_open_from_None:
  "next_open_from specs p k best = None \<longleftrightarrow>
   best = None \<and> list_all (\<lambda>s. find_sub p (its_open s) = None) specs"
  by (induction specs arbitrary: k best) (auto split: option.splits)

lemma find_next_open_None:
  "find_next_open specs p = None \<longleftrightarrow> list_all (\<lambda>s. find_sub p (its_open s) = None) specs"
  by (simp add: find_next_open_def next_open_from_None)

lemma next_open_from_later:
  assumes "next_open_from specs p k best = Some (i, l, x)"
    and "\<And>s. s \<in> set specs \<Longrightarrow> find_sub q (its_open s) = find_sub p (its_open s)
      \<or> find_sub p (its_open s) = None \<and> (\<exists>j>i. find_sub q (its_open s) = Some j)"
    and "best' = best \<or> (\<exists>j l x. best' = Some (j, l, x) \<and> i < j)
      \<and> (best = None \<or> (\<exists>j l x. best = Some (j, l, x) \<and> i < j))"
  shows "next_open_from specs q k best' = Some (i, l, x)"
  using assms
proof (induction specs arbitrary: k best best')
  case (Cons spec rest)
  let ?new = "\<lambda>p best. case find_sub p (its_open spec) of None \<Rightarrow> best
    | Some pos \<Rightarrow> (case best of None \<Rightarrow> Some (pos, length (its_open spec), k)
      | Some (bpos, blen, bidx) \<Rightarrow>
          if pos < bpos \<or> pos = bpos \<and> length (its_open spec) > blen
          then Some (pos, length (its_open spec), k) else best)"
  have "?new q best' = ?new p best \<or> (\<exists>j l x. ?new q best' = Some (j, l, x) \<and> i < j)
      \<and> (?new p best = None \<or> (\<exists>j l x. ?new p best = Some (j, l, x) \<and> i < j))"
    using Cons.prems(2)[of spec] Cons.prems(3)
    by (auto split: option.splits)
  with Cons.IH[of "Suc k" "?new p best" "?new q best'"] Cons.prems(1,2) show ?case by simp
qed auto

lemma find_next_open_append:
  assumes sep: "opens_separate specs" and "find_next_open specs p = Some (i, x)"
  shows "find_next_open specs (p @ b) = Some (i, x)"
proof -
  obtain l where l: "next_open_from specs p 0 None = Some (i, l, x)"
    using assms(2) by (auto simp: find_next_open_def)
  note x = find_next_open_Some[OF assms(2)]
  have "next_open_from specs (p @ b) 0 None = Some (i, l, x)"
  proof (rule next_open_from_later[OF l])
    fix s assume s: "s \<in> set specs"
    show "find_sub (p @ b) (its_open s) = find_sub p (its_open s)
      \<or> find_sub p (its_open s) = None \<and> (\<exists>j>i. find_sub (p @ b) (its_open s) = Some j)"
    proof (cases "find_sub p (its_open s)")
      case None
      show ?thesis
      proof (cases "find_sub (p @ b) (its_open s)")
        case (Some j)
        have "i < j"
        proof (rule ccontr)
          assume ij: "\<not> i < j"
          have "its_open s \<noteq> its_open (specs ! x)" using None x(2) by auto
          then have none: "find_sub (its_open s) (its_open (specs ! x)) = None"
            using sep s nth_mem[OF x(1)] by (auto simp: opens_separate_def list_all_iff)
          have "length p < j + length (its_open s)"
            by (rule find_sub_new_end[OF None Some])
          with occurrence_inside[OF x(2) Some] ij none show False by auto
        qed
        with None Some show ?thesis by simp
      qed (simp add: None)
    qed (simp add: find_sub_append_Some)
  qed simp
  then show ?thesis by (simp add: find_next_open_def)
qed

lemma push_loop_mono:
  "push_loop f specs a p = Some r \<Longrightarrow> f \<le> g \<Longrightarrow> push_loop g specs a p = Some r"
proof (induction f arbitrary: a p r g)
  case (Suc f)
  from Suc.prems(2) obtain g' where g: "g = Suc g'" "f \<le> g'" by (cases g) auto
  have mono: "push_loop g' specs a' p' = Some r'" if "push_loop f specs a' p' = Some r'" for a' p' r'
    using that Suc.IH g(2) by blast
  show ?case
  proof (cases a)
    case (Some t)
    with Suc.prems(1) g mono show ?thesis by (cases "find_sub p (at_close t)") auto
  next
    case None
    with Suc.prems(1) g mono show ?thesis
      by (cases "find_next_open specs p") (auto simp: Let_def split: prod.splits)
  qed
qed simp

lemma push_loop_terminates:
  assumes "parser_specs_ok specs" "active_ok a" "length p < f"
  shows "\<exists>r. push_loop f specs a p = Some r"
  using assms
proof (induction f arbitrary: a p)
  case (Suc f)
  show ?case
  proof (cases a)
    case (Some t)
    show ?thesis
    proof (cases "find_sub p (at_close t)")
      case found: (Some i)
      have "length (drop (i + length (at_close t)) p) < f"
        using Suc.prems(2,3) find_sub_Some[OF found] Some
        by (cases "at_close t") (auto simp: active_ok_def delimiter_def)
      from Suc.IH[OF Suc.prems(1) _ this, of None] show ?thesis
        using Some found by (auto simp: active_ok_def)
    qed (simp add: Some Let_def)
  next
    case None
    show ?thesis
    proof (cases "find_next_open specs p")
      case (Some r)
      obtain i x where r: "r = (i, x)" by (cases r)
      note x = find_next_open_Some[OF Some[unfolded r]]
      have d: "delimiter (its_open (specs ! x))" "delimiter (its_close (specs ! x))"
        using Suc.prems(1) x(1) by (auto simp: parser_specs_ok_def list_all_iff)
      have "length (drop (i + length (its_open (specs ! x))) p) < f"
        using Suc.prems(3) find_sub_Some[OF x(2)] d(1)
        by (cases "its_open (specs ! x)") (auto simp: delimiter_def)
      from Suc.IH[OF Suc.prems(1) _ this, of "Some \<lparr>at_tag = its_tag (specs ! x), at_close = its_close (specs ! x), at_content = []\<rparr>"]
      show ?thesis using None Some r d by (auto simp: active_ok_def Let_def)
    qed (simp add: None Let_def)
  qed
qed simp

text \<open>What is left in front of the next iteration, and what stays pending, is valid text.\<close>

lemma rest_valid:
  assumes "utf8_valid p" "delimiter d" "find_sub p d = Some i"
  shows "utf8_valid (drop (i + length d) p)"
proof -
  have d: "d \<noteq> []" "utf8_valid d" using assms(2) by (simp_all add: delimiter_def)
  have "utf8_valid (take i p @ (d @ drop (i + length d) p))"
    using find_sub_split[OF assms(3)] assms(1) by simp
  then have "utf8_valid (d @ drop (i + length d) p)"
    by (rule utf8_valid_suffix(2)) (use d utf8_valid_first[OF d(2,1)] in \<open>simp_all add: nth_append\<close>)
  with d(2) show ?thesis by (simp add: utf8_valid_append_iff)
qed

lemma kept_valid:
  assumes "utf8_valid p" "delimiter d"
  shows "utf8_valid (drop (length p - longest_suffix_prefix_len p d) p)"
  using longest_suffix_prefix_len(1)[OF assms] overlap_valid(1)[OF assms]
  by (simp add: overlap_def)

lemma max_open_ge: "s \<in> set specs \<Longrightarrow>
    longest_suffix_prefix_len p (its_open s) \<le> max_open_prefix_suffix_len specs p"
  unfolding max_open_prefix_suffix_len_def by (induction specs) (auto simp: le_max_iff_disj)

lemma max_open_attained:
  "max_open_prefix_suffix_len specs p = 0
   \<or> (\<exists>s\<in>set specs. max_open_prefix_suffix_len specs p = longest_suffix_prefix_len p (its_open s))"
  unfolding max_open_prefix_suffix_len_def by (induction specs) (auto simp: max_def)

lemma kept_valid_open:
  assumes "utf8_valid p" "parser_specs_ok specs"
  shows "utf8_valid (drop (length p - max_open_prefix_suffix_len specs p) p)"
  using max_open_attained[of specs p] kept_valid[OF assms(1)] assms(2)
  by (auto simp: parser_specs_ok_def list_all_iff)

text \<open>Nothing is lost by dropping what cannot belong to an opening delimiter.\<close>

lemma next_open_from_shift:
  assumes "\<And>s. s \<in> set specs \<Longrightarrow> find_sub q (its_open s) = map_option ((+) n) (find_sub q' (its_open s))"
  shows "next_open_from specs q k (map_option (\<lambda>(i, l, x). (n + i, l, x)) best)
    = map_option (\<lambda>(i, l, x). (n + i, l, x)) (next_open_from specs q' k best)"
  using assms
proof (induction specs arbitrary: k best)
  case (Cons spec rest)
  let ?new = "case find_sub q' (its_open spec) of None \<Rightarrow> best
    | Some pos \<Rightarrow> (case best of None \<Rightarrow> Some (pos, length (its_open spec), k)
      | Some (bpos, blen, bidx) \<Rightarrow>
          if pos < bpos \<or> pos = bpos \<and> length (its_open spec) > blen
          then Some (pos, length (its_open spec), k) else best)"
  show ?case
    using Cons.IH[of "Suc k" ?new] Cons.prems
    by (cases "find_sub q' (its_open spec)"; cases best) (auto split: if_splits)
qed simp

lemma open_pending:
  assumes specs: "parser_specs_ok specs" and p: "utf8_valid p" and b: "utf8_valid b"
    and none: "find_next_open specs p = None"
    and n: "n = length p - max_open_prefix_suffix_len specs p"
  shows "find_next_open specs (p @ b) = map_option (\<lambda>(i, x). (n + i, x)) (find_next_open specs (drop n p @ b))"
    and "max_open_prefix_suffix_len specs (p @ b) = max_open_prefix_suffix_len specs (drop n p @ b)"
proof -
  have s: "delimiter (its_open s)" "find_sub p (its_open s) = None"
    "n \<le> length p - longest_suffix_prefix_len p (its_open s)" if "s \<in> set specs" for s
    using that specs none max_open_ge[OF that, of p]
    by (auto simp: parser_specs_ok_def list_all_iff find_next_open_None n)
  have pb: "utf8_valid (p @ b)" "utf8_valid (drop n p @ b)"
    using p b kept_valid_open[OF p specs] by (auto simp: n intro: utf8_valid_append)
  have "next_open_from specs (p @ b) 0 None
      = map_option (\<lambda>(i, l, x). (n + i, l, x)) (next_open_from specs (drop n p @ b) 0 None)"
    using next_open_from_shift[of specs "p @ b" n "drop n p @ b" 0 None] find_sub_pending[OF p s] by simp
  then show "find_next_open specs (p @ b) = map_option (\<lambda>(i, x). (n + i, x)) (find_next_open specs (drop n p @ b))"
    by (simp add: find_next_open_def option.map_comp o_def case_prod_beta)
  show "max_open_prefix_suffix_len specs (p @ b) = max_open_prefix_suffix_len specs (drop n p @ b)"
    unfolding max_open_prefix_suffix_len_def
    using longest_suffix_prefix_len_pending[OF p s pb] by (intro foldr_cong) simp_all
qed

lemma close_pending:
  assumes d: "delimiter d" and p: "utf8_valid p" and b: "utf8_valid b"
    and none: "find_sub p d = None"
    and n: "n = length p - longest_suffix_prefix_len p d"
  shows "find_sub (p @ b) d = map_option ((+) n) (find_sub (drop n p @ b) d)"
    and "longest_suffix_prefix_len (p @ b) d = longest_suffix_prefix_len (drop n p @ b) d"
proof -
  have "utf8_valid (p @ b)" "utf8_valid (drop n p @ b)"
    using p b kept_valid[OF p d] by (auto simp: n intro: utf8_valid_append)
  then show "longest_suffix_prefix_len (p @ b) d = longest_suffix_prefix_len (drop n p @ b) d"
    using longest_suffix_prefix_len_pending[OF p d none] n by simp
  show "find_sub (p @ b) d = map_option ((+) n) (find_sub (drop n p @ b) d)"
    using find_sub_pending[OF p d none] n by simp
qed

text \<open>Running the loop on a text, then on what it left together with more text.\<close>

lemma push_loop_invariant:
  assumes "push_loop f specs a p = Some (a', p', out)" "parser_specs_ok specs" "active_ok a" "utf8_valid p"
  shows "active_ok a'" "utf8_valid p'"
proof -
  have "active_ok a' \<and> utf8_valid p'"
    using assms
  proof (induction f arbitrary: a p out)
    case (Suc f)
    show ?case
    proof (cases a)
      case (Some t)
      then have t: "delimiter (at_close t)" using Suc.prems(3) by (simp add: active_ok_def)
      show ?thesis
      proof (cases "find_sub p (at_close t)")
        case None
        with Suc.prems Some kept_valid[OF Suc.prems(4) t] show ?thesis
          by (auto simp: Let_def active_ok_def sat_simps)
      next
        case found: (Some i)
        with Suc.prems(1) Some obtain out' where
          "push_loop f specs None (drop (i + length (at_close t)) p) = Some (a', p', out')" by auto
        from Suc.IH[OF this Suc.prems(2) _ rest_valid[OF Suc.prems(4) t found]] show ?thesis
          by (simp add: active_ok_def)
      qed
    next
      case None
      show ?thesis
      proof (cases "find_next_open specs p")
        case none: None
        with Suc.prems None kept_valid_open[OF Suc.prems(4,2)] show ?thesis
          by (auto simp: Let_def active_ok_def sat_simps)
      next
        case (Some r)
        obtain i x where r: "r = (i, x)" by (cases r)
        note x = find_next_open_Some[OF Some[unfolded r]]
        have d: "delimiter (its_open (specs ! x))" "delimiter (its_close (specs ! x))"
          using Suc.prems(2) x(1) by (auto simp: parser_specs_ok_def list_all_iff)
        let ?t = "\<lparr>at_tag = its_tag (specs ! x), at_close = its_close (specs ! x), at_content = []\<rparr>"
        obtain out' where "push_loop f specs (Some ?t) (drop (i + length (its_open (specs ! x))) p) = Some (a', p', out')"
          using Suc.prems(1) None Some r by (auto simp: Let_def)
        from Suc.IH[OF this Suc.prems(2) _ rest_valid[OF Suc.prems(4) d(1) x(2)]] d(2) show ?thesis
          by (simp add: active_ok_def)
      qed
    qed
  qed simp
  then show "active_ok a'" "utf8_valid p'" by simp_all
qed

lemma longest_suffix_prefix_len_le: "longest_suffix_prefix_len s d \<le> length s"
  using find_rev_upt[of "\<lambda>k. is_char_boundary d k \<and> ends_with s (take k d)" "min (length s) (length d - 1)"]
  by (simp add: longest_suffix_prefix_len_def sat_simps Let_def)

lemma max_open_le: "max_open_prefix_suffix_len specs s \<le> length s"
  using max_open_attained[of specs s] longest_suffix_prefix_len_le by fastforce

lemma split_pending:
  assumes n: "n \<le> length p"
  shows "take (n + i) (p @ b) = take n p @ take i (drop n p @ b)"
    and "drop (n + i) (p @ b) = drop i (drop n p @ b)"
    and "k \<le> length (drop n p @ b) \<Longrightarrow>
      take (length (p @ b) - k) (p @ b) = take n p @ take (length (drop n p @ b) - k) (drop n p @ b)"
    and "k \<le> length (drop n p @ b) \<Longrightarrow>
      drop (length (p @ b) - k) (p @ b) = drop (length (drop n p @ b) - k) (drop n p @ b)"
proof -
  show t: "take (n + i) (p @ b) = take n p @ take i (drop n p @ b)" for i
    using n take_add[of n i "p @ b"] by simp
  show d: "drop (n + i) (p @ b) = drop i (drop n p @ b)" for i
    using n drop_drop[of i n "p @ b"] by (simp add: add.commute)
  assume "k \<le> length (drop n p @ b)"
  then have "length (p @ b) - k = n + (length (drop n p @ b) - k)" using n by simp
  then show "take (length (p @ b) - k) (p @ b) = take n p @ take (length (drop n p @ b) - k) (drop n p @ b)"
    "drop (length (p @ b) - k) (p @ b) = drop (length (drop n p @ b) - k) (drop n p @ b)"
    by (simp_all only: t d)
qed

lemma resume_close:
  assumes none: "find_sub p (at_close t) = None"
    and run: "push_loop (Suc f) specs (Some t) p = Some (a', p', out)"
    and more': "push_loop g specs a' (p' @ b) = Some (a'', p'', out')"
    and t: "delimiter (at_close t)" and p: "utf8_valid p" and b: "utf8_valid b"
  shows "push_loop (Suc (f + g)) specs (Some t) (p @ b) = Some (a'', p'', chunk_append out out')"
proof -
  define n where "n = length p - longest_suffix_prefix_len p (at_close t)"
  have st: "a' = Some (t\<lparr>at_content := at_content t @ take n p\<rparr>)" "p' = drop n p" "out = chunk_default"
    using run none by (auto simp: Let_def n_def sat_simps)
  note cp = close_pending[OF t p b none n_def]
  note split = split_pending[of n p _ b] longest_suffix_prefix_len_le[of "drop n p @ b" "at_close t"]
  have n: "n \<le> length p" by (simp add: n_def)
  obtain h where g: "g = Suc h" using more' by (cases g) auto
  have mono: "push_loop (f + g) specs c q = Some r" if "push_loop h specs c q = Some r" for c q r
    using push_loop_mono[OF that, of "f + g"] g by simp
  show ?thesis
  proof (cases "find_sub (drop n p @ b) (at_close t)")
    case None
    with more' st g cp n split show ?thesis
      by (simp add: Let_def sat_simps del: take_append drop_append length_append)
  next
    case (Some i)
    with more' st g obtain out1 where
      1: "push_loop h specs None (drop (i + length (at_close t)) (drop n p @ b)) = Some (a'', p'', out1)"
         "out' = chunk_append \<lparr>visible_text = [], extracted = [\<lparr>eit_tag = at_tag t,
            eit_content = at_content t @ take n p @ take i (drop n p @ b)\<rparr>]\<rparr> out1"
      by (auto simp del: take_append drop_append)
    show ?thesis using mono[OF 1(1)] 1(2) cp(1) Some st(3) split(1,2) n
      by (simp add: add.assoc del: take_append drop_append)
  qed
qed

lemma resume_open:
  assumes none: "find_next_open specs p = None"
    and run: "push_loop (Suc f) specs None p = Some (a', p', out)"
    and more': "push_loop g specs a' (p' @ b) = Some (a'', p'', out')"
    and specs: "parser_specs_ok specs" and p: "utf8_valid p" and b: "utf8_valid b"
  shows "push_loop (Suc (f + g)) specs None (p @ b) = Some (a'', p'', chunk_append out out')"
proof -
  define n where "n = length p - max_open_prefix_suffix_len specs p"
  have st: "a' = None" "p' = drop n p" "out = \<lparr>visible_text = take n p, extracted = []\<rparr>"
    using run none by (auto simp: Let_def n_def sat_simps)
  note op = open_pending[OF specs p b none n_def]
  note split = split_pending[of n p _ b] max_open_le[of specs "drop n p @ b"]
  have n: "n \<le> length p" by (simp add: n_def)
  obtain h where g: "g = Suc h" using more' by (cases g) auto
  have mono: "push_loop (f + g) specs c q = Some r" if "push_loop h specs c q = Some r" for c q r
    using push_loop_mono[OF that, of "f + g"] g by simp
  show ?thesis
  proof (cases "find_next_open specs (drop n p @ b)")
    case None
    with more' st g op n split show ?thesis
      by (auto simp: Let_def sat_simps chunk_append_def simp del: take_append drop_append length_append)
  next
    case (Some r)
    obtain i x where r: "r = (i, x)" by (cases r)
    obtain out1 where
      1: "push_loop h specs (Some \<lparr>at_tag = its_tag (specs ! x), at_close = its_close (specs ! x), at_content = []\<rparr>)
            (drop (i + length (its_open (specs ! x))) (drop n p @ b)) = Some (a'', p'', out1)"
         "out' = chunk_append \<lparr>visible_text = take i (drop n p @ b), extracted = []\<rparr> out1"
      using more' st g Some r by (auto simp: Let_def simp del: take_append drop_append)
    show ?thesis using mono[OF 1(1)] 1(2) op(1) Some r st(3) split(1,2) n
      by (simp add: Let_def add.assoc chunk_append_def del: take_append drop_append)
  qed
qed

lemma push_loop_resume:
  assumes "push_loop f specs a p = Some (a', p', out)" "push_loop g specs a' (p' @ b) = Some (a'', p'', out')"
    and "parser_specs_ok specs" "opens_separate specs" "active_ok a" "utf8_valid p" "utf8_valid b"
  shows "push_loop (f + g) specs a (p @ b) = Some (a'', p'', chunk_append out out')"
  using assms
proof (induction f arbitrary: a p out)
  case (Suc f)
  show ?case
  proof (cases a)
    case (Some t)
    then have t: "delimiter (at_close t)" using Suc.prems(5) by (simp add: active_ok_def)
    show ?thesis
    proof (cases "find_sub p (at_close t)")
      case found: (Some i)
      with Suc.prems(1) Some obtain out1 where
        1: "push_loop f specs None (drop (i + length (at_close t)) p) = Some (a', p', out1)"
           "out = chunk_append \<lparr>visible_text = [], extracted =
             [\<lparr>eit_tag = at_tag t, eit_content = at_content t @ take i p\<rparr>]\<rparr> out1" by auto
      have "i + length (at_close t) \<le> length p" using find_sub_Some[OF found] by simp
      moreover note Suc.IH[OF 1(1) Suc.prems(2-4) _ rest_valid[OF Suc.prems(6) t found] Suc.prems(7)]
      ultimately show ?thesis
        using Some find_sub_append_Some[OF found, of b] 1(2)
        by (simp add: active_ok_def chunk_append_assoc)
    next
      case None
      from resume_close[OF this Suc.prems(1)[unfolded Some] Suc.prems(2) t Suc.prems(6,7)]
      show ?thesis by (simp only: Some add_Suc)
    qed
  next
    case None
    show ?thesis
    proof (cases "find_next_open specs p")
      case (Some r)
      obtain i x where r: "r = (i, x)" by (cases r)
      note x = find_next_open_Some[OF Some[unfolded r]]
      let ?o = "its_open (specs ! x)"
      let ?t = "\<lparr>at_tag = its_tag (specs ! x), at_close = its_close (specs ! x), at_content = []\<rparr>"
      have d: "delimiter ?o" "active_ok (Some ?t)"
        using Suc.prems(3) x(1) by (auto simp: parser_specs_ok_def list_all_iff active_ok_def)
      obtain out1 where
        1: "push_loop f specs (Some ?t) (drop (i + length ?o) p) = Some (a', p', out1)"
           "out = chunk_append \<lparr>visible_text = take i p, extracted = []\<rparr> out1"
        using Suc.prems(1) None Some r by (auto simp: Let_def)
      have "i + length ?o \<le> length p" using find_sub_Some[OF x(2)] by simp
      moreover note Suc.IH[OF 1(1) Suc.prems(2-4) d(2) rest_valid[OF Suc.prems(6) d(1) x(2)] Suc.prems(7)]
      ultimately show ?thesis
        using None find_next_open_append[OF Suc.prems(4) Some[unfolded r], of b] 1(2)
        by (simp add: Let_def chunk_append_assoc)
    next
      case none: None
      from resume_open[OF this Suc.prems(1)[unfolded None] Suc.prems(2,3,6,7)]
      show ?thesis by (simp only: None add_Suc)
    qed
  qed
qed simp

lemma push_loop_settled:
  assumes "push_loop f specs a p = Some (a', p', out)" "parser_specs_ok specs" "active_ok a" "utf8_valid p"
  shows "push_loop 1 specs a' p' = Some (a', p', chunk_default)"
  using assms
proof (induction f arbitrary: a p out)
  case (Suc f)
  show ?case
  proof (cases a)
    case (Some t)
    then have t: "delimiter (at_close t)" using Suc.prems(3) by (simp add: active_ok_def)
    show ?thesis
    proof (cases "find_sub p (at_close t)")
      case None
      define n where "n = length p - longest_suffix_prefix_len p (at_close t)"
      have "a' = Some (t\<lparr>at_content := at_content t @ take n p\<rparr>)" "p' = drop n p"
        using Suc.prems(1) Some None by (auto simp: Let_def n_def sat_simps)
      moreover have "length p - n = longest_suffix_prefix_len p (at_close t)"
        using longest_suffix_prefix_len_le[of p "at_close t"] by (simp add: n_def)
      ultimately show ?thesis
        using close_pending[OF t Suc.prems(4) _ None n_def, of "[]"] None
        by (simp add: Let_def sat_simps)
    next
      case found: (Some i)
      with Suc.prems(1) Some obtain out' where
        "push_loop f specs None (drop (i + length (at_close t)) p) = Some (a', p', out')" by auto
      from Suc.IH[OF this Suc.prems(2) _ rest_valid[OF Suc.prems(4) t found]] show ?thesis
        by (simp add: active_ok_def)
    qed
  next
    case None
    show ?thesis
    proof (cases "find_next_open specs p")
      case none: None
      define n where "n = length p - max_open_prefix_suffix_len specs p"
      have "a' = None" "p' = drop n p"
        using Suc.prems(1) None none by (auto simp: Let_def n_def sat_simps)
      moreover have "length p - n = max_open_prefix_suffix_len specs p"
        using max_open_le[of specs p] by (simp add: n_def)
      ultimately show ?thesis
        using open_pending[OF Suc.prems(2,4) _ none n_def, of "[]"] none
        by (simp add: Let_def sat_simps chunk_default_def)
    next
      case (Some r)
      obtain i x where r: "r = (i, x)" by (cases r)
      note x = find_next_open_Some[OF Some[unfolded r]]
      have d: "delimiter (its_open (specs ! x))" "delimiter (its_close (specs ! x))"
        using Suc.prems(2) x(1) by (auto simp: parser_specs_ok_def list_all_iff)
      let ?t = "\<lparr>at_tag = its_tag (specs ! x), at_close = its_close (specs ! x), at_content = []\<rparr>"
      obtain out' where "push_loop f specs (Some ?t) (drop (i + length (its_open (specs ! x))) p) = Some (a', p', out')"
        using Suc.prems(1) None Some r by (auto simp: Let_def)
      from Suc.IH[OF this Suc.prems(2) _ rest_valid[OF Suc.prems(4) d(1) x(2)]] d(2) show ?thesis
        by (simp add: active_ok_def)
    qed
  qed
qed simp

section \<open>The hidden-tag parser meets the contract\<close>

definition hidden_tag_ok :: "'t InlineHiddenTagParser \<Rightarrow> bool" where
  "hidden_tag_ok st \<longleftrightarrow> parser_specs_ok (ihp_specs st) \<and> opens_separate (ihp_specs st)
     \<and> active_ok (ihp_active st) \<and> utf8_valid (ihp_pending st)
     \<and> push_loop 1 (ihp_specs st) (ihp_active st) (ihp_pending st)
         = Some (ihp_active st, ihp_pending st, chunk_default)"

text \<open>\<open>push_str\<close> as a total function; on parsers that meet the invariant it is the code's.\<close>

definition hidden_tag_push ::
  "'t InlineHiddenTagParser \<Rightarrow> string \<Rightarrow> 't InlineHiddenTagParser \<times> 't ExtractedInlineTag StreamTextChunk" where
  "hidden_tag_push st c =
     (case hidden_tag_push_str st c of Some r \<Rightarrow> r | None \<Rightarrow> (st, chunk_default))"

lemma hidden_tag_push_loop:
  assumes "hidden_tag_ok st"
  obtains a p out where
    "hidden_tag_push_str st c = Some (st\<lparr>ihp_active := a, ihp_pending := p\<rparr>, out)"
    "push_loop (Suc (length (ihp_pending st @ c))) (ihp_specs st) (ihp_active st) (ihp_pending st @ c)
       = Some (a, p, out)"
proof -
  obtain r where "push_loop (Suc (length (ihp_pending st @ c))) (ihp_specs st) (ihp_active st) (ihp_pending st @ c)
      = Some r"
    using push_loop_terminates[of "ihp_specs st" "ihp_active st" "ihp_pending st @ c"] assms
    unfolding hidden_tag_ok_def by blast
  then show ?thesis
    by (cases r) (rule that; simp add: hidden_tag_push_str_def)
qed

lemma hidden_tag_push_total:
  "hidden_tag_ok st \<Longrightarrow> hidden_tag_push_str st c = Some (hidden_tag_push st c)"
  by (rule hidden_tag_push_loop[of st c]) (auto simp: hidden_tag_push_def)

lemma hidden_tag_ok_push:
  assumes "hidden_tag_ok st" "utf8_valid c"
  shows "hidden_tag_ok (fst (hidden_tag_push st c))"
proof -
  from hidden_tag_push_loop[OF assms(1)] obtain a p out where
    r: "hidden_tag_push_str st c = Some (st\<lparr>ihp_active := a, ihp_pending := p\<rparr>, out)"
    "push_loop (Suc (length (ihp_pending st @ c))) (ihp_specs st) (ihp_active st) (ihp_pending st @ c)
       = Some (a, p, out)" .
  have "utf8_valid (ihp_pending st @ c)"
    using assms by (auto simp: hidden_tag_ok_def intro: utf8_valid_append)
  with push_loop_invariant[OF r(2)] push_loop_settled[OF r(2)] r(1) assms(1) show ?thesis
    by (simp add: hidden_tag_ok_def hidden_tag_push_def)
qed

lemma hidden_tag_push_Nil:
  assumes "hidden_tag_ok st"
  shows "hidden_tag_push st [] = (st, chunk_default)"
  using push_loop_mono[of 1 "ihp_specs st" "ihp_active st" "ihp_pending st" _ "Suc (length (ihp_pending st))"] assms
  by (simp add: hidden_tag_ok_def hidden_tag_push_def hidden_tag_push_str_def Let_def)

lemma hidden_tag_push_append:
  assumes ok: "hidden_tag_ok st" and a: "utf8_valid a" and b: "utf8_valid b"
  shows "hidden_tag_push st (a @ b) =
    (fst (hidden_tag_push (fst (hidden_tag_push st a)) b),
     chunk_append (snd (hidden_tag_push st a)) (snd (hidden_tag_push (fst (hidden_tag_push st a)) b)))"
proof -
  from hidden_tag_push_loop[OF ok] obtain x1 p1 o1 where
    1: "hidden_tag_push_str st a = Some (st\<lparr>ihp_active := x1, ihp_pending := p1\<rparr>, o1)"
    "push_loop (Suc (length (ihp_pending st @ a))) (ihp_specs st) (ihp_active st) (ihp_pending st @ a)
       = Some (x1, p1, o1)" .
  define st1 where "st1 = st\<lparr>ihp_active := x1, ihp_pending := p1\<rparr>"
  have st1: "hidden_tag_push st a = (st1, o1)" using 1(1) by (simp add: hidden_tag_push_def st1_def)
  have ok1: "hidden_tag_ok st1" using hidden_tag_ok_push[OF ok a] st1 by simp
  from hidden_tag_push_loop[OF ok1] obtain x2 p2 o2 where
    2: "hidden_tag_push_str st1 b = Some (st1\<lparr>ihp_active := x2, ihp_pending := p2\<rparr>, o2)"
    "push_loop (Suc (length (ihp_pending st1 @ b))) (ihp_specs st1) (ihp_active st1) (ihp_pending st1 @ b)
       = Some (x2, p2, o2)" .
  from hidden_tag_push_loop[OF ok] obtain x3 p3 o3 where
    3: "hidden_tag_push_str st (a @ b) = Some (st\<lparr>ihp_active := x3, ihp_pending := p3\<rparr>, o3)"
    "push_loop (Suc (length (ihp_pending st @ a @ b))) (ihp_specs st) (ihp_active st) (ihp_pending st @ a @ b)
       = Some (x3, p3, o3)" .
  let ?f = "Suc (length (ihp_pending st @ a)) + Suc (length (ihp_pending st1 @ b))"
  have "push_loop ?f (ihp_specs st) (ihp_active st) ((ihp_pending st @ a) @ b)
      = Some (x2, p2, chunk_append o1 o2)"
    by (rule push_loop_resume[OF 1(2)])
      (use 2(2) ok a b in \<open>auto simp: st1_def hidden_tag_ok_def intro: utf8_valid_append\<close>)
  moreover have "push_loop ?f (ihp_specs st) (ihp_active st) ((ihp_pending st @ a) @ b) = Some (x3, p3, o3)"
    using push_loop_mono[OF 3(2), of ?f] by simp
  ultimately have "x3 = x2" "p3 = p2" "o3 = chunk_append o1 o2" by simp_all
  with 2(1) 3(1) st1 show ?thesis by (simp add: hidden_tag_push_def st1_def)
qed

interpretation hidden_tag: stream_text_parser hidden_tag_push hidden_tag_ok
  by unfold_locales
    (simp_all add: hidden_tag_ok_push hidden_tag_push_Nil hidden_tag_push_append)

lemma hidden_tag_ok_new:
  assumes "InlineHiddenTagParser_new specs = Some st" "opens_separate specs"
    and "list_all (\<lambda>s. utf8_valid (its_open s) \<and> utf8_valid (its_close s)) specs"
  shows "hidden_tag_ok st"
proof -
  have "max_open_prefix_suffix_len specs [] = 0" using max_open_le[of specs "[]"] by simp
  moreover have "find_next_open specs [] = None"
    using assms(1) by (auto simp: InlineHiddenTagParser_new_def find_next_open_None list_all_iff
        starts_with_def split: if_splits)
  ultimately show ?thesis
    using assms by (auto simp: InlineHiddenTagParser_new_def hidden_tag_ok_def parser_specs_ok_def
        delimiter_def active_ok_def list_all_iff chunk_default_def sat_simps Let_def split: if_splits)
qed

section \<open>Properties\<close>

text \<open>A client of the parser: text arrives in chunks.\<close>

fun hidden_tag_push_chunks ::
  "'t InlineHiddenTagParser \<Rightarrow> string list \<Rightarrow> ('t InlineHiddenTagParser \<times> 't ExtractedInlineTag StreamTextChunk) option" where
  "hidden_tag_push_chunks st [] = Some (st, chunk_default)"
| "hidden_tag_push_chunks st (c # cs) =
     (case hidden_tag_push_str st c of
        None \<Rightarrow> None
      | Some (st', out) \<Rightarrow>
          map_option (\<lambda>(st'', out'). (st'', chunk_append out out')) (hidden_tag_push_chunks st' cs))"

lemma hidden_tag_push_chunks_total:
  "hidden_tag_ok st \<Longrightarrow> list_all utf8_valid cs \<Longrightarrow>
   hidden_tag_push_chunks st cs = Some (push_all hidden_tag_push st cs)"
proof (induction cs arbitrary: st)
  case (Cons c cs)
  have "hidden_tag_ok (fst (hidden_tag_push st c))" using Cons.prems by (simp add: hidden_tag_ok_push)
  from Cons.IH[OF this] Cons.prems hidden_tag_push_total[OF Cons.prems(1), of c] show ?case
    by (simp add: case_prod_beta Let_def)
qed simp

text \<open>
  A stream written as visible pieces, each followed by a tag of some spec with its content, and a
  last visible piece. The delimiters delimit: an opening delimiter is the first one in what
  stands before and including it, a closing one the first in the content, and there is none in
  the last piece.
\<close>

type_synonym segment = "string \<times> nat \<times> string"

fun spell_segments :: "'t InlineTagSpec list \<Rightarrow> segment list \<Rightarrow> string \<Rightarrow> string" where
  "spell_segments specs [] tail = tail"
| "spell_segments specs ((vis, x, content) # segs) tail =
     vis @ its_open (specs ! x) @ content @ its_close (specs ! x) @ spell_segments specs segs tail"

definition segment_ok :: "'t InlineTagSpec list \<Rightarrow> segment \<Rightarrow> bool" where
  "segment_ok specs = (\<lambda>(vis, x, content). x < length specs
     \<and> find_next_open specs (vis @ its_open (specs ! x)) = Some (length vis, x)
     \<and> find_sub (content @ its_close (specs ! x)) (its_close (specs ! x)) = Some (length content)
     \<and> utf8_valid vis \<and> utf8_valid content)"

definition segment_tag :: "'t InlineTagSpec list \<Rightarrow> segment \<Rightarrow> 't ExtractedInlineTag" where
  "segment_tag specs = (\<lambda>(vis, x, content). \<lparr>eit_tag = its_tag (specs ! x), eit_content = content\<rparr>)"

lemma push_loop_segments:
  assumes "parser_specs_ok specs" "opens_separate specs" "list_all (segment_ok specs) segs"
    and "find_next_open specs tail = None"
  shows "\<exists>f p out. push_loop f specs None (spell_segments specs segs tail) = Some (None, p, out)
    \<and> visible_text out @ p = concat (map fst segs) @ tail \<and> extracted out = map (segment_tag specs) segs"
  using assms(3)
proof (induction segs)
  case Nil
  show ?case
    by (rule exI[of _ 1]) (simp add: assms(4) Let_def)
next
  case (Cons seg segs)
  obtain vis x content where seg: "seg = (vis, x, content)" by (cases seg)
  let ?o = "its_open (specs ! x)" and ?c = "its_close (specs ! x)" and ?r = "spell_segments specs segs tail"
  from Cons.prems seg have ok: "find_next_open specs (vis @ ?o) = Some (length vis, x)"
    "find_sub (content @ ?c) ?c = Some (length content)" by (simp_all add: segment_ok_def)
  from Cons obtain f p out where IH: "push_loop f specs None ?r = Some (None, p, out)"
    "visible_text out @ p = concat (map fst segs) @ tail" "extracted out = map (segment_tag specs) segs"
    by auto
  have "find_next_open specs (vis @ ?o @ content @ ?c @ ?r) = Some (length vis, x)"
    using find_next_open_append[OF assms(2) ok(1), of "content @ ?c @ ?r"] by simp
  moreover have "find_sub (content @ ?c @ ?r) ?c = Some (length content)"
    using find_sub_append_Some[OF ok(2), of ?r] by simp
  ultimately have "push_loop (Suc (Suc f)) specs None (spell_segments specs (seg # segs) tail) =
      Some (None, p, chunk_append \<lparr>visible_text = vis, extracted = [segment_tag specs seg]\<rparr> out)"
    using IH(1) seg by (simp add: Let_def segment_tag_def chunk_append_def)
  with IH(2,3) seg show ?case by (fastforce simp: chunk_append_def)
qed

lemma spell_segments_valid:
  "parser_specs_ok specs \<Longrightarrow> list_all (segment_ok specs) segs \<Longrightarrow> utf8_valid tail \<Longrightarrow>
   utf8_valid (spell_segments specs segs tail)"
proof (induction segs)
  case (Cons seg segs)
  obtain vis x content where seg: "seg = (vis, x, content)" by (cases seg)
  have "utf8_valid (its_open (specs ! x))" "utf8_valid (its_close (specs ! x))"
    using Cons.prems seg by (auto simp: segment_ok_def parser_specs_ok_def delimiter_def list_all_iff)
  with Cons seg show ?case by (simp add: segment_ok_def utf8_valid_append_iff)
qed simp

text \<open>
  C4: However text is cut into chunks, the hidden-tag parser returns (its loop ends) and the
  visible text, the extracted tags and the state it ends in are those of pushing the text at
  once. This needs that no opening delimiter occurs inside a different one.
\<close>
theorem hidden_tags_chunking:
  assumes "InlineHiddenTagParser_new specs = Some st" "opens_separate specs"
    and "list_all (\<lambda>s. utf8_valid (its_open s) \<and> utf8_valid (its_close s)) specs"
    and "list_all utf8_valid cs"
  shows "hidden_tag_push_chunks st cs = hidden_tag_push_str st (concat cs)
    \<and> hidden_tag_push_str st (concat cs) \<noteq> None"
proof -
  have ok: "hidden_tag_ok st" by (rule hidden_tag_ok_new) (use assms in auto)
  then show ?thesis
    using hidden_tag_push_chunks_total[OF ok assms(4)] hidden_tag.push_all_concat[OF ok assms(4)]
    by (simp add: hidden_tag_push_total)
qed

definition example_specs :: "nat InlineTagSpec list" where
  "example_specs = [\<lparr>its_tag = 0, its_open = ''<a>'', its_close = ''</a>''\<rparr>,
                    \<lparr>its_tag = 1, its_open = ''<ab>'', its_close = ''</ab>''\<rparr>]"

theorem hidden_tags_chunking_witness:
  "hidden_tag_push_chunks \<lparr>ihp_specs = example_specs, ihp_pending = [], ihp_active = None\<rparr>
     [''x<a'', ''b>y</'', ''ab>z'']
   = hidden_tag_push_str \<lparr>ihp_specs = example_specs, ihp_pending = [], ihp_active = None\<rparr> ''x<ab>y</ab>z''"
proof -
  have "InlineHiddenTagParser_new example_specs
      = Some \<lparr>ihp_specs = example_specs, ihp_pending = [], ihp_active = None\<rparr>"
    by (simp add: InlineHiddenTagParser_new_def example_specs_def)
  moreover have "opens_separate example_specs" by code_simp
  moreover have "list_all (\<lambda>s. utf8_valid (its_open s) \<and> utf8_valid (its_close s)) example_specs" by code_simp
  moreover have "list_all utf8_valid [''x<a'', ''b>y</'', ''ab>z'']" by code_simp
  ultimately show ?thesis
    using hidden_tags_chunking[of example_specs _ "[''x<a'', ''b>y</'', ''ab>z'']"] by simp
qed



text \<open>
  C36: The byte adapter accepts exactly valid UTF-8. A stream of byte chunks is parsed to the
  result of pushing its whole text and finishing when the bytes are valid UTF-8 together,
  wherever they were cut, and ends in an error otherwise.
\<close>
theorem byte_stream_accepts_utf8:
  assumes "InlineHiddenTagParser_new specs = Some st" "opens_separate specs"
    and "list_all (\<lambda>s. utf8_valid (its_open s) \<and> utf8_valid (its_close s)) specs"
  shows "if utf8_valid (concat cs)
    then parse_byte_stream hidden_tag_push hidden_tag_finish st cs =
      Inr (chunk_append (snd (hidden_tag_push st (concat cs)))
        (snd (hidden_tag_finish (fst (hidden_tag_push st (concat cs))))))
    else (\<exists>e. parse_byte_stream hidden_tag_push hidden_tag_finish st cs = Inl e)"
proof -
  have "hidden_tag_ok st" by (rule hidden_tag_ok_new) (use assms in auto)
  then show ?thesis
    by (simp add: hidden_tag.parse_byte_stream_valid hidden_tag.parse_byte_stream_invalid)
qed

theorem byte_stream_accepts_utf8_witness:
  "\<exists>e. parse_byte_stream hidden_tag_push hidden_tag_finish
     \<lparr>ihp_specs = example_specs, ihp_pending = [], ihp_active = None\<rparr> [[CHR ''a'', CHR 0xC3], [CHR ''b'']] = Inl e"
proof -
  have "InlineHiddenTagParser_new example_specs
      = Some \<lparr>ihp_specs = example_specs, ihp_pending = [], ihp_active = None\<rparr>"
    by (simp add: InlineHiddenTagParser_new_def example_specs_def)
  moreover have "opens_separate example_specs" by code_simp
  moreover have "list_all (\<lambda>s. utf8_valid (its_open s) \<and> utf8_valid (its_close s)) example_specs" by code_simp
  moreover have "\<not> utf8_valid (concat [[CHR ''a'', CHR 0xC3], [CHR ''b'']])" by code_simp
  ultimately show ?thesis
    using byte_stream_accepts_utf8[of example_specs _ "[[CHR ''a'', CHR 0xC3], [CHR ''b'']]"] by simp
qed

text \<open>
  A pending text that is itself an opening delimiter: no delimiter found in it is longer, so the
  search picks one that is the whole text.
\<close>

lemma next_open_from_keep:
  "next_open_from specs d k (Some (0, length d, i)) = Some (0, length d, i)"
proof (induction specs arbitrary: k)
  case (Cons s specs)
  have "\<not> length d < length (its_open s)" if "find_sub d (its_open s) = Some j" for j
    using find_sub_Some[OF that] by simp
  with Cons show ?case by (auto split: option.splits)
qed simp

lemma next_open_from_whole:
  assumes "s \<in> set specs" "its_open s = d" "d \<noteq> []"
    and "\<And>pos len i. best = Some (pos, len, i) \<Longrightarrow> pos + len \<le> length d \<and> len < length d"
  shows "\<exists>j<length specs. its_open (specs ! j) = d
    \<and> next_open_from specs d k best = Some (0, length d, k + j)"
  using assms
proof (induction specs arbitrary: k best)
  case (Cons s' specs)
  have self: "find_sub d d = Some 0" using Cons.prems(3) by (cases d) (auto simp: starts_with_def)
  show ?case
  proof (cases "its_open s' = d")
    case True
    have "next_open_from (s' # specs) d k best = Some (0, length d, k)"
      using True self Cons.prems(4) by (auto simp: next_open_from_keep split: option.splits)
    with True show ?thesis by (intro exI[of _ 0]) simp
  next
    case False
    define best' where "best' = (case find_sub d (its_open s') of
          None \<Rightarrow> best
        | Some pos \<Rightarrow>
            (case best of
               None \<Rightarrow> Some (pos, length (its_open s'), k)
             | Some (bpos, blen, bidx) \<Rightarrow>
                 if pos < bpos \<or> pos = bpos \<and> length (its_open s') > blen
                 then Some (pos, length (its_open s'), k) else best))"
    have bound: "pos + length (its_open s') \<le> length d \<and> length (its_open s') < length d"
      if "find_sub d (its_open s') = Some pos" for pos
      using find_sub_Some[OF that] False by (cases "length (its_open s') = length d") auto
    have "pos + len \<le> length d \<and> len < length d" if "best' = Some (pos, len, i)" for pos len i
      using that Cons.prems(4) bound unfolding best'_def
      by (auto split: option.splits if_splits)
    then obtain j where "j < length specs" "its_open (specs ! j) = d"
      "next_open_from specs d (Suc k) best' = Some (0, length d, Suc k + j)"
      using Cons.IH[of "best'" "Suc k"] Cons.prems(1-3) False by auto
    then show ?thesis by (intro exI[of _ "Suc j"]) (simp add: best'_def)
  qed
qed simp

lemma push_whole_opener:
  assumes "distinct (map its_open specs)" "s \<in> set specs" "its_open s \<noteq> []" "its_close s \<noteq> []"
  shows "hidden_tag_push_str \<lparr>ihp_specs = specs, ihp_pending = [], ihp_active = None\<rparr> (its_open s)
    = Some (\<lparr>ihp_specs = specs, ihp_pending = [],
        ihp_active = Some \<lparr>at_tag = its_tag s, at_close = its_close s, at_content = []\<rparr>\<rparr>, chunk_default)"
proof -
  obtain j where j: "j < length specs" "its_open (specs ! j) = its_open s"
    "find_next_open specs (its_open s) = Some (0, j)"
    using next_open_from_whole[OF assms(2) refl assms(3), of None 0] by (auto simp: find_next_open_def)
  have "specs ! j = s"
    using assms(1,2) j(1,2) inj_onD[of its_open "set specs" "specs ! j" s] by (simp add: distinct_map)
  moreover obtain n where n: "length (its_open s) = Suc n" using assms(3) by (cases "its_open s") auto
  moreover have "find_sub [] (its_close s) = None" using assms(4) by simp
  ultimately show ?thesis
    using j(3) by (simp add: hidden_tag_push_str_def Let_def sat_simps chunk_default_def chunk_append_def)
qed

lemma first_tag_of_active:
  assumes "parser_specs_ok specs" "delimiter (at_close t)"
  obtains st' out where
    "hidden_tag_push_str \<lparr>ihp_specs = specs, ihp_pending = [], ihp_active = Some t\<rparr> c = Some (st', out)"
    and "extracted (chunk_append out (snd (hidden_tag_finish st'))) \<noteq> []"
    and "eit_tag (hd (extracted (chunk_append out (snd (hidden_tag_finish st'))))) = at_tag t"
proof (cases "find_sub c (at_close t)")
  case None
  define n where "n = usize_sat_sub (length c) (longest_suffix_prefix_len c (at_close t))"
  define t' where "t' = t\<lparr>at_content := at_content t @ take n c\<rparr>"
  have "hidden_tag_push_str \<lparr>ihp_specs = specs, ihp_pending = [], ihp_active = Some t\<rparr> c
      = Some (\<lparr>ihp_specs = specs, ihp_pending = drop n c, ihp_active = Some t'\<rparr>, chunk_default)"
    using None by (simp add: hidden_tag_push_str_def Let_def n_def t'_def)
  then show thesis by (rule that) (simp_all add: hidden_tag_finish_def t'_def)
next
  case (Some i)
  have "length (drop (i + length (at_close t)) c) < length c"
    using find_sub_Some[OF Some] assms(2) by (cases "at_close t") (auto simp: delimiter_def)
  from push_loop_terminates[OF assms(1) _ this, of None]
  obtain a p out where "push_loop (length c) specs None (drop (i + length (at_close t)) c) = Some (a, p, out)"
    by (auto simp: active_ok_def)
  with Some have "hidden_tag_push_str \<lparr>ihp_specs = specs, ihp_pending = [], ihp_active = Some t\<rparr> c
      = Some (\<lparr>ihp_specs = specs, ihp_pending = p, ihp_active = a\<rparr>,
          \<lparr>visible_text = visible_text out,
           extracted = \<lparr>eit_tag = at_tag t, eit_content = at_content t @ take i c\<rparr> # extracted out\<rparr>)"
    by (simp add: hidden_tag_push_str_def chunk_append_def)
  then show thesis by (rule that) (simp_all add: chunk_append_def)
qed

text \<open>
  C37: The longest opening delimiter at a position wins only if it is complete when the search
  runs, so chunk independence needs separate delimiters. For all specs with different opening delimiters
  of which one, with a tag of its own, is a proper prefix of another: pushing the longer delimiter
  at once and ending the stream gives an empty tag of the longer kind; pushing the same text cut
  behind the shorter delimiter gives, as first tag, one of the shorter kind.
\<close>
theorem longest_opener_depends_on_chunks:
  assumes "InlineHiddenTagParser_new specs = Some st" "distinct (map its_open specs)"
    and "list_all (\<lambda>s. utf8_valid (its_open s) \<and> utf8_valid (its_close s)) specs"
    and "s1 \<in> set specs" "s2 \<in> set specs" "its_open s2 = its_open s1 @ x" "its_tag s1 \<noteq> its_tag s2"
  shows "\<exists>st1 out1 st2 out2.
     hidden_tag_push_chunks st [its_open s1 @ x] = Some (st1, out1)
   \<and> hidden_tag_push_chunks st [its_open s1, x] = Some (st2, out2)
   \<and> chunk_append out1 (snd (hidden_tag_finish st1))
       = \<lparr>visible_text = [], extracted = [\<lparr>eit_tag = its_tag s2, eit_content = []\<rparr>]\<rparr>
   \<and> extracted (chunk_append out2 (snd (hidden_tag_finish st2))) \<noteq> []
   \<and> eit_tag (hd (extracted (chunk_append out2 (snd (hidden_tag_finish st2))))) = its_tag s1
   \<and> chunk_append out1 (snd (hidden_tag_finish st1)) \<noteq> chunk_append out2 (snd (hidden_tag_finish st2))"
proof -
  let ?active = "\<lambda>s. \<lparr>at_tag = its_tag s, at_close = its_close s, at_content = []\<rparr>"
  let ?st = "\<lambda>s. \<lparr>ihp_specs = specs, ihp_pending = [], ihp_active = Some (?active s)\<rparr>"
  have st: "st = \<lparr>ihp_specs = specs, ihp_pending = [], ihp_active = None\<rparr>"
    and ne: "list_all (\<lambda>s. its_open s \<noteq> [] \<and> its_close s \<noteq> []) specs"
    using assms(1) by (auto simp: InlineHiddenTagParser_new_def split: if_splits)
  have ok: "parser_specs_ok specs"
    using ne assms(3) by (auto simp: parser_specs_ok_def delimiter_def list_all_iff)
  have push: "hidden_tag_push_str st (its_open s) = Some (?st s, chunk_default)" if "s \<in> set specs" for s
    unfolding st using push_whole_opener[OF assms(2) that] ne that by (simp add: list_all_iff)
  have "delimiter (at_close (?active s1))"
    using ok assms(4) by (simp add: parser_specs_ok_def list_all_iff)
  then obtain st' out where out: "hidden_tag_push_str (?st s1) x = Some (st', out)"
    "extracted (chunk_append out (snd (hidden_tag_finish st'))) \<noteq> []"
    "eit_tag (hd (extracted (chunk_append out (snd (hidden_tag_finish st'))))) = its_tag s1"
    using first_tag_of_active[OF ok, of "?active s1" x] by auto
  have "hidden_tag_push_chunks st [its_open s1 @ x] = Some (?st s2, chunk_default)"
    using push[OF assms(5)] by (simp add: assms(6))
  moreover have "hidden_tag_push_chunks st [its_open s1, x] = Some (st', out)"
    using push[OF assms(4)] out(1) by simp
  moreover have whole: "chunk_append chunk_default (snd (hidden_tag_finish (?st s2)))
      = \<lparr>visible_text = [], extracted = [\<lparr>eit_tag = its_tag s2, eit_content = []\<rparr>]\<rparr>"
    by (simp add: hidden_tag_finish_def)
  moreover have "chunk_append chunk_default (snd (hidden_tag_finish (?st s2)))
      \<noteq> chunk_append out (snd (hidden_tag_finish st'))"
    using out(3) assms(7) unfolding whole
    by (metis StreamTextChunk.select_convs(2) ExtractedInlineTag.select_convs(1) list.sel(1))
  ultimately show ?thesis using out(2,3) by blast
qed

theorem longest_opener_depends_on_chunks_witness:
  "let specs = [\<lparr>its_tag = 0, its_open = ''<a'', its_close = ''>''\<rparr>,
                \<lparr>its_tag = 1, its_open = ''<ab>'', its_close = ''>''\<rparr>] :: nat InlineTagSpec list;
       st = \<lparr>ihp_specs = specs, ihp_pending = [], ihp_active = None\<rparr> in
     \<exists>st1 out1 st2 out2.
       hidden_tag_push_chunks st [''<ab>''] = Some (st1, out1)
     \<and> hidden_tag_push_chunks st [''<a'', ''b>''] = Some (st2, out2)
     \<and> chunk_append out1 (snd (hidden_tag_finish st1)) \<noteq> chunk_append out2 (snd (hidden_tag_finish st2))"
proof -
  let ?s1 = "\<lparr>its_tag = 0, its_open = ''<a'', its_close = ''>''\<rparr> :: nat InlineTagSpec"
  let ?s2 = "\<lparr>its_tag = 1, its_open = ''<ab>'', its_close = ''>''\<rparr> :: nat InlineTagSpec"
  have "InlineHiddenTagParser_new [?s1, ?s2]
      = Some \<lparr>ihp_specs = [?s1, ?s2], ihp_pending = [], ihp_active = None\<rparr>"
    by (simp add: InlineHiddenTagParser_new_def)
  moreover have "list_all (\<lambda>s. utf8_valid (its_open s) \<and> utf8_valid (its_close s)) [?s1, ?s2]"
    by code_simp
  ultimately show ?thesis
    using longest_opener_depends_on_chunks[of "[?s1, ?s2]" _ ?s1 ?s2 "''b>''"]
    unfolding Let_def by fastforce
qed

end
