(* ===== verification/Request_Queues.thy ===== *)
theory Request_Queues
  imports Codex_Prelude
begin

text \<open>
  Serialization of client requests in the app server: the per-key queues of
  \<open>codex-rs/app-server/src/request_serialization.rs\<close> and the gate a connection puts in front of
  its requests (\<open>connection_rpc_gate.rs\<close>).

  The operations under the lock are functions. The tasks that \<open>enqueue\<close> spawns, the futures they
  run, requests that are spawned without a queue (\<open>message_processor.rs\<close>) and the shutdown of a gate
  interleave: that is the step relation \<open>rq_step\<close>, whose states also log what was enqueued and what
  was joined. A future that runs may finish or panic; nothing catches the panic, so it ends the task
  that polls it. A future that never completes is one that is not stepped any more.
  \<open>tokio_util\<close>'s \<open>TaskTracker\<close> is a parameter, with its documented behaviour as the hypothesis
  \<open>tracker_laws\<close>.
\<close>

section \<open>Keys and access\<close>

datatype ClientRequestSerializationScope =
    Scope_Global string
  | Scope_GlobalSharedRead string
  | Scope_Thread string
  | Scope_ThreadPath string

datatype RequestSerializationQueueKey =
    Key_Global string
  | Key_Thread string
  | Key_ThreadPath string

datatype RequestSerializationAccess = Exclusive | SharedRead

fun from_scope ::
  "ClientRequestSerializationScope \<Rightarrow> RequestSerializationQueueKey \<times> RequestSerializationAccess" where
  "from_scope (Scope_Global name) = (Key_Global name, Exclusive)"
| "from_scope (Scope_GlobalSharedRead name) = (Key_Global name, SharedRead)"
| "from_scope (Scope_Thread thread_id) = (Key_Thread thread_id, Exclusive)"
| "from_scope (Scope_ThreadPath path) = (Key_ThreadPath path, Exclusive)"

section \<open>The gate of a connection\<close>

text \<open>
  The operations of \<open>TaskTracker\<close> the gate uses: \<open>new\<close>, \<open>token\<close>, dropping a token, \<open>close\<close>, and whether
  \<open>wait\<close> would complete.
\<close>

record 'tr TaskTracker =
  tracker_new :: 'tr
  tracker_token :: "'tr \<Rightarrow> 'tr"
  tracker_drop :: "'tr \<Rightarrow> 'tr"
  tracker_close :: "'tr \<Rightarrow> 'tr"
  tracker_wait_done :: "'tr \<Rightarrow> bool"

text \<open>
  The documented behaviour: a tracker counts its live tokens, and \<open>wait\<close> completes when the
  tracker is closed and has none.
\<close>

definition tracker_laws :: "'tr TaskTracker \<Rightarrow> ('tr \<Rightarrow> nat) \<Rightarrow> ('tr \<Rightarrow> bool) \<Rightarrow> bool" where
  "tracker_laws tr live closed \<longleftrightarrow>
     live (tracker_new tr) = 0 \<and> \<not> closed (tracker_new tr)
   \<and> (\<forall>t. live (tracker_token tr t) = Suc (live t) \<and> closed (tracker_token tr t) = closed t)
   \<and> (\<forall>t. live (tracker_drop tr t) = live t - 1 \<and> closed (tracker_drop tr t) = closed t)
   \<and> (\<forall>t. live (tracker_close tr t) = live t \<and> closed (tracker_close tr t))
   \<and> (\<forall>t. tracker_wait_done tr t \<longleftrightarrow> closed t \<and> live t = 0)"

record 'tr ConnectionRpcGate =
  accepting :: bool
  tasks :: 'tr

definition ConnectionRpcGate_new :: "'tr TaskTracker \<Rightarrow> 'tr ConnectionRpcGate" where
  "ConnectionRpcGate_new tr = \<lparr>accepting = True, tasks = tracker_new tr\<rparr>"

text \<open>
  \<open>run\<close>: the part under the lock, which returns without polling the future (\<open>None\<close>) or takes a token;
  and dropping the token when the future is done.
\<close>

definition gate_run_enter :: "'tr TaskTracker \<Rightarrow> 'tr ConnectionRpcGate \<Rightarrow> 'tr ConnectionRpcGate option" where
  "gate_run_enter tr g = (if \<not> accepting g then None else Some (g\<lparr>tasks := tracker_token tr (tasks g)\<rparr>))"

definition gate_run_leave :: "'tr TaskTracker \<Rightarrow> 'tr ConnectionRpcGate \<Rightarrow> 'tr ConnectionRpcGate" where
  "gate_run_leave tr g = g\<lparr>tasks := tracker_drop tr (tasks g)\<rparr>"

text \<open>\<open>shutdown\<close>: the part under the lock, and whether the wait that follows is over.\<close>

definition gate_shutdown :: "'tr TaskTracker \<Rightarrow> 'tr ConnectionRpcGate \<Rightarrow> 'tr ConnectionRpcGate" where
  "gate_shutdown tr g = \<lparr>accepting = False, tasks = tracker_close tr (tasks g)\<rparr>"

definition gate_shutdown_done :: "'tr TaskTracker \<Rightarrow> 'tr ConnectionRpcGate \<Rightarrow> bool" where
  "gate_shutdown_done tr g \<longleftrightarrow> tracker_wait_done tr (tasks g)"

section \<open>The queues\<close>

text \<open>A request refers to the gate of its connection; its future is known by a number.\<close>

record 'g QueuedInitializedRequest =
  qir_gate :: 'g
  qir_future :: nat

record 'g QueuedSerializedRequest =
  qsr_access :: RequestSerializationAccess
  qsr_request :: "'g QueuedInitializedRequest"

type_synonym 'g queues = "RequestSerializationQueueKey \<rightharpoonup> 'g QueuedSerializedRequest list"

definition enqueue ::
  "'g queues \<Rightarrow> RequestSerializationQueueKey \<Rightarrow> RequestSerializationAccess \<Rightarrow> 'g QueuedInitializedRequest
   \<Rightarrow> 'g queues \<times> bool" where
  "enqueue queues key access request =
     (let r = \<lparr>qsr_access = access, qsr_request = request\<rparr> in
      case queues key of
        Some queue \<Rightarrow> (queues(key \<mapsto> queue @ [r]), False)
      | None \<Rightarrow> (queues(key \<mapsto> [r]), True))"

fun pop_shared :: "'g QueuedSerializedRequest list \<Rightarrow> 'g QueuedSerializedRequest list \<times> 'g QueuedSerializedRequest list" where
  "pop_shared [] = ([], [])"
| "pop_shared (r # q) =
     (if qsr_access r = SharedRead then (let (rs, q') = pop_shared q in (r # rs, q')) else ([], r # q))"

text \<open>One look at the queue in \<open>drain\<close>: the next batch, or \<open>None\<close> for \<open>return\<close>.\<close>

definition drain_next ::
  "'g queues \<Rightarrow> RequestSerializationQueueKey \<Rightarrow> 'g queues \<times> 'g QueuedSerializedRequest list option" where
  "drain_next queues key =
     (case queues key of
        None \<Rightarrow> (queues, None)
      | Some [] \<Rightarrow> (queues(key := None), None)
      | Some (r # q) \<Rightarrow>
          if qsr_access r = SharedRead
          then (let (rs, q') = pop_shared q in (queues(key \<mapsto> q'), Some (r # rs)))
          else (queues(key \<mapsto> q), Some [r]))"

lemma pop_shared_spec:
  "pop_shared q = (rs, q') \<Longrightarrow> q = rs @ q' \<and> list_all (\<lambda>r. qsr_access r = SharedRead) rs"
  by (induction q arbitrary: rs) (auto split: if_splits prod.splits)

lemma drain_next_Some:
  assumes "drain_next queues key = (queues', Some batch)"
  obtains q' where "queues key = Some (batch @ q')" "queues' = queues(key \<mapsto> q')" "batch \<noteq> []"
    "length batch = 1 \<or> list_all (\<lambda>r. qsr_access r = SharedRead) batch"
proof (cases "queues key")
  case (Some q)
  then obtain r q0 where q: "q = r # q0" using assms by (cases q) (auto simp: drain_next_def)
  obtain rs q1 where ps: "pop_shared q0 = (rs, q1)" by (cases "pop_shared q0")
  show ?thesis
  proof (cases "qsr_access r = SharedRead")
    case True
    with assms Some q ps pop_shared_spec[OF ps] that[of q1] show ?thesis by (auto simp: drain_next_def)
  next
    case False
    with assms Some q that[of q0] show ?thesis by (auto simp: drain_next_def)
  qed
qed (use assms in \<open>simp add: drain_next_def\<close>)

lemma drain_next_None:
  "drain_next queues key = (queues', None) \<longleftrightarrow>
   (queues key = None \<or> queues key = Some []) \<and> queues' = queues(key := None)"
  by (auto simp: drain_next_def split: option.splits list.splits if_splits prod.splits)

section \<open>Tasks\<close>

text \<open>
  A spawned \<open>drain\<close> task is about to look at its queue, waits in \<open>join_all\<close> for a batch, has
  returned, or was ended by a panic in a future of its batch. A request of the batch has not
  reached its gate, runs, is over (its future finished or the gate turned it away), or was dropped
  with its task.
\<close>

datatype run_phase = Waiting | Running | Finished | Dropped

datatype 'g drain_state =
    Drain_loop
  | Drain_join "('g QueuedSerializedRequest \<times> run_phase) list"
  | Drain_panicked "('g QueuedSerializedRequest \<times> run_phase) list"
  | Drain_returned

record ('g, 'tr) server =
  srv_queues :: "'g queues"
  srv_tasks :: "(RequestSerializationQueueKey \<times> 'g drain_state) list"
  srv_direct :: "('g QueuedInitializedRequest \<times> run_phase) list"
  srv_gates :: "'g \<Rightarrow> 'tr ConnectionRpcGate"
  srv_enqueued :: "RequestSerializationQueueKey \<Rightarrow> 'g QueuedSerializedRequest list"
  srv_joined :: "RequestSerializationQueueKey \<Rightarrow> 'g QueuedSerializedRequest list"

definition server_init :: "'tr TaskTracker \<Rightarrow> ('g, 'tr) server \<Rightarrow> bool" where
  "server_init tr s \<longleftrightarrow> s = \<lparr>srv_queues = Map.empty, srv_tasks = [], srv_direct = [],
     srv_gates = (\<lambda>_. ConnectionRpcGate_new tr), srv_enqueued = (\<lambda>_. []), srv_joined = (\<lambda>_. [])\<rparr>"

definition do_enqueue ::
  "RequestSerializationQueueKey \<Rightarrow> RequestSerializationAccess \<Rightarrow> 'g QueuedInitializedRequest
   \<Rightarrow> ('g, 'tr) server \<Rightarrow> ('g, 'tr) server" where
  "do_enqueue key access request s =
     (let (queues, should_spawn) = enqueue (srv_queues s) key access request in
      s\<lparr>srv_queues := queues,
        srv_tasks := srv_tasks s @ (if should_spawn then [(key, Drain_loop)] else []),
        srv_enqueued := (srv_enqueued s)(key :=
          srv_enqueued s key @ [\<lparr>qsr_access = access, qsr_request = request\<rparr>])\<rparr>)"

definition do_drain :: "nat \<Rightarrow> RequestSerializationQueueKey \<Rightarrow> ('g, 'tr) server \<Rightarrow> ('g, 'tr) server" where
  "do_drain i key s =
     (let (queues, nx) = drain_next (srv_queues s) key in
      s\<lparr>srv_queues := queues,
        srv_tasks := (srv_tasks s)[i := (key,
          case nx of None \<Rightarrow> Drain_returned | Some batch \<Rightarrow> Drain_join (map (\<lambda>r. (r, Waiting)) batch))]\<rparr>)"

text \<open>
  Unwinding drops the futures of the batch, and with each one that ran its token. The key and what
  is left of its queue stay in the map.
\<close>

definition drop_unfinished :: "('a \<times> run_phase) list \<Rightarrow> ('a \<times> run_phase) list" where
  "drop_unfinished batch = map (\<lambda>(r, ph). (r, if ph = Finished then Finished else Dropped)) batch"

fun leave_gates ::
  "'tr TaskTracker \<Rightarrow> ('g QueuedSerializedRequest \<times> run_phase) list \<Rightarrow> ('g \<Rightarrow> 'tr ConnectionRpcGate) \<Rightarrow> 'g \<Rightarrow> 'tr ConnectionRpcGate" where
  "leave_gates tr [] gates = gates"
| "leave_gates tr ((r, ph) # batch) gates =
     leave_gates tr batch (if ph = Running
       then gates(qir_gate (qsr_request r) := gate_run_leave tr (gates (qir_gate (qsr_request r)))) else gates)"

text \<open>The steps of one task, all of which are made without waiting for anything but futures.\<close>

inductive task_step ::
  "'tr TaskTracker \<Rightarrow> RequestSerializationQueueKey \<Rightarrow> ('g, 'tr) server \<Rightarrow> ('g, 'tr) server \<Rightarrow> bool"
  for tr key where
  drain_look: "i < length (srv_tasks s) \<Longrightarrow> srv_tasks s ! i = (key, Drain_loop) \<Longrightarrow>
     task_step tr key s (do_drain i key s)"
| run_enter: "i < length (srv_tasks s) \<Longrightarrow> srv_tasks s ! i = (key, Drain_join batch) \<Longrightarrow>
     j < length batch \<Longrightarrow> batch ! j = (r, Waiting) \<Longrightarrow>
     gate_run_enter tr (srv_gates s (qir_gate (qsr_request r))) = Some g \<Longrightarrow>
     task_step tr key s (s\<lparr>srv_tasks := (srv_tasks s)[i := (key, Drain_join (batch[j := (r, Running)]))],
       srv_gates := (srv_gates s)(qir_gate (qsr_request r) := g)\<rparr>)"
| run_skip: "i < length (srv_tasks s) \<Longrightarrow> srv_tasks s ! i = (key, Drain_join batch) \<Longrightarrow>
     j < length batch \<Longrightarrow> batch ! j = (r, Waiting) \<Longrightarrow>
     gate_run_enter tr (srv_gates s (qir_gate (qsr_request r))) = None \<Longrightarrow>
     task_step tr key s (s\<lparr>srv_tasks := (srv_tasks s)[i := (key, Drain_join (batch[j := (r, Finished)]))]\<rparr>)"
| run_finish: "i < length (srv_tasks s) \<Longrightarrow> srv_tasks s ! i = (key, Drain_join batch) \<Longrightarrow>
     j < length batch \<Longrightarrow> batch ! j = (r, Running) \<Longrightarrow>
     task_step tr key s (s\<lparr>srv_tasks := (srv_tasks s)[i := (key, Drain_join (batch[j := (r, Finished)]))],
       srv_gates := (srv_gates s)(qir_gate (qsr_request r) :=
         gate_run_leave tr (srv_gates s (qir_gate (qsr_request r))))\<rparr>)"
| run_panic: "i < length (srv_tasks s) \<Longrightarrow> srv_tasks s ! i = (key, Drain_join batch) \<Longrightarrow>
     j < length batch \<Longrightarrow> batch ! j = (r, Running) \<Longrightarrow>
     task_step tr key s (s\<lparr>srv_tasks := (srv_tasks s)[i := (key, Drain_panicked (drop_unfinished batch))],
       srv_gates := leave_gates tr batch (srv_gates s)\<rparr>)"
| join_done: "i < length (srv_tasks s) \<Longrightarrow> srv_tasks s ! i = (key, Drain_join batch) \<Longrightarrow>
     list_all (\<lambda>(r, ph). ph = Finished) batch \<Longrightarrow>
     task_step tr key s (s\<lparr>srv_tasks := (srv_tasks s)[i := (key, Drain_loop)],
       srv_joined := (srv_joined s)(key := srv_joined s key @ map fst batch)\<rparr>)"

text \<open>A request without a serialization scope runs in a task of its own, through the same gate.\<close>

inductive direct_step :: "'tr TaskTracker \<Rightarrow> ('g, 'tr) server \<Rightarrow> ('g, 'tr) server \<Rightarrow> bool" for tr where
  direct_spawn: "direct_step tr s (s\<lparr>srv_direct := srv_direct s @ [(r, Waiting)]\<rparr>)"
| direct_enter: "i < length (srv_direct s) \<Longrightarrow> srv_direct s ! i = (r, Waiting) \<Longrightarrow>
     gate_run_enter tr (srv_gates s (qir_gate r)) = Some g \<Longrightarrow>
     direct_step tr s (s\<lparr>srv_direct := (srv_direct s)[i := (r, Running)], srv_gates := (srv_gates s)(qir_gate r := g)\<rparr>)"
| direct_skip: "i < length (srv_direct s) \<Longrightarrow> srv_direct s ! i = (r, Waiting) \<Longrightarrow>
     gate_run_enter tr (srv_gates s (qir_gate r)) = None \<Longrightarrow>
     direct_step tr s (s\<lparr>srv_direct := (srv_direct s)[i := (r, Finished)]\<rparr>)"
| direct_end: "i < length (srv_direct s) \<Longrightarrow> srv_direct s ! i = (r, Running) \<Longrightarrow> ph = Finished \<or> ph = Dropped \<Longrightarrow>
     direct_step tr s (s\<lparr>srv_direct := (srv_direct s)[i := (r, ph)],
       srv_gates := (srv_gates s)(qir_gate r := gate_run_leave tr (srv_gates s (qir_gate r)))\<rparr>)"

inductive rq_step :: "'tr TaskTracker \<Rightarrow> ('g, 'tr) server \<Rightarrow> ('g, 'tr) server \<Rightarrow> bool" for tr where
  step_enqueue: "rq_step tr s (do_enqueue key access request s)"
| step_task: "task_step tr key s t \<Longrightarrow> rq_step tr s t"
| step_direct: "direct_step tr s t \<Longrightarrow> rq_step tr s t"
| step_shutdown: "rq_step tr s (s\<lparr>srv_gates := (srv_gates s)(g := gate_shutdown tr (srv_gates s g))\<rparr>)"

section \<open>Serialization\<close>

type_synonym 'g task = "RequestSerializationQueueKey \<times> 'g drain_state"

fun drain_batch :: "'g drain_state \<Rightarrow> ('g QueuedSerializedRequest \<times> run_phase) list" where
  "drain_batch (Drain_join batch) = batch"
| "drain_batch (Drain_panicked batch) = batch"
| "drain_batch _ = []"

definition live_tasks :: "'g task list \<Rightarrow> RequestSerializationQueueKey \<Rightarrow> 'g task list" where
  "live_tasks ts key = filter (\<lambda>(k, d). k = key \<and> d \<noteq> Drain_returned) ts"

definition current_batch ::
  "('g, 'tr) server \<Rightarrow> RequestSerializationQueueKey \<Rightarrow> ('g QueuedSerializedRequest \<times> run_phase) list" where
  "current_batch s key = concat (map (drain_batch \<circ> snd) (live_tasks (srv_tasks s) key))"

definition queue_of :: "('g, 'tr) server \<Rightarrow> RequestSerializationQueueKey \<Rightarrow> 'g QueuedSerializedRequest list" where
  "queue_of s key = (case srv_queues s key of None \<Rightarrow> [] | Some q \<Rightarrow> q)"

definition serial_inv :: "('g, 'tr) server \<Rightarrow> bool" where
  "serial_inv s \<longleftrightarrow> (\<forall>key.
     length (live_tasks (srv_tasks s) key) = (if srv_queues s key = None then 0 else 1)
   \<and> srv_enqueued s key = srv_joined s key @ map fst (current_batch s key) @ queue_of s key
   \<and> (length (current_batch s key) \<le> 1
       \<or> list_all (\<lambda>(r, ph). qsr_access r = SharedRead) (current_batch s key)))"

text \<open>A step of a task replaces the only live task of its key.\<close>

lemma live_tasks_update:
  assumes i: "i < length ts" "ts ! i = (key, d)" "d \<noteq> Drain_returned"
    and one: "length (live_tasks ts key) \<le> 1"
  shows "live_tasks ts key = [(key, d)]"
    and "live_tasks (ts[i := (key, d')]) key = (if d' = Drain_returned then [] else [(key, d')])"
    and "k \<noteq> key \<Longrightarrow> live_tasks (ts[i := (key, d')]) k = live_tasks ts k"
proof -
  have ts: "ts = take i ts @ (key, d) # drop (Suc i) ts" using i by (metis id_take_nth_drop)
  have split: "live_tasks ts k = live_tasks (take i ts) k @ (if k = key then [(key, d)] else [])
      @ live_tasks (drop (Suc i) ts) k" for k
    by (subst ts) (simp add: live_tasks_def i(3))
  have upd: "live_tasks (ts[i := (key, d')]) k = live_tasks (take i ts) k
      @ (if k = key \<and> d' \<noteq> Drain_returned then [(key, d')] else []) @ live_tasks (drop (Suc i) ts) k" for k
    using i(1) by (simp add: upd_conv_take_nth_drop live_tasks_def)
  have empty: "live_tasks (take i ts) key = []" "live_tasks (drop (Suc i) ts) key = []"
    using one split[of key] by auto
  show "live_tasks ts key = [(key, d)]" using split[of key] empty by simp
  show "live_tasks (ts[i := (key, d')]) key = (if d' = Drain_returned then [] else [(key, d')])"
    using upd[of key] empty by simp
  show "k \<noteq> key \<Longrightarrow> live_tasks (ts[i := (key, d')]) k = live_tasks ts k" using upd[of k] split[of k] by simp
qed

lemma live_tasks_append: "live_tasks (ts @ us) key = live_tasks ts key @ live_tasks us key"
  by (simp add: live_tasks_def)

lemma serial_inv_task:
  assumes inv: "serial_inv s" and i: "i < length (srv_tasks s)" "srv_tasks s ! i = (key, d)" "d \<noteq> Drain_returned"
  shows "length (live_tasks (srv_tasks s) key) \<le> 1" "srv_queues s key \<noteq> None"
    "live_tasks (srv_tasks s) key = [(key, d)]" "current_batch s key = drain_batch d"
proof -
  show one: "length (live_tasks (srv_tasks s) key) \<le> 1" using inv by (auto simp: serial_inv_def)
  show live: "live_tasks (srv_tasks s) key = [(key, d)]" by (rule live_tasks_update(1)[OF i one])
  then show "current_batch s key = drain_batch d" by (simp add: current_batch_def)
  show "srv_queues s key \<noteq> None" using inv[unfolded serial_inv_def, rule_format, of key] live by (auto split: if_splits)
qed

text \<open>Changing the phase of a request of the batch keeps the requests.\<close>

lemma list_all_fst: "list_all (\<lambda>(r, ph). P r) batch \<longleftrightarrow> list_all P (map fst batch)"
  by (induction batch) auto

lemma serial_inv_phase:
  assumes inv: "serial_inv s" and i: "i < length (srv_tasks s)" "srv_tasks s ! i = (key, Drain_join batch)"
    and j: "j < length batch" "batch ! j = (r, ph)"
  shows "serial_inv (s\<lparr>srv_tasks := (srv_tasks s)[i := (key, Drain_join (batch[j := (r, ph')]))],
    srv_gates := gs\<rparr>)" (is "serial_inv ?t")
proof -
  have live: "Drain_join batch \<noteq> Drain_returned" by simp
  note task = serial_inv_task[OF inv i live]
  note upd = live_tasks_update(2,3)[where d' = "Drain_join (batch[j := (r, ph')])", OF i live task(1)]
  have fst: "map fst (batch[j := (r, ph')]) = map fst batch"
    using j by (metis fst_conv list_update_id map_update)
  have shared: "list_all (\<lambda>(r, ph). qsr_access r = SharedRead) (batch[j := (r, ph')])
      \<longleftrightarrow> list_all (\<lambda>(r, ph). qsr_access r = SharedRead) batch"
    by (simp only: list_all_fst fst)
  have cur: "current_batch ?t k = (if k = key then batch[j := (r, ph')] else current_batch s k)" for k
    using upd by (simp add: current_batch_def)
  have q: "queue_of ?t k = queue_of s k" for k by (simp add: queue_of_def)
  show ?thesis
    unfolding serial_inv_def
  proof (intro allI, goal_cases)
    case (1 k)
    from inv[unfolded serial_inv_def, rule_format, of k] task upd show ?case
      by (cases "k = key") (auto simp: cur q fst shared)
  qed
qed

lemma serial_inv_drain:
  assumes inv: "serial_inv s" and i: "i < length (srv_tasks s)" "srv_tasks s ! i = (key, Drain_loop)"
  shows "serial_inv (do_drain i key s)"
proof -
  have live: "Drain_loop \<noteq> Drain_returned" by simp
  note task = serial_inv_task[OF inv i live]
  note upd = live_tasks_update[OF i live task(1)]
  note I = inv[unfolded serial_inv_def, rule_format]
  obtain queues' nx where n: "drain_next (srv_queues s) key = (queues', nx)"
    by (cases "drain_next (srv_queues s) key")
  show ?thesis
  proof (cases nx)
    case None
    have nn: "(srv_queues s key = None \<or> srv_queues s key = Some []) \<and> queues' = (srv_queues s)(key := None)"
      using n by (simp only: None drain_next_None)
    then have t: "do_drain i key s = s\<lparr>srv_queues := (srv_queues s)(key := None),
        srv_tasks := (srv_tasks s)[i := (key, Drain_returned)]\<rparr>"
      by (simp add: do_drain_def n None)
    have empty: "queue_of s key = []" using nn by (auto simp: queue_of_def)
    show ?thesis
      unfolding serial_inv_def t
    proof (intro allI, goal_cases)
      case (1 k)
      from I[of k] task upd empty show ?case
        by (cases "k = key") (auto simp: current_batch_def queue_of_def)
    qed
  next
    case (Some batch)
    with n obtain q' where q: "srv_queues s key = Some (batch @ q')" "queues' = (srv_queues s)(key \<mapsto> q')"
      "length batch = 1 \<or> list_all (\<lambda>r. qsr_access r = SharedRead) batch"
      by (auto elim: drain_next_Some)
    then have t: "do_drain i key s = s\<lparr>srv_queues := (srv_queues s)(key \<mapsto> q'),
        srv_tasks := (srv_tasks s)[i := (key, Drain_join (map (\<lambda>r. (r, Waiting)) batch))]\<rparr>"
      and q0: "queue_of s key = batch @ q'"
      using n Some by (auto simp: do_drain_def queue_of_def)
    show ?thesis
      unfolding serial_inv_def t
    proof (intro allI, goal_cases)
      case (1 k)
      from I[of k] task upd q0 q(3) show ?case
        by (cases "k = key") (auto simp: current_batch_def queue_of_def list.pred_map o_def)
    qed
  qed
qed

lemma serial_inv_join:
  assumes inv: "serial_inv s" and i: "i < length (srv_tasks s)" "srv_tasks s ! i = (key, Drain_join batch)"
  shows "serial_inv (s\<lparr>srv_tasks := (srv_tasks s)[i := (key, Drain_loop)],
       srv_joined := (srv_joined s)(key := srv_joined s key @ map fst batch)\<rparr>)" (is "serial_inv ?t")
proof -
  have live: "Drain_join batch \<noteq> Drain_returned" by simp
  note task = serial_inv_task[OF inv i live]
  note upd = live_tasks_update(2,3)[where d' = Drain_loop, OF i live task(1)]
  have cur: "current_batch ?t k = (if k = key then [] else current_batch s k)" for k
    using upd by (simp add: current_batch_def)
  have q: "queue_of ?t k = queue_of s k" for k by (simp add: queue_of_def)
  show ?thesis
    unfolding serial_inv_def
  proof (intro allI, goal_cases)
    case (1 k)
    from inv[unfolded serial_inv_def, rule_format, of k] task upd show ?case
      by (cases "k = key") (auto simp: cur q)
  qed
qed

lemma drop_unfinished_fst [simp]: "map fst (drop_unfinished batch) = map fst batch"
  by (induction batch) (auto simp: drop_unfinished_def)

lemma serial_inv_panic:
  assumes inv: "serial_inv s" and i: "i < length (srv_tasks s)" "srv_tasks s ! i = (key, Drain_join batch)"
  shows "serial_inv (s\<lparr>srv_tasks := (srv_tasks s)[i := (key, Drain_panicked (drop_unfinished batch))], srv_gates := gs\<rparr>)"
    (is "serial_inv ?t")
proof -
  have live: "Drain_join batch \<noteq> Drain_returned" by simp
  note task = serial_inv_task[OF inv i live]
  note upd = live_tasks_update(2,3)[where d' = "Drain_panicked (drop_unfinished batch)", OF i live task(1)]
  have cur: "current_batch ?t k = (if k = key then drop_unfinished batch else current_batch s k)" for k
    using upd by (simp add: current_batch_def)
  have q: "queue_of ?t k = queue_of s k" for k by (simp add: queue_of_def)
  have len: "length (drop_unfinished batch) = length batch" by (simp add: drop_unfinished_def)
  have shared: "list_all (\<lambda>(r, ph). qsr_access r = SharedRead) (drop_unfinished batch)
      \<longleftrightarrow> list_all (\<lambda>(r, ph). qsr_access r = SharedRead) batch"
    by (simp only: list_all_fst drop_unfinished_fst)
  show ?thesis
    unfolding serial_inv_def
  proof (intro allI, goal_cases)
    case (1 k)
    from inv[unfolded serial_inv_def, rule_format, of k] task upd show ?case
      by (cases "k = key") (auto simp: cur q len shared)
  qed
qed

lemma serial_inv_enqueue: "serial_inv s \<Longrightarrow> serial_inv (do_enqueue key access request s)"
  unfolding serial_inv_def
proof (intro allI, goal_cases)
  case (1 k)
  from 1[rule_format, of k] show ?case
    by (cases "k = key"; cases "srv_queues s key")
      (auto simp: do_enqueue_def enqueue_def live_tasks_append current_batch_def queue_of_def live_tasks_def
        split: if_splits)
qed

interpretation serial: step_invariant "server_init tr :: ('g, 'tr) server \<Rightarrow> bool" "rq_step tr" serial_inv
  for tr
proof unfold_locales
  fix s t :: "('g, 'tr) server"
  assume inv: "serial_inv s" and "rq_step tr s t"
  from this(2) show "serial_inv t"
  proof cases
    case (step_task key)
    from this show ?thesis
    proof cases
      case (run_skip i batch j r)
      with serial_inv_phase[OF inv run_skip(2-5), where gs = "srv_gates s"] show ?thesis by simp
    qed (use inv in \<open>auto intro: serial_inv_drain serial_inv_phase serial_inv_join serial_inv_panic\<close>)
  next
    case step_direct
    then have "srv_tasks t = srv_tasks s" "srv_queues t = srv_queues s" "srv_enqueued t = srv_enqueued s" "srv_joined t = srv_joined s"
      by (cases; simp)+
    with inv show ?thesis by (simp add: serial_inv_def current_batch_def queue_of_def)
  qed (use inv in \<open>auto simp: serial_inv_enqueue, auto simp: serial_inv_def current_batch_def queue_of_def\<close>)
qed (simp add: server_init_def serial_inv_def live_tasks_def current_batch_def queue_of_def)

section \<open>Progress\<close>

text \<open>What is left to do for a key, in steps of its task.\<close>

fun phase_weight :: "run_phase \<Rightarrow> nat" where
  "phase_weight Waiting = 2"
| "phase_weight Running = 1"
| "phase_weight Finished = 0"
| "phase_weight Dropped = 0"

fun drain_weight :: "'g drain_state \<Rightarrow> nat" where
  "drain_weight Drain_loop = 1"
| "drain_weight (Drain_join batch) = 2 + sum_list (map (phase_weight \<circ> snd) batch)"
| "drain_weight (Drain_panicked batch) = 0"
| "drain_weight Drain_returned = 0"

definition work_left :: "('g, 'tr) server \<Rightarrow> RequestSerializationQueueKey \<Rightarrow> nat" where
  "work_left s key = 4 * length (queue_of s key)
     + sum_list (map (drain_weight \<circ> snd) (live_tasks (srv_tasks s) key))"

lemma sum_list_map_update:
  fixes f :: "'a \<Rightarrow> nat"
  shows "i < length xs \<Longrightarrow> sum_list (map f (xs[i := y])) + f (xs ! i) = sum_list (map f xs) + f y"
  by (induction xs arbitrary: i) (auto split: nat.splits)

lemma work_left_update:
  assumes inv: "serial_inv s" and i: "i < length (srv_tasks s)" "srv_tasks s ! i = (key, d)" "d \<noteq> Drain_returned"
    and t: "srv_tasks t = (srv_tasks s)[i := (key, d')]"
    and q: "\<And>k. k \<noteq> key \<Longrightarrow> srv_queues t k = srv_queues s k"
    and dec: "4 * length (queue_of t key) + drain_weight d' < 4 * length (queue_of s key) + drain_weight d"
  shows "work_left t key < work_left s key \<and> (\<forall>k. k \<noteq> key \<longrightarrow> work_left t k = work_left s k)"
proof -
  note task = serial_inv_task[OF inv i]
  note upd = live_tasks_update(2,3)[where d' = d', OF i task(1)]
  show ?thesis
    using dec upd task(3) q by (auto simp: work_left_def t queue_of_def)
qed

lemma task_step_decreases:
  assumes inv: "serial_inv s" and step: "task_step tr key s t"
  shows "work_left t key < work_left s key \<and> (\<forall>k. k \<noteq> key \<longrightarrow> work_left t k = work_left s k)"
  using step
proof cases
  case (drain_look i)
  obtain queues' nx where n: "drain_next (srv_queues s) key = (queues', nx)"
    by (cases "drain_next (srv_queues s) key")
  show ?thesis
  proof (cases nx)
    case None
    have q: "(srv_queues s key = None \<or> srv_queues s key = Some []) \<and> queues' = (srv_queues s)(key := None)"
      using n by (simp only: None drain_next_None)
    show ?thesis
      by (rule work_left_update[OF inv drain_look(2,3), where d' = Drain_returned])
        (use q in \<open>auto simp: drain_look(1) do_drain_def n None queue_of_def\<close>)
  next
    case (Some batch)
    with n obtain q' where q: "srv_queues s key = Some (batch @ q')" "queues' = (srv_queues s)(key \<mapsto> q')"
      "batch \<noteq> []" by (auto elim: drain_next_Some)
    have len: "1 \<le> length batch" using q(3) by (cases batch) auto
    have w: "sum_list (map (phase_weight \<circ> snd) (map (\<lambda>r. (r, Waiting)) batch)) = 2 * length batch"
      by (induction batch) auto
    show ?thesis
      by (rule work_left_update[OF inv drain_look(2,3), where d' = "Drain_join (map (\<lambda>r. (r, Waiting)) batch)"])
        (use q w len in \<open>auto simp: drain_look(1) do_drain_def n Some queue_of_def\<close>)
  qed
next
  case (run_enter i batch j r g)
  from sum_list_map_update[OF run_enter(4), of "phase_weight \<circ> snd" "(r, Running)"] show ?thesis
    by (intro work_left_update[OF inv run_enter(2,3)])
      (auto simp: run_enter(1,5) queue_of_def)
next
  case (run_skip i batch j r)
  from sum_list_map_update[OF run_skip(4), of "phase_weight \<circ> snd" "(r, Finished)"] show ?thesis
    by (intro work_left_update[OF inv run_skip(2,3)]) (auto simp: run_skip(1,5) queue_of_def)
next
  case (run_finish i batch j r)
  from sum_list_map_update[OF run_finish(4), of "phase_weight \<circ> snd" "(r, Finished)"] show ?thesis
    by (intro work_left_update[OF inv run_finish(2,3)]) (auto simp: run_finish(1,5) queue_of_def)
next
  case (run_panic i batch j r)
  show ?thesis
    by (rule work_left_update[OF inv run_panic(2,3)]) (auto simp: run_panic(1) queue_of_def)
next
  case (join_done i batch)
  show ?thesis
    by (rule work_left_update[OF inv join_done(2,3)]) (auto simp: join_done(1) queue_of_def)
qed

text \<open>In every batch of a task that was not ended, a request can be stepped or all are over.\<close>

definition batches_kept :: "('g, 'tr) server \<Rightarrow> bool" where
  "batches_kept s \<longleftrightarrow> (\<forall>key batch. (key, Drain_join batch) \<in> set (srv_tasks s) \<longrightarrow> list_all (\<lambda>(r, ph). ph \<noteq> Dropped) batch)"

lemma batches_kept_update:
  assumes "batches_kept s" "srv_tasks t = (srv_tasks s)[i := (key, d)]"
    and "\<And>b. d = Drain_join b \<Longrightarrow> list_all (\<lambda>(r, ph). ph \<noteq> Dropped) b"
  shows "batches_kept t"
  using assms set_update_subset_insert[of "srv_tasks s" i "(key, d)"] by (fastforce simp: batches_kept_def)

lemma batches_kept_phase:
  assumes "batches_kept s" "i < length (srv_tasks s)" "srv_tasks s ! i = (key, Drain_join batch)"
    and "srv_tasks t = (srv_tasks s)[i := (key, Drain_join (batch[j := (r, ph)]))]" "ph \<noteq> Dropped"
  shows "batches_kept t"
proof (rule batches_kept_update[OF assms(1,4)])
  fix b
  assume "Drain_join (batch[j := (r, ph)]) = Drain_join b"
  moreover have "(key, Drain_join batch) \<in> set (srv_tasks s)" using assms(2,3) by (metis nth_mem)
  then have "list_all (\<lambda>(r, ph). ph \<noteq> Dropped) batch" using assms(1) by (simp add: batches_kept_def)
  ultimately show "list_all (\<lambda>(r, ph). ph \<noteq> Dropped) b"
    using set_update_subset_insert[of batch j "(r, ph)"] assms(5) by (fastforce simp: list_all_iff)
qed

lemma batches_kept_step:
  assumes "batches_kept s" "rq_step tr s t"
  shows "batches_kept t"
  using assms(2)
proof cases
  case (step_enqueue key access request)
  with assms(1) show ?thesis by (auto simp: batches_kept_def do_enqueue_def Let_def split: prod.splits if_splits)
next
  case step_direct
  then have "srv_tasks t = srv_tasks s" by cases auto
  with assms(1) show ?thesis by (simp add: batches_kept_def)
next
  case (step_shutdown g)
  with assms(1) show ?thesis by (simp add: batches_kept_def)
next
  case (step_task key)
  from this show ?thesis
  proof cases
    case (drain_look i)
    then show ?thesis
      by (intro batches_kept_update[OF assms(1), of t i key "case snd (drain_next (srv_queues s) key) of None \<Rightarrow> Drain_returned
            | Some batch \<Rightarrow> Drain_join (map (\<lambda>r. (r, Waiting)) batch)"])
        (auto simp: do_drain_def list_all_iff split: prod.splits option.splits)
  next
    case (run_enter i batch j r g)
    then show ?thesis by (intro batches_kept_phase[OF assms(1) run_enter(2,3), of t j r Running]) simp_all
  next
    case (run_skip i batch j r)
    then show ?thesis by (intro batches_kept_phase[OF assms(1) run_skip(2,3), of t j r Finished]) simp_all
  next
    case (run_finish i batch j r)
    then show ?thesis by (intro batches_kept_phase[OF assms(1) run_finish(2,3), of t j r Finished]) simp_all
  next
    case (run_panic i batch j r)
    then show ?thesis by (intro batches_kept_update[OF assms(1), of t i key "Drain_panicked (drop_unfinished batch)"]) simp_all
  next
    case (join_done i batch)
    then show ?thesis by (intro batches_kept_update[OF assms(1), of t i key Drain_loop]) simp_all
  qed
qed

interpretation kept: step_invariant "server_init tr :: ('g, 'tr) server \<Rightarrow> bool" "rq_step tr" batches_kept
  for tr
  by unfold_locales (simp add: server_init_def batches_kept_def, rule batches_kept_step)

lemma task_can_step:
  assumes "(key, d) \<in> set (srv_tasks s)" "d \<noteq> Drain_returned" "\<And>b. d \<noteq> Drain_panicked b" "batches_kept s"
  shows "\<exists>t. task_step tr key s t"
proof -
  obtain i where i: "i < length (srv_tasks s)" "srv_tasks s ! i = (key, d)"
    using assms(1) by (auto simp: in_set_conv_nth)
  show ?thesis
  proof (cases d)
    case Drain_loop
    with i show ?thesis by (auto intro: drain_look)
  next
    case (Drain_join batch)
    show ?thesis
    proof (cases "list_all (\<lambda>(r, ph). ph = Finished) batch")
      case True
      with i Drain_join show ?thesis by (auto intro: join_done)
    next
      case False
      then obtain j r ph where j: "j < length batch" "batch ! j = (r, ph)" "ph \<noteq> Finished"
        by (auto simp: list_all_length)
      show ?thesis
      proof (cases ph)
        case Running
        with i j Drain_join show ?thesis by (auto intro: run_finish)
      next
        case Waiting
        with i j Drain_join show ?thesis
          by (cases "gate_run_enter tr (srv_gates s (qir_gate (qsr_request r)))")
            (auto intro: run_skip run_enter)
      next
        case Dropped
        then have "(r, Dropped) \<in> set batch" using j by (metis nth_mem)
        with assms(1,4) Drain_join show ?thesis by (fastforce simp: batches_kept_def list_all_iff)
      qed (use j in simp)
    qed
  qed (use assms in simp_all)
qed

lemma rest_all_joined:
  assumes inv: "serial_inv s" "batches_kept s" and rest: "\<not> (\<exists>key t. task_step tr key s t)"
    and key: "\<forall>b. (key, Drain_panicked b) \<notin> set (srv_tasks s)"
  shows "srv_queues s key = None \<and> srv_joined s key = srv_enqueued s key"
proof -
  have "d = Drain_returned" if "(key, d) \<in> set (srv_tasks s)" for d
    using task_can_step[OF that _ _ inv(2), of tr] rest key that by blast
  then have live: "live_tasks (srv_tasks s) key = []" by (auto simp: live_tasks_def filter_empty_conv)
  with inv(1)[unfolded serial_inv_def, rule_format, of key] show ?thesis
    by (auto simp: current_batch_def queue_of_def split: if_splits)
qed

text \<open>A step of a task replaces its own state and touches nothing of other keys.\<close>

lemma task_step_acts:
  assumes "task_step tr key s t"
  obtains i d d' where "i < length (srv_tasks s)" "srv_tasks s ! i = (key, d)" "d \<noteq> Drain_returned" "\<And>b. d \<noteq> Drain_panicked b"
    "srv_tasks t = (srv_tasks s)[i := (key, d')]"
    "\<And>k. k \<noteq> key \<Longrightarrow> srv_joined t k = srv_joined s k \<and> srv_queues t k = srv_queues s k"
  using assms
proof cases
  case (drain_look i)
  obtain queues' nx where n: "drain_next (srv_queues s) key = (queues', nx)" by (cases "drain_next (srv_queues s) key")
  then have "queues' k = srv_queues s k" if "k \<noteq> key" for k
    using that by (auto simp: drain_next_def split: option.splits list.splits if_splits prod.splits)
  with drain_look n show ?thesis by (intro that[of i Drain_loop]) (auto simp: do_drain_def)
qed (auto intro: that)

text \<open>A task that a panic ended stays, and no other task of its key is ever started.\<close>

lemma panicked_stays:
  assumes inv: "serial_inv s" and dead: "(key, Drain_panicked b) \<in> set (srv_tasks s)" and step: "rq_step tr s t"
  shows "(key, Drain_panicked b) \<in> set (srv_tasks t) \<and> srv_joined t key = srv_joined s key
    \<and> (\<exists>added. queue_of t key = queue_of s key @ added)"
proof -
  obtain p where p: "p < length (srv_tasks s)" "srv_tasks s ! p = (key, Drain_panicked b)"
    using dead by (auto simp: in_set_conv_nth)
  have other: "srv_tasks t ! p = srv_tasks s ! p \<and> p < length (srv_tasks t) \<and> srv_joined t key = srv_joined s key
      \<and> (\<exists>added. queue_of t key = queue_of s key @ added)"
    using step
  proof cases
    case (step_task k)
    then obtain i d d' where i: "i < length (srv_tasks s)" "srv_tasks s ! i = (k, d)" "d \<noteq> Drain_returned" "\<And>b. d \<noteq> Drain_panicked b"
      "srv_tasks t = (srv_tasks s)[i := (k, d')]" "\<And>k'. k' \<noteq> k \<Longrightarrow> srv_joined t k' = srv_joined s k' \<and> srv_queues t k' = srv_queues s k'"
      by (rule task_step_acts) blast
    have "k \<noteq> key"
    proof
      assume "k = key"
      with live_tasks_update(1)[OF i(1,2) i(3)] live_tasks_update(1)[OF p] inv i(4) show False
        by (auto simp: serial_inv_def)
    qed
    with i p show ?thesis by (cases "i = p") (auto simp: queue_of_def)
  next
    case step_direct
    then have "srv_tasks t = srv_tasks s" "srv_joined t = srv_joined s" "srv_queues t = srv_queues s" by (cases; simp)+
    with p show ?thesis by (simp add: queue_of_def)
  qed (use p in \<open>auto simp: do_enqueue_def enqueue_def queue_of_def Let_def nth_append split: prod.splits option.splits\<close>)
  with p show ?thesis by (metis nth_mem)
qed

lemma panicked_task:
  assumes "serial_inv s" "(key, Drain_panicked b) \<in> set (srv_tasks s)"
  shows "current_batch s key = b" "srv_queues s key \<noteq> None"
proof -
  obtain i where "i < length (srv_tasks s)" "srv_tasks s ! i = (key, Drain_panicked b)"
    using assms(2) by (auto simp: in_set_conv_nth)
  from serial_inv_task[OF assms(1) this] show "current_batch s key = b" "srv_queues s key \<noteq> None" by simp_all
qed

lemma panicked_no_step:
  assumes inv: "serial_inv s" and dead: "(key, Drain_panicked b) \<in> set (srv_tasks s)"
  shows "\<not> task_step tr key s t"
proof
  assume "task_step tr key s t"
  then obtain i d where i: "i < length (srv_tasks s)" "srv_tasks s ! i = (key, d)" "d \<noteq> Drain_returned" "d \<noteq> Drain_panicked b"
    by cases auto
  obtain p where p: "p < length (srv_tasks s)" "srv_tasks s ! p = (key, Drain_panicked b)"
    using dead by (auto simp: in_set_conv_nth)
  have "length (live_tasks (srv_tasks s) key) \<le> 1" using inv by (auto simp: serial_inv_def)
  from live_tasks_update(1)[OF i(1-3) this] live_tasks_update(1)[OF p _ this] i(4) show False by simp
qed

section \<open>The gate\<close>

definition running_of :: "'g \<Rightarrow> ('g QueuedSerializedRequest \<times> run_phase) \<Rightarrow> nat" where
  "running_of g = (\<lambda>(r, ph). if ph = Running \<and> qir_gate (qsr_request r) = g then 1 else 0)"

definition direct_running_of :: "'g \<Rightarrow> ('g QueuedInitializedRequest \<times> run_phase) \<Rightarrow> nat" where
  "direct_running_of g = (\<lambda>(r, ph). if ph = Running \<and> qir_gate r = g then 1 else 0)"

definition running_count :: "('g, 'tr) server \<Rightarrow> 'g \<Rightarrow> nat" where
  "running_count s g = sum_list (map (\<lambda>(k, d). sum_list (map (running_of g) (drain_batch d))) (srv_tasks s))
     + sum_list (map (direct_running_of g) (srv_direct s))"

definition gate_inv :: "('tr \<Rightarrow> nat) \<Rightarrow> ('tr \<Rightarrow> bool) \<Rightarrow> ('g, 'tr) server \<Rightarrow> bool" where
  "gate_inv live closed s \<longleftrightarrow>
     (\<forall>g. live (tasks (srv_gates s g)) = running_count s g \<and> accepting (srv_gates s g) = (\<not> closed (tasks (srv_gates s g))))"

lemma running_count_update:
  assumes "i < length (srv_tasks s)" "srv_tasks s ! i = (key, d)"
    and "srv_tasks t = (srv_tasks s)[i := (key, d')]" "srv_direct t = srv_direct s"
  shows "running_count t g + sum_list (map (running_of g) (drain_batch d))
    = running_count s g + sum_list (map (running_of g) (drain_batch d'))"
  using sum_list_map_update[OF assms(1), of "\<lambda>(k, d). sum_list (map (running_of g) (drain_batch d))" "(key, d')"]
  by (simp add: running_count_def assms)

lemma running_count_phase:
  assumes "i < length (srv_tasks s)" "srv_tasks s ! i = (key, Drain_join batch)"
    and "j < length batch" "batch ! j = (r, ph)"
    and "srv_tasks t = (srv_tasks s)[i := (key, Drain_join (batch[j := (r, ph')]))]" "srv_direct t = srv_direct s"
  shows "running_count t g + running_of g (r, ph) = running_count s g + running_of g (r, ph')"
  using running_count_update[OF assms(1,2,5,6), of g] sum_list_map_update[OF assms(3), of "running_of g" "(r, ph')"]
  by (simp add: assms(4))

lemma running_idle: "list_all (\<lambda>(r, ph). ph \<noteq> Running) batch \<Longrightarrow> sum_list (map (running_of g) batch) = 0"
  by (induction batch) (auto simp: running_of_def)

lemma running_drop_unfinished [simp]: "sum_list (map (running_of g) (drop_unfinished batch)) = 0"
  by (rule running_idle) (auto simp: drop_unfinished_def list_all_iff split: if_splits)

lemma leave_gates_spec:
  assumes "tracker_laws tr live closed"
  shows "live (tasks (leave_gates tr batch gates g)) = live (tasks (gates g)) - sum_list (map (running_of g) batch)"
    "closed (tasks (leave_gates tr batch gates g)) = closed (tasks (gates g))"
    "accepting (leave_gates tr batch gates g) = accepting (gates g)"
  using assms
  by (induction tr batch gates rule: leave_gates.induct)
    (auto simp: running_of_def gate_run_leave_def tracker_laws_def)

lemma leave_gates_accepting: "accepting (leave_gates tr batch gates g) = accepting (gates g)"
  by (induction tr batch gates rule: leave_gates.induct) (auto simp: gate_run_leave_def)

lemma running_count_panic:
  assumes "i < length (srv_tasks s)" "srv_tasks s ! i = (key, Drain_join batch)"
    and "srv_tasks t = (srv_tasks s)[i := (key, Drain_panicked (drop_unfinished batch))]" "srv_direct t = srv_direct s"
  shows "running_count t g = running_count s g - sum_list (map (running_of g) batch)"
  using running_count_update[OF assms, of g] by simp

lemma running_count_direct:
  assumes "i < length (srv_direct s)" "srv_direct s ! i = (r, ph)"
    and "srv_tasks t = srv_tasks s" "srv_direct t = (srv_direct s)[i := (r, ph')]"
  shows "running_count t g + direct_running_of g (r, ph) = running_count s g + direct_running_of g (r, ph')"
  using sum_list_map_update[OF assms(1), of "direct_running_of g" "(r, ph')"] by (simp add: running_count_def assms)

lemma running_count_0_direct:
  assumes "running_count s g = 0" "(r, ph) \<in> set (srv_direct s)" "qir_gate r = g"
  shows "ph \<noteq> Running"
proof
  assume "ph = Running"
  then have "direct_running_of g (r, ph) = 1" using assms(3) by (simp add: direct_running_of_def)
  moreover have "direct_running_of g (r, ph) = 0" using assms(1,2) by (auto simp: running_count_def)
  ultimately show False by simp
qed

lemma running_count_0:
  assumes "running_count s g = 0" "(key, Drain_join batch) \<in> set (srv_tasks s)" "(r, ph) \<in> set batch"
    and "qir_gate (qsr_request r) = g"
  shows "ph \<noteq> Running"
proof
  assume "ph = Running"
  then have "running_of g (r, ph) = 1" using assms(4) by (simp add: running_of_def)
  moreover have "running_of g (r, ph) \<in> set (map (running_of g) batch)" using assms(3) by simp
  moreover have "sum_list (map (running_of g) batch) = 0"
    using assms(1,2) by (auto simp: running_count_def)
  ultimately show False by (metis sum_list_eq_0_iff zero_neq_one)
qed

lemma gate_inv_step:
  assumes laws: "tracker_laws tr live closed" and inv: "gate_inv live closed s" and step: "rq_step tr s t"
  shows "gate_inv live closed t"
  using step
proof cases
  case (step_enqueue key access request)
  then have "running_count t g = running_count s g" "srv_gates t = srv_gates s" for g
    by (auto simp: do_enqueue_def enqueue_def running_count_def Let_def split: option.splits)
  with inv show ?thesis by (simp add: gate_inv_def)
next
  case (step_shutdown g)
  then have "running_count t g' = running_count s g'" for g' by (simp add: running_count_def)
  with inv laws step_shutdown show ?thesis by (auto simp: gate_inv_def gate_shutdown_def tracker_laws_def)
next
  case (step_task key)
  from this show ?thesis
  proof cases
    case (drain_look i)
    obtain queues' nx where n: "drain_next (srv_queues s) key = (queues', nx)"
      by (cases "drain_next (srv_queues s) key")
    let ?d = "case nx of None \<Rightarrow> Drain_returned | Some batch \<Rightarrow> Drain_join (map (\<lambda>r. (r, Waiting)) batch)"
    have "list_all (\<lambda>(r, ph). ph \<noteq> Running) (drain_batch ?d)"
      by (cases nx) (auto simp: list_all_iff)
    then have "running_count t g = running_count s g" for g
      using running_count_update[OF drain_look(2,3), of t ?d g] drain_look(1) n running_idle[of "drain_batch ?d" g]
      by (simp add: do_drain_def)
    moreover have "srv_gates t = srv_gates s" using drain_look(1) n by (simp add: do_drain_def)
    ultimately show ?thesis using inv by (simp add: gate_inv_def)
  next
    case (run_enter i batch j r g)
    have "running_count t g' = running_count s g' + (if g' = qir_gate (qsr_request r) then 1 else 0)" for g'
      using running_count_phase[OF run_enter(2-5), of t Running g'] run_enter(1) by (auto simp: running_of_def)
    with inv laws run_enter(1,6) show ?thesis
      by (auto simp: gate_inv_def gate_run_enter_def tracker_laws_def split: if_splits)
  next
    case (run_skip i batch j r)
    have "running_count t g' = running_count s g'" for g'
      using running_count_phase[OF run_skip(2-5), of t Finished g'] run_skip(1) by (auto simp: running_of_def)
    with inv run_skip(1) show ?thesis by (simp add: gate_inv_def)
  next
    case (run_finish i batch j r)
    have "running_count t g' = running_count s g' - (if g' = qir_gate (qsr_request r) then 1 else 0)" for g'
      using running_count_phase[OF run_finish(2-5), of t Finished g'] run_finish(1) by (auto simp: running_of_def)
    with inv laws run_finish(1) show ?thesis
      by (auto simp: gate_inv_def gate_run_leave_def tracker_laws_def)
  next
    case (join_done i batch)
    have "list_all (\<lambda>(r, ph). ph \<noteq> Running) batch" using join_done(4) by (auto simp: list_all_iff)
    then have "running_count t g = running_count s g" for g
      using running_count_update[OF join_done(2,3), of t Drain_loop g] join_done(1) running_idle[of batch g] by simp
    with inv join_done(1) show ?thesis by (simp add: gate_inv_def)
  next
    case (run_panic i batch j r)
    have "running_count t g = running_count s g - sum_list (map (running_of g) batch)" for g
      by (rule running_count_panic[OF run_panic(2,3)]) (simp_all add: run_panic(1))
    with inv run_panic(1) show ?thesis by (simp add: gate_inv_def leave_gates_spec[OF laws])
  qed
next
  case step_direct
  from this show ?thesis
  proof cases
    case (direct_spawn r)
    then have "running_count t g = running_count s g" for g by (simp add: running_count_def direct_running_of_def)
    with inv direct_spawn show ?thesis by (simp add: gate_inv_def)
  next
    case (direct_enter i r g)
    have "running_count t g' = running_count s g' + (if g' = qir_gate r then 1 else 0)" for g'
      using running_count_direct[OF direct_enter(2,3), of t Running g'] direct_enter(1) by (auto simp: direct_running_of_def)
    with inv laws direct_enter(1,4) show ?thesis
      by (auto simp: gate_inv_def gate_run_enter_def tracker_laws_def split: if_splits)
  next
    case (direct_skip i r)
    have "running_count t g' = running_count s g'" for g'
      using running_count_direct[OF direct_skip(2,3), of t Finished g'] direct_skip(1) by (auto simp: direct_running_of_def)
    with inv direct_skip(1) show ?thesis by (simp add: gate_inv_def)
  next
    case (direct_end i r ph)
    have "running_count t g' = running_count s g' - (if g' = qir_gate r then 1 else 0)" for g'
      using running_count_direct[OF direct_end(2,3), of t ph g'] direct_end(1,4) by (auto simp: direct_running_of_def)
    with inv laws direct_end(1) show ?thesis
      by (auto simp: gate_inv_def gate_run_leave_def tracker_laws_def)
  qed
qed

lemma gate_inv_init: "tracker_laws tr live closed \<Longrightarrow> server_init tr s \<Longrightarrow> gate_inv live closed s"
  by (simp add: server_init_def gate_inv_def running_count_def ConnectionRpcGate_new_def tracker_laws_def)

lemma gate_inv_reachable:
  assumes "tracker_laws tr live closed" "reachable (server_init tr) (rq_step tr) s"
  shows "gate_inv live closed s"
proof -
  have "step_invariant (server_init tr) (rq_step tr) (gate_inv live closed :: ('c, 'a) server \<Rightarrow> bool)"
    by unfold_locales (auto intro: gate_inv_init gate_inv_step assms)
  from step_invariant.reachable_inv[OF this assms(2)] show ?thesis .
qed

text \<open>A gate that is shut stays shut, and one without running requests gets no new ones.\<close>

lemma shut_gate_step:
  assumes "rq_step tr s t" "\<not> accepting (srv_gates s g)" "running_count s g = 0"
  shows "\<not> accepting (srv_gates t g) \<and> running_count t g = 0"
  using assms(1)
proof cases
  case (step_enqueue key access request)
  with assms show ?thesis
    by (auto simp: do_enqueue_def enqueue_def running_count_def Let_def split: option.splits)
next
  case (step_shutdown g')
  with assms show ?thesis by (auto simp: running_count_def gate_shutdown_def)
next
  case (step_task key)
  from this show ?thesis
  proof cases
    case (drain_look i)
    obtain queues' nx where n: "drain_next (srv_queues s) key = (queues', nx)"
      by (cases "drain_next (srv_queues s) key")
    let ?d = "case nx of None \<Rightarrow> Drain_returned | Some batch \<Rightarrow> Drain_join (map (\<lambda>r. (r, Waiting)) batch)"
    have "list_all (\<lambda>(r, ph). ph \<noteq> Running) (drain_batch ?d)"
      by (cases nx) (auto simp: list_all_iff)
    then show ?thesis
      using running_count_update[OF drain_look(2,3), of t ?d g] drain_look(1) n running_idle[of "drain_batch ?d" g] assms
      by (simp add: do_drain_def)
  next
    case (run_enter i batch j r g')
    then show ?thesis
      using running_count_phase[OF run_enter(2-5), of t Running g] assms
      by (auto simp: running_of_def gate_run_enter_def split: if_splits)
  next
    case (run_skip i batch j r)
    then show ?thesis
      using running_count_phase[OF run_skip(2-5), of t Finished g] assms by (auto simp: running_of_def)
  next
    case (run_finish i batch j r)
    then show ?thesis
      using running_count_phase[OF run_finish(2-5), of t Finished g] assms
      by (auto simp: running_of_def gate_run_leave_def)
  next
    case (join_done i batch)
    then show ?thesis
      using running_count_update[OF join_done(2,3), of t Drain_loop g] assms by auto
  next
    case (run_panic i batch j r)
    then show ?thesis
      using running_count_panic[OF run_panic(2,3), of t g] assms by (simp add: leave_gates_accepting)
  qed
next
  case step_direct
  from this show ?thesis
  proof cases
    case (direct_spawn r)
    with assms show ?thesis by (simp add: running_count_def direct_running_of_def)
  next
    case (direct_enter i r g')
    then show ?thesis
      using running_count_direct[OF direct_enter(2,3), of t Running g] assms
      by (auto simp: direct_running_of_def gate_run_enter_def split: if_splits)
  next
    case (direct_skip i r)
    then show ?thesis
      using running_count_direct[OF direct_skip(2,3), of t Finished g] assms by (auto simp: direct_running_of_def)
  next
    case (direct_end i r ph)
    then show ?thesis
      using running_count_direct[OF direct_end(2,3), of t ph g] assms
      by (auto simp: direct_running_of_def gate_run_leave_def)
  qed
qed

lemma shut_gate_stays:
  assumes "(rq_step tr)\<^sup>*\<^sup>* s t" "\<not> accepting (srv_gates s g)" "running_count s g = 0"
  shows "running_count t g = 0"
proof -
  from assms have "\<not> accepting (srv_gates t g) \<and> running_count t g = 0"
    by (induction rule: rtranclp_induct) (auto dest: shut_gate_step)
  then show ?thesis ..
qed

lemma live_unique:
  assumes "length (live_tasks ts key) \<le> 1"
    and "i < length ts" "ts ! i = (key, d)" "d \<noteq> Drain_returned"
    and "j < length ts" "ts ! j = (key, e)" "e \<noteq> Drain_returned"
  shows "i = j"
proof -
  let ?S = "{i. i < length ts \<and> (case ts ! i of (k, d) \<Rightarrow> k = key \<and> d \<noteq> Drain_returned)}"
  have fin: "finite ?S" by (rule finite_subset[of _ "{..<length ts}"]) auto
  have "card ?S \<le> Suc 0" using assms(1) by (simp add: live_tasks_def length_filter_conv_card)
  then have "\<forall>a\<in>?S. \<forall>b\<in>?S. a = b" by (simp only: card_le_Suc0_iff_eq[OF fin])
  moreover have "i \<in> ?S" using assms(2-4) by simp
  moreover have "j \<in> ?S" using assms(5-7) by simp
  ultimately show ?thesis by (simp only: Ball_def)
qed

lemma batch_shared:
  assumes inv: "serial_inv s"
    and i: "i < length (srv_tasks s)" "srv_tasks s ! i = (key, Drain_join b)" "p < length b"
    and j: "j < length (srv_tasks s)" "srv_tasks s ! j = (key, Drain_join b')" "q < length b'" "(i, p) \<noteq> (j, q)"
  shows "qsr_access (fst (b ! p)) = SharedRead \<and> qsr_access (fst (b' ! q)) = SharedRead"
proof -
  have live: "Drain_join b \<noteq> Drain_returned" by simp
  note task = serial_inv_task[OF inv i(1,2) live]
  have "i = j" by (rule live_unique[OF task(1) i(1,2) _ j(1,2)]) simp_all
  with i j have b: "b' = b" "p \<noteq> q" "q < length b" by simp_all
  with i(3) have "\<not> length b \<le> 1" by linarith
  with inv[unfolded serial_inv_def, rule_format, of key] task(4) i(3) b show ?thesis
    by (auto simp: list_all_length case_prod_beta)
qed

section \<open>Properties\<close>

text \<open>A tracker as the documentation describes it, and a server with one request, for the witnesses.\<close>

definition counting_tracker :: "(nat \<times> bool) TaskTracker" where
  "counting_tracker = \<lparr>tracker_new = (0, False), tracker_token = apfst Suc, tracker_drop = apfst (\<lambda>n. n - 1),
     tracker_close = apsnd (\<lambda>_. True), tracker_wait_done = (\<lambda>(n, c). c \<and> n = 0)\<rparr>"

lemma counting_tracker_laws: "tracker_laws counting_tracker fst snd"
  by (simp add: tracker_laws_def counting_tracker_def case_prod_beta)

definition empty_server :: "(nat, nat \<times> bool) server" where
  "empty_server = \<lparr>srv_queues = Map.empty, srv_tasks = [], srv_direct = [],
     srv_gates = (\<lambda>_. ConnectionRpcGate_new counting_tracker), srv_enqueued = (\<lambda>_. []), srv_joined = (\<lambda>_. [])\<rparr>"

lemma empty_server_reachable: "reachable (server_init counting_tracker) (rq_step counting_tracker) empty_server"
  by (intro reach_init) (simp add: server_init_def empty_server_def)

definition sample_request :: "nat QueuedInitializedRequest" where
  "sample_request = \<lparr>qir_gate = 7, qir_future = 1\<rparr>"

text \<open>
  C1: In every interleaving of the app server, requests with the same key are taken in the
  order in which they were enqueued and none is lost: what was enqueued is what was joined,
  followed by the batch that is being joined, or that a panic ended, followed by the queue. Two
  requests of one key are in progress at the same time only if both are shared reads.
\<close>
theorem requests_are_serialized:
  assumes "reachable (server_init tr) (rq_step tr) s"
  shows "srv_enqueued s key = srv_joined s key @ map fst (current_batch s key) @ queue_of s key
    \<and> (\<forall>i j p q b b'. i < length (srv_tasks s) \<and> srv_tasks s ! i = (key, Drain_join b) \<and> p < length b
        \<and> j < length (srv_tasks s) \<and> srv_tasks s ! j = (key, Drain_join b') \<and> q < length b' \<and> (i, p) \<noteq> (j, q)
        \<longrightarrow> qsr_access (fst (b ! p)) = SharedRead \<and> qsr_access (fst (b' ! q)) = SharedRead)"
proof (rule conjI)
  note inv = serial.reachable_inv[OF assms]
  from inv show "srv_enqueued s key = srv_joined s key @ map fst (current_batch s key) @ queue_of s key"
    by (simp add: serial_inv_def)
  show "\<forall>i j p q b b'. i < length (srv_tasks s) \<and> srv_tasks s ! i = (key, Drain_join b) \<and> p < length b
        \<and> j < length (srv_tasks s) \<and> srv_tasks s ! j = (key, Drain_join b') \<and> q < length b' \<and> (i, p) \<noteq> (j, q)
        \<longrightarrow> qsr_access (fst (b ! p)) = SharedRead \<and> qsr_access (fst (b' ! q)) = SharedRead"
    by (intro allI impI, elim conjE) (rule batch_shared[OF inv])
qed

theorem requests_are_serialized_witness:
  "srv_enqueued (do_enqueue (Key_Global ''config'') Exclusive sample_request empty_server) (Key_Global ''config'')
   = map fst (current_batch (do_enqueue (Key_Global ''config'') Exclusive sample_request empty_server) (Key_Global ''config''))
     @ queue_of (do_enqueue (Key_Global ''config'') Exclusive sample_request empty_server) (Key_Global ''config'')"
proof -
  have "reachable (server_init counting_tracker) (rq_step counting_tracker)
      (do_enqueue (Key_Global ''config'') Exclusive sample_request empty_server)"
    by (rule reach_step[OF empty_server_reachable step_enqueue])
  from requests_are_serialized[OF this, of "Key_Global ''config''"] show ?thesis
    by (simp add: do_enqueue_def enqueue_def empty_server_def)
qed

text \<open>
  C6: Requests make progress unless one panics. Every step of a task lowers a measure of the work
  left for its key and leaves that of the other keys alone. When no task can take a step, every
  key has run or skipped all that was enqueued for it and has no queue left, except a key with a
  task that a panic ended. A future that runs is taken to be able to finish or panic.
\<close>
theorem requests_make_progress:
  assumes "reachable (server_init tr) (rq_step tr) s"
  shows "(\<forall>key t. task_step tr key s t \<longrightarrow>
        work_left t key < work_left s key \<and> (\<forall>k. k \<noteq> key \<longrightarrow> work_left t k = work_left s k))
    \<and> ((\<exists>key t. task_step tr key s t)
        \<or> (\<forall>key. srv_queues s key = None \<and> srv_joined s key = srv_enqueued s key
            \<or> (\<exists>b. (key, Drain_panicked b) \<in> set (srv_tasks s))))"
  using serial.reachable_inv[OF assms] kept.reachable_inv[OF assms] task_step_decreases rest_all_joined by blast

theorem requests_make_progress_witness:
  "\<exists>key t. task_step counting_tracker key (do_enqueue (Key_Global ''config'') Exclusive sample_request empty_server) t"
proof -
  let ?s = "do_enqueue (Key_Global ''config'') Exclusive sample_request empty_server"
  have "reachable (server_init counting_tracker) (rq_step counting_tracker) ?s"
    by (rule reach_step[OF empty_server_reachable step_enqueue])
  from requests_make_progress[OF this]
  have "(\<exists>key t. task_step counting_tracker key ?s t)
      \<or> srv_queues ?s (Key_Global ''config'') = None \<or> (\<exists>b. (Key_Global ''config'', Drain_panicked b) \<in> set (srv_tasks ?s))"
    by blast
  then show ?thesis by (auto simp: do_enqueue_def enqueue_def empty_server_def)
qed

text \<open>A server in which the request of a key panicked and another one was enqueued behind it.\<close>

definition panicked_server :: "(nat, nat \<times> bool) server" where
  "panicked_server = (let k = Key_Global ''config''; r = \<lparr>qsr_access = Exclusive, qsr_request = sample_request\<rparr> in
     empty_server\<lparr>srv_queues := [k \<mapsto> []], srv_tasks := [(k, Drain_panicked [(r, Dropped)])],
       srv_gates := (srv_gates empty_server)(7 := \<lparr>accepting = True, tasks = (0, False)\<rparr>),
       srv_enqueued := (\<lambda>_. [])(k := [r])\<rparr>)"

lemma panicked_server_reachable: "reachable (server_init counting_tracker) (rq_step counting_tracker) panicked_server"
proof -
  let ?k = "Key_Global ''config''" and ?r = "\<lparr>qsr_access = Exclusive, qsr_request = sample_request\<rparr>"
  define s1 where "s1 = do_enqueue ?k Exclusive sample_request empty_server"
  define s2 where "s2 = do_drain 0 ?k s1"
  define s3 where "s3 = s2\<lparr>srv_tasks := (srv_tasks s2)[0 := (?k, Drain_join ([(?r, Waiting)][0 := (?r, Running)]))],
       srv_gates := (srv_gates s2)(qir_gate (qsr_request ?r) := \<lparr>accepting = True, tasks = (1, False)\<rparr>)\<rparr>"
  note simps = s1_def s2_def s3_def do_enqueue_def enqueue_def do_drain_def drain_next_def empty_server_def sample_request_def
    gate_run_enter_def gate_run_leave_def ConnectionRpcGate_new_def counting_tracker_def
  have "reachable (server_init counting_tracker) (rq_step counting_tracker) s1"
    unfolding s1_def by (rule reach_step[OF empty_server_reachable step_enqueue])
  moreover have "task_step counting_tracker ?k s1 s2"
    unfolding s2_def by (rule drain_look) (simp_all add: simps)
  moreover have "task_step counting_tracker ?k s2 s3"
    unfolding s3_def by (rule run_enter[where batch = "[(?r, Waiting)]"]) (simp_all add: simps)
  moreover have "task_step counting_tracker ?k s3 panicked_server"
  proof -
    have "panicked_server = s3\<lparr>srv_tasks := (srv_tasks s3)[0 := (?k, Drain_panicked (drop_unfinished [(?r, Running)]))],
        srv_gates := leave_gates counting_tracker [(?r, Running)] (srv_gates s3)\<rparr>"
      by (intro server.equality) (simp_all add: simps panicked_server_def drop_unfinished_def fun_eq_iff Let_def)
    moreover have "task_step counting_tracker ?k s3 \<dots>"
      by (rule run_panic[where j = 0 and r = ?r]) (simp_all add: simps)
    ultimately show ?thesis by simp
  qed
  ultimately show ?thesis by (meson reach_step step_task)
qed

text \<open>
  C40: A panic in a request blocks its key for good: nothing catches it, so it ends the task that
  drains the queue while the key stays in the map. Whatever happens afterwards, no request of that
  key is taken or finished any more, and requests enqueued for it are only added to the queue.
\<close>
theorem panicked_request_blocks_its_key:
  assumes "reachable (server_init tr) (rq_step tr) s" "(key, Drain_panicked b) \<in> set (srv_tasks s)" "(rq_step tr)\<^sup>*\<^sup>* s t"
  shows "srv_joined t key = srv_joined s key \<and> srv_queues t key \<noteq> None \<and> (\<nexists>u. task_step tr key t u)
    \<and> (\<exists>added. srv_enqueued t key = srv_enqueued s key @ added \<and> queue_of t key = queue_of s key @ added)"
proof -
  have t: "reachable (server_init tr) (rq_step tr) t \<and> (key, Drain_panicked b) \<in> set (srv_tasks t) \<and> srv_joined t key = srv_joined s key
      \<and> (\<exists>added. queue_of t key = queue_of s key @ added)"
    using assms(3)
  proof (induction rule: rtranclp_induct)
    case (step y z)
    then have y: "reachable (server_init tr) (rq_step tr) y" "(key, Drain_panicked b) \<in> set (srv_tasks y)" by simp_all
    from panicked_stays[OF serial.reachable_inv[OF y(1)] y(2) step(2)] step reach_step[OF y(1) step(2)] show ?case
      by auto
  qed (use assms in simp)
  note inv = serial.reachable_inv[OF assms(1)] serial.reachable_inv[OF conjunct1[OF t]]
  note led = inv[unfolded serial_inv_def, rule_format, of key]
  show ?thesis
    using t panicked_task[OF inv(1) assms(2)] panicked_task[OF inv(2)] panicked_no_step[OF inv(2)] led by auto
qed

theorem panicked_request_blocks_its_key_witness:
  "(\<nexists>u. task_step counting_tracker (Key_Global ''config'') (do_enqueue (Key_Global ''config'') SharedRead sample_request panicked_server) u)
   \<and> queue_of (do_enqueue (Key_Global ''config'') SharedRead sample_request panicked_server) (Key_Global ''config'') \<noteq> []"
proof -
  let ?k = "Key_Global ''config''" and ?t = "do_enqueue (Key_Global ''config'') SharedRead sample_request panicked_server"
  have dead: "(?k, Drain_panicked [(\<lparr>qsr_access = Exclusive, qsr_request = sample_request\<rparr>, Dropped)]) \<in> set (srv_tasks panicked_server)"
    by (simp add: panicked_server_def Let_def)
  have "(rq_step counting_tracker)\<^sup>*\<^sup>* panicked_server ?t" by (intro r_into_rtranclp step_enqueue)
  from panicked_request_blocks_its_key[OF panicked_server_reachable dead this] show ?thesis
    by (simp add: do_enqueue_def enqueue_def panicked_server_def queue_of_def Let_def)
qed

text \<open>
  C12: The gate of a connection: while it accepts, the requests that run through it are counted;
  once \<open>shutdown\<close> has returned, no request of that connection runs, queued or spawned directly, and
  none will in any continuation. The behaviour of \<open>TaskTracker\<close> is a hypothesis.
\<close>
theorem shutdown_gate_is_quiet:
  assumes "tracker_laws tr live closed" "reachable (server_init tr) (rq_step tr) s"
    and "gate_shutdown_done tr (srv_gates s g)"
    and "(rq_step tr)\<^sup>*\<^sup>* s t"
  shows "(\<forall>key batch r ph. (key, Drain_join batch) \<in> set (srv_tasks t) \<and> (r, ph) \<in> set batch \<and> qir_gate (qsr_request r) = g
        \<longrightarrow> ph \<noteq> Running)
    \<and> (\<forall>r ph. (r, ph) \<in> set (srv_direct t) \<and> qir_gate r = g \<longrightarrow> ph \<noteq> Running)"
proof -
  have "\<not> accepting (srv_gates s g) \<and> running_count s g = 0"
    using gate_inv_reachable[OF assms(1,2)] assms(1,3)
    by (auto simp: gate_inv_def gate_shutdown_done_def tracker_laws_def)
  then have "running_count t g = 0" using shut_gate_stays[OF assms(4)] by blast
  from running_count_0[OF this] running_count_0_direct[OF this] show ?thesis by blast
qed

definition shut_server :: "(nat, nat \<times> bool) server" where
  "shut_server = empty_server\<lparr>srv_gates :=
     (srv_gates empty_server)(7 := gate_shutdown counting_tracker (srv_gates empty_server 7))\<rparr>"

definition shut_server_draining :: "(nat, nat \<times> bool) server" where
  "shut_server_draining = do_drain 0 (Key_Global ''config'')
     (do_enqueue (Key_Global ''config'') Exclusive sample_request shut_server)"

theorem shutdown_gate_is_quiet_witness:
  "list_all (\<lambda>(r, ph). ph \<noteq> Running) (current_batch shut_server_draining (Key_Global ''config''))
   \<and> current_batch shut_server_draining (Key_Global ''config'') \<noteq> []"
proof -
  let ?k = "Key_Global ''config''" and ?r = "\<lparr>qsr_access = Exclusive, qsr_request = sample_request\<rparr>"
  have s: "reachable (server_init counting_tracker) (rq_step counting_tracker) shut_server"
    using reach_step[OF empty_server_reachable step_shutdown[of counting_tracker empty_server 7]]
    by (simp add: shut_server_def)
  have closed: "gate_shutdown_done counting_tracker (srv_gates shut_server 7)"
    by (simp add: shut_server_def empty_server_def gate_shutdown_done_def gate_shutdown_def
        counting_tracker_def ConnectionRpcGate_new_def)
  have "task_step counting_tracker ?k (do_enqueue ?k Exclusive sample_request shut_server) shut_server_draining"
    unfolding shut_server_draining_def
    by (rule drain_look) (simp_all add: do_enqueue_def enqueue_def shut_server_def empty_server_def)
  then have run: "(rq_step counting_tracker)\<^sup>*\<^sup>* shut_server shut_server_draining"
    by (meson converse_rtranclp_into_rtranclp r_into_rtranclp step_enqueue step_task)
  have tasks: "srv_tasks shut_server_draining = [(?k, Drain_join [(?r, Waiting)])]"
    by (simp add: shut_server_draining_def do_drain_def do_enqueue_def enqueue_def drain_next_def shut_server_def
        empty_server_def)
  have "Waiting \<noteq> Running"
    using shutdown_gate_is_quiet[OF counting_tracker_laws s closed run] by (auto simp: tasks sample_request_def)
  with tasks show ?thesis by (simp add: current_batch_def live_tasks_def)
qed

end
