(* ===== verification/Thread_Status.thy ===== *)
theory Thread_Status
  imports Codex_Prelude "HOL-Library.AList"
begin

text \<open>
  The status of threads as the app server reports it (\<open>codex-rs/app-server/src/thread_status.rs\<close>)
  and the shutdown state machine that waits for running turns (\<open>codex-rs/app-server/src/lib.rs\<close>).

  Each operation of \<open>ThreadWatchManager\<close> changes the shared state under a lock and publishes the
  result after releasing it. The operations as a whole are functions; tasks that are between
  their change and their publication are the step relation \<open>watch_step\<close>. \<open>tokio\<close>'s watch channel is a
  parameter with its documented behaviour as the hypothesis \<open>watch_laws\<close>.
\<close>

section \<open>Watch channels\<close>

text \<open>
  The operations the code uses: a channel whose first receiver was dropped, \<open>send\<close>,
  \<open>send_if_modified\<close> with a closure that assigns a value, \<open>subscribe\<close>, \<open>receiver_count\<close>, reading the
  value, and a receiver going away.
\<close>

record ('ch, 'v) watch =
  watch_channel :: "'v \<Rightarrow> 'ch"
  watch_send :: "'v \<Rightarrow> 'ch \<Rightarrow> 'ch"
  watch_assign :: "'v \<Rightarrow> 'ch \<Rightarrow> 'ch"
  watch_subscribe :: "'ch \<Rightarrow> 'ch"
  watch_receiver_count :: "'ch \<Rightarrow> nat"
  watch_borrow :: "'ch \<Rightarrow> 'v"
  watch_drop_receiver :: "'ch \<Rightarrow> 'ch"

text \<open>
  \<open>send\<close> fails and leaves the value alone when there is no receiver; the other update does not
  look at receivers.
\<close>

definition watch_laws :: "('ch, 'v) watch \<Rightarrow> bool" where
  "watch_laws w \<longleftrightarrow>
     (\<forall>v. watch_borrow w (watch_channel w v) = v \<and> watch_receiver_count w (watch_channel w v) = 0)
   \<and> (\<forall>v c. watch_borrow w (watch_send w v c) = (if watch_receiver_count w c = 0 then watch_borrow w c else v)
         \<and> watch_receiver_count w (watch_send w v c) = watch_receiver_count w c)
   \<and> (\<forall>v c. watch_borrow w (watch_assign w v c) = v
         \<and> watch_receiver_count w (watch_assign w v c) = watch_receiver_count w c)
   \<and> (\<forall>c. watch_borrow w (watch_subscribe w c) = watch_borrow w c
         \<and> watch_receiver_count w (watch_subscribe w c) = Suc (watch_receiver_count w c))
   \<and> (\<forall>c. watch_borrow w (watch_drop_receiver w c) = watch_borrow w c
         \<and> watch_receiver_count w (watch_drop_receiver w c) = watch_receiver_count w c - 1)"

definition pair_watch :: "('v \<times> nat, 'v) watch" where
  "pair_watch = \<lparr>watch_channel = (\<lambda>v. (v, 0)), watch_send = (\<lambda>v (x, n). (if n = 0 then x else v, n)),
     watch_assign = (\<lambda>v (x, n). (v, n)), watch_subscribe = apsnd Suc, watch_receiver_count = snd,
     watch_borrow = fst, watch_drop_receiver = apsnd (\<lambda>n. n - 1)\<rparr>"

lemma pair_watch_laws: "watch_laws pair_watch"
  by (auto simp: watch_laws_def pair_watch_def case_prod_beta)

section \<open>Status of a thread\<close>

datatype ThreadActiveFlag = WaitingOnUserInput

datatype ThreadStatus = NotLoaded | Idle | SystemError | Active "ThreadActiveFlag list"

record ThreadStatusChangedNotification =
  tsc_thread_id :: string
  tsc_status :: ThreadStatus

record RuntimeFacts =
  is_loaded :: bool
  running :: bool
  pending_user_input_requests :: nat
  has_system_error :: bool

definition RuntimeFacts_default :: RuntimeFacts where
  "RuntimeFacts_default = \<lparr>is_loaded = False, running = False, pending_user_input_requests = 0, has_system_error = False\<rparr>"

definition loaded_thread_status :: "RuntimeFacts \<Rightarrow> ThreadStatus" where
  "loaded_thread_status r =
     (if \<not> is_loaded r then NotLoaded
      else
        let active_flags = (if pending_user_input_requests r > 0 then [WaitingOnUserInput] else []) in
        if running r \<or> active_flags \<noteq> [] then Active active_flags
        else if has_system_error r then SystemError
        else Idle)"

definition resolve_thread_status :: "ThreadStatus \<Rightarrow> bool \<Rightarrow> ThreadStatus" where
  "resolve_thread_status status has_in_progress_turn =
     (if has_in_progress_turn \<and> (status = Idle \<or> status = NotLoaded) then Active [] else status)"

section \<open>The shared state\<close>

text \<open>The map of runtime facts is an association list with distinct keys, so that it can be counted.\<close>

record 'w ThreadWatchState =
  runtime_by_thread_id :: "(string \<times> RuntimeFacts) list"
  status_watcher_by_thread_id :: "string \<rightharpoonup> 'w"

definition ThreadWatchState_default :: "'w ThreadWatchState" where
  "ThreadWatchState_default = \<lparr>runtime_by_thread_id = [], status_watcher_by_thread_id = Map.empty\<rparr>"

definition status_for :: "'w ThreadWatchState \<Rightarrow> string \<Rightarrow> ThreadStatus option" where
  "status_for st t = map_option loaded_thread_status (map_of (runtime_by_thread_id st) t)"

definition loaded_status_for_thread :: "'w ThreadWatchState \<Rightarrow> string \<Rightarrow> ThreadStatus" where
  "loaded_status_for_thread st t = (case status_for st t of Some s \<Rightarrow> s | None \<Rightarrow> NotLoaded)"

definition update_status_watcher ::
  "('w, ThreadStatus) watch \<Rightarrow> string \<Rightarrow> ThreadStatus \<Rightarrow> 'w ThreadWatchState \<Rightarrow> 'w ThreadWatchState" where
  "update_status_watcher w t status st =
     (case status_watcher_by_thread_id st t of
        None \<Rightarrow> st
      | Some sender \<Rightarrow>
          (let sender = (if watch_borrow w sender = status then sender else watch_assign w status sender) in
           if watch_receiver_count w sender = 0
           then st\<lparr>status_watcher_by_thread_id := (status_watcher_by_thread_id st)(t := None)\<rparr>
           else st\<lparr>status_watcher_by_thread_id := (status_watcher_by_thread_id st)(t \<mapsto> sender)\<rparr>))"

definition update_status_watcher_for_thread ::
  "('w, ThreadStatus) watch \<Rightarrow> string \<Rightarrow> 'w ThreadWatchState \<Rightarrow> 'w ThreadWatchState" where
  "update_status_watcher_for_thread w t st = update_status_watcher w t (loaded_status_for_thread st t) st"

definition status_changed_notification ::
  "'w ThreadWatchState \<Rightarrow> string \<Rightarrow> ThreadStatus option \<Rightarrow> ThreadStatusChangedNotification option" where
  "status_changed_notification st t previous_status =
     (case status_for st t of
        None \<Rightarrow> None
      | Some status \<Rightarrow>
          if previous_status = Some status then None
          else Some \<lparr>tsc_thread_id = t, tsc_status = status\<rparr>)"

definition entry_or_default :: "string \<Rightarrow> 'w ThreadWatchState \<Rightarrow> RuntimeFacts" where
  "entry_or_default t st =
     (case map_of (runtime_by_thread_id st) t of Some r \<Rightarrow> r | None \<Rightarrow> RuntimeFacts_default)"

definition state_upsert_thread ::
  "('w, ThreadStatus) watch \<Rightarrow> string \<Rightarrow> bool \<Rightarrow> 'w ThreadWatchState
   \<Rightarrow> 'w ThreadWatchState \<times> ThreadStatusChangedNotification option" where
  "state_upsert_thread w t emit_notification st =
     (let previous_status = status_for st t;
          runtime = entry_or_default t st;
          st = st\<lparr>runtime_by_thread_id := AList.update t (runtime\<lparr>is_loaded := True\<rparr>) (runtime_by_thread_id st)\<rparr>;
          st = update_status_watcher_for_thread w t st
      in (st, if emit_notification then status_changed_notification st t previous_status else None))"

definition state_remove_thread ::
  "('w, ThreadStatus) watch \<Rightarrow> string \<Rightarrow> 'w ThreadWatchState
   \<Rightarrow> 'w ThreadWatchState \<times> ThreadStatusChangedNotification option" where
  "state_remove_thread w t st =
     (let previous_status = status_for st t;
          st = st\<lparr>runtime_by_thread_id := AList.delete t (runtime_by_thread_id st)\<rparr>;
          st = update_status_watcher w t NotLoaded st
      in (st, if previous_status \<noteq> None \<and> previous_status \<noteq> Some NotLoaded
              then Some \<lparr>tsc_thread_id = t, tsc_status = NotLoaded\<rparr> else None))"

definition update_runtime ::
  "('w, ThreadStatus) watch \<Rightarrow> string \<Rightarrow> (RuntimeFacts \<Rightarrow> RuntimeFacts) \<Rightarrow> 'w ThreadWatchState
   \<Rightarrow> 'w ThreadWatchState \<times> ThreadStatusChangedNotification option" where
  "update_runtime w t mutate st =
     (let previous_status = status_for st t;
          runtime = entry_or_default t st;
          st = st\<lparr>runtime_by_thread_id :=
            AList.update t (mutate (runtime\<lparr>is_loaded := True\<rparr>)) (runtime_by_thread_id st)\<rparr>;
          st = update_status_watcher_for_thread w t st
      in (st, status_changed_notification st t previous_status))"

definition state_subscribe :: "('w, ThreadStatus) watch \<Rightarrow> string \<Rightarrow> 'w ThreadWatchState \<Rightarrow> 'w ThreadWatchState" where
  "state_subscribe w t st =
     (let status = loaded_status_for_thread st t;
          sender = (case status_watcher_by_thread_id st t of Some c \<Rightarrow> c | None \<Rightarrow> watch_channel w status)
      in st\<lparr>status_watcher_by_thread_id := (status_watcher_by_thread_id st)(t \<mapsto> watch_subscribe w sender)\<rparr>)"

section \<open>The operations of the manager\<close>

text \<open>\<open>twm_sent\<close> is what went to \<open>outgoing\<close>; without an outgoing sender nothing is sent.\<close>

record ('w, 'c) ThreadWatchManager =
  twm_state :: "'w ThreadWatchState"
  twm_outgoing :: bool
  twm_sent :: "ThreadStatusChangedNotification list"
  running_turn_count_tx :: 'c

definition ThreadWatchManager_new :: "('c, nat) watch \<Rightarrow> ('w, 'c) ThreadWatchManager" where
  "ThreadWatchManager_new wc = \<lparr>twm_state = ThreadWatchState_default, twm_outgoing = False, twm_sent = [],
     running_turn_count_tx = watch_channel wc 0\<rparr>"

definition new_with_outgoing :: "('c, nat) watch \<Rightarrow> ('w, 'c) ThreadWatchManager" where
  "new_with_outgoing wc = \<lparr>twm_state = ThreadWatchState_default, twm_outgoing = True, twm_sent = [],
     running_turn_count_tx = watch_channel wc 0\<rparr>"

definition running_turn_count :: "'w ThreadWatchState \<Rightarrow> nat" where
  "running_turn_count st = length (filter running (map snd (runtime_by_thread_id st)))"

datatype thread_op =
    Upsert_thread string
  | Upsert_thread_silently string
  | Remove_thread string
  | Note_turn_started string
  | Note_turn_completed string bool
  | Note_turn_interrupted string
  | Note_thread_shutdown string
  | Note_system_error string

definition clear_active_state :: "RuntimeFacts \<Rightarrow> RuntimeFacts" where
  "clear_active_state r = r\<lparr>running := False, pending_user_input_requests := 0\<rparr>"

text \<open>The closure each operation passes to \<open>mutate_and_publish\<close>.\<close>

fun op_mutate ::
  "('w, ThreadStatus) watch \<Rightarrow> thread_op \<Rightarrow> 'w ThreadWatchState
   \<Rightarrow> 'w ThreadWatchState \<times> ThreadStatusChangedNotification option" where
  "op_mutate w (Upsert_thread t) st = state_upsert_thread w t True st"
| "op_mutate w (Upsert_thread_silently t) st = state_upsert_thread w t False st"
| "op_mutate w (Remove_thread t) st = state_remove_thread w t st"
| "op_mutate w (Note_turn_started t) st =
     update_runtime w t (\<lambda>r. r\<lparr>is_loaded := True, running := True, has_system_error := False\<rparr>) st"
| "op_mutate w (Note_turn_completed t failed) st = update_runtime w t clear_active_state st"
| "op_mutate w (Note_turn_interrupted t) st = update_runtime w t clear_active_state st"
| "op_mutate w (Note_thread_shutdown t) st =
     update_runtime w t (\<lambda>r. r\<lparr>running := False, pending_user_input_requests := 0, is_loaded := False\<rparr>) st"
| "op_mutate w (Note_system_error t) st =
     update_runtime w t (\<lambda>r. r\<lparr>running := False, pending_user_input_requests := 0, has_system_error := True\<rparr>) st"

text \<open>
  \<open>mutate_and_publish\<close>: the part under the lock gives the notification and the count; then the
  count is sent and, if there is an outgoing sender, the notification.
\<close>

type_synonym publication = "ThreadStatusChangedNotification option \<times> nat"

definition mutate_locked ::
  "('w, ThreadStatus) watch \<Rightarrow> thread_op \<Rightarrow> ('w, 'c) ThreadWatchManager
   \<Rightarrow> ('w, 'c) ThreadWatchManager \<times> publication" where
  "mutate_locked w op m =
     (let (st, notification) = op_mutate w op (twm_state m)
      in (m\<lparr>twm_state := st\<rparr>, notification, running_turn_count st))"

definition publish_count :: "('c, nat) watch \<Rightarrow> nat \<Rightarrow> ('w, 'c) ThreadWatchManager \<Rightarrow> ('w, 'c) ThreadWatchManager" where
  "publish_count wc n m = m\<lparr>running_turn_count_tx := watch_send wc n (running_turn_count_tx m)\<rparr>"

definition publish_notification ::
  "ThreadStatusChangedNotification option \<Rightarrow> ('w, 'c) ThreadWatchManager \<Rightarrow> ('w, 'c) ThreadWatchManager" where
  "publish_notification notification m =
     (case notification of
        None \<Rightarrow> m
      | Some n \<Rightarrow> if twm_outgoing m then m\<lparr>twm_sent := twm_sent m @ [n]\<rparr> else m)"

definition mutate_and_publish ::
  "('w, ThreadStatus) watch \<Rightarrow> ('c, nat) watch \<Rightarrow> thread_op \<Rightarrow> ('w, 'c) ThreadWatchManager
   \<Rightarrow> ('w, 'c) ThreadWatchManager" where
  "mutate_and_publish w wc op m =
     (let (m, notification, n) = mutate_locked w op m
      in publish_notification notification (publish_count wc n m))"

definition loaded_statuses_for_threads ::
  "('w, 'c) ThreadWatchManager \<Rightarrow> string list \<Rightarrow> (string \<rightharpoonup> ThreadStatus)" where
  "loaded_statuses_for_threads m ts =
     foldl (\<lambda>acc t. acc(t \<mapsto> loaded_status_for_thread (twm_state m) t)) Map.empty ts"

definition subscribe :: "('w, ThreadStatus) watch \<Rightarrow> string \<Rightarrow> ('w, 'c) ThreadWatchManager \<Rightarrow> ('w, 'c) ThreadWatchManager" where
  "subscribe w t m = m\<lparr>twm_state := state_subscribe w t (twm_state m)\<rparr>"

definition subscribe_running_turn_count :: "('c, nat) watch \<Rightarrow> ('w, 'c) ThreadWatchManager \<Rightarrow> ('w, 'c) ThreadWatchManager" where
  "subscribe_running_turn_count wc m =
     m\<lparr>running_turn_count_tx := watch_subscribe wc (running_turn_count_tx m)\<rparr>"

lemmas thread_status_defs =
  op_mutate.simps state_upsert_thread_def state_remove_thread_def update_runtime_def
  update_status_watcher_for_thread_def clear_active_state_def Let_def

section \<open>Graceful shutdown\<close>

datatype ShutdownSignal = Forceable | GracefulOnly

datatype ShutdownAction = Noop | Finish

record ShutdownState =
  requested :: bool
  forced :: bool
  last_logged_running_turn_count :: "nat option"

definition ShutdownState_default :: ShutdownState where
  "ShutdownState_default = \<lparr>requested = False, forced = False, last_logged_running_turn_count = None\<rparr>"

definition on_signal :: "ShutdownSignal \<Rightarrow> ShutdownState \<Rightarrow> ShutdownState" where
  "on_signal signal st =
     (if requested st then (if signal = Forceable then st\<lparr>forced := True\<rparr> else st)
      else st\<lparr>requested := True, last_logged_running_turn_count := None\<rparr>)"

definition shutdown_update :: "nat \<Rightarrow> ShutdownState \<Rightarrow> ShutdownState \<times> ShutdownAction" where
  "shutdown_update n st =
     (if \<not> requested st then (st, Noop)
      else if forced st \<or> n = 0 then (st, Finish)
      else (if last_logged_running_turn_count st \<noteq> Some n
            then st\<lparr>last_logged_running_turn_count := Some n\<rparr> else st, Noop))"

section \<open>What one operation does\<close>

fun op_thread :: "thread_op \<Rightarrow> string" where
  "op_thread (Upsert_thread t) = t"
| "op_thread (Upsert_thread_silently t) = t"
| "op_thread (Remove_thread t) = t"
| "op_thread (Note_turn_started t) = t"
| "op_thread (Note_turn_completed t failed) = t"
| "op_thread (Note_turn_interrupted t) = t"
| "op_thread (Note_thread_shutdown t) = t"
| "op_thread (Note_system_error t) = t"

fun op_facts :: "thread_op \<Rightarrow> RuntimeFacts \<Rightarrow> RuntimeFacts option" where
  "op_facts (Upsert_thread t) r = Some (r\<lparr>is_loaded := True\<rparr>)"
| "op_facts (Upsert_thread_silently t) r = Some (r\<lparr>is_loaded := True\<rparr>)"
| "op_facts (Remove_thread t) r = None"
| "op_facts (Note_turn_started t) r = Some (r\<lparr>is_loaded := True, running := True, has_system_error := False\<rparr>)"
| "op_facts (Note_turn_completed t failed) r = Some (clear_active_state (r\<lparr>is_loaded := True\<rparr>))"
| "op_facts (Note_turn_interrupted t) r = Some (clear_active_state (r\<lparr>is_loaded := True\<rparr>))"
| "op_facts (Note_thread_shutdown t) r =
     Some (r\<lparr>is_loaded := False, running := False, pending_user_input_requests := 0\<rparr>)"
| "op_facts (Note_system_error t) r =
     Some (r\<lparr>is_loaded := True, running := False, pending_user_input_requests := 0, has_system_error := True\<rparr>)"

lemma runtime_update_status_watcher [simp]:
  "runtime_by_thread_id (update_status_watcher w t status st) = runtime_by_thread_id st"
  by (simp add: update_status_watcher_def Let_def split: option.splits)

lemma status_for_cong: "runtime_by_thread_id st = runtime_by_thread_id st' \<Longrightarrow> status_for st = status_for st'"
  by (simp add: status_for_def fun_eq_iff)

lemma status_for_update_status_watcher [simp]:
  "status_for (update_status_watcher w t status st) = status_for st"
  by (rule status_for_cong) simp

lemma op_mutate_facts:
  "map_of (runtime_by_thread_id (fst (op_mutate w op st))) =
   (map_of (runtime_by_thread_id st))(op_thread op := op_facts op (entry_or_default (op_thread op) st))"
  by (cases op) (auto simp: thread_status_defs update_conv' delete_conv' fun_eq_iff)

lemma op_mutate_distinct:
  "distinct (map fst (runtime_by_thread_id st)) \<Longrightarrow>
   distinct (map fst (runtime_by_thread_id (fst (op_mutate w op st))))"
  by (cases op) (simp_all add: thread_status_defs distinct_update distinct_delete)

lemma op_mutate_status:
  "status_for (fst (op_mutate w op st)) =
   (status_for st)(op_thread op := map_option loaded_thread_status (op_facts op (entry_or_default (op_thread op) st)))"
  by (auto simp: status_for_def op_mutate_facts fun_eq_iff)

lemma loaded_status_alt: "loaded_status_for_thread st = (\<lambda>t. case status_for st t of Some s \<Rightarrow> s | None \<Rightarrow> NotLoaded)"
  by (simp add: loaded_status_for_thread_def fun_eq_iff)

lemma loaded_status_update_status_watcher [simp]:
  "loaded_status_for_thread (update_status_watcher w t status st) = loaded_status_for_thread st"
  by (simp add: loaded_status_alt)

text \<open>A client that applies the notifications follows the status of every thread.\<close>

definition apply_notification ::
  "ThreadStatusChangedNotification option \<Rightarrow> (string \<Rightarrow> ThreadStatus) \<Rightarrow> string \<Rightarrow> ThreadStatus" where
  "apply_notification n view =
     (case n of None \<Rightarrow> view | Some n \<Rightarrow> view(tsc_thread_id n := tsc_status n))"

lemma op_mutate_notification:
  assumes "op \<noteq> Upsert_thread_silently (op_thread op)" and "op_mutate w op st = (st', n)"
  shows "loaded_status_for_thread st' = apply_notification n (loaded_status_for_thread st)"
proof -
  have st': "st' = fst (op_mutate w op st)" and n: "n = snd (op_mutate w op st)" using assms(2) by simp_all
  have status: "status_for st' = (status_for st)(op_thread op :=
      map_option loaded_thread_status (op_facts op (entry_or_default (op_thread op) st)))"
    by (simp only: st' op_mutate_status)
  show ?thesis
  proof (cases op)
    case (Remove_thread t)
    then have "n = (if status_for st t \<noteq> None \<and> status_for st t \<noteq> Some NotLoaded
        then Some \<lparr>tsc_thread_id = t, tsc_status = NotLoaded\<rparr> else None)"
      using n by (simp add: thread_status_defs)
    with status Remove_thread show ?thesis
      by (auto simp: loaded_status_alt apply_notification_def fun_eq_iff)
  next
    case (Upsert_thread_silently t)
    with assms(1) show ?thesis by simp
  qed (insert n st' status,
      simp_all add: thread_status_defs status_changed_notification_def loaded_status_alt
        apply_notification_def fun_eq_iff split: option.splits)
qed

lemma silent_other_threads:
  assumes "op_thread op \<noteq> t" "op_mutate w op st = (st', n)"
  shows "loaded_status_for_thread st' t = loaded_status_for_thread st t"
    and "apply_notification n view t = view t"
proof -
  show "loaded_status_for_thread st' t = loaded_status_for_thread st t"
    using assms op_mutate_status[of w op st] by (simp add: loaded_status_for_thread_def)
  show "apply_notification n view t = view t"
    using assms by (cases op)
      (auto simp: thread_status_defs apply_notification_def status_changed_notification_def split: option.splits if_splits)
qed

section \<open>Runs without overlap\<close>

definition run_ops ::
  "('w, ThreadStatus) watch \<Rightarrow> ('c, nat) watch \<Rightarrow> thread_op list \<Rightarrow> ('w, 'c) ThreadWatchManager
   \<Rightarrow> ('w, 'c) ThreadWatchManager" where
  "run_ops w wc ops m = foldl (\<lambda>m op. mutate_and_publish w wc op m) m ops"

definition client_view :: "ThreadStatusChangedNotification list \<Rightarrow> string \<Rightarrow> ThreadStatus" where
  "client_view ns = foldl (\<lambda>view n. view(tsc_thread_id n := tsc_status n)) (\<lambda>_. NotLoaded) ns"

lemma mutate_and_publish_simps:
  assumes "op_mutate w op (twm_state m) = (st', n)"
  shows "twm_state (mutate_and_publish w wc op m) = st'"
    and "twm_outgoing (mutate_and_publish w wc op m) = twm_outgoing m"
    and "twm_outgoing m \<Longrightarrow>
      client_view (twm_sent (mutate_and_publish w wc op m)) = apply_notification n (client_view (twm_sent m))"
    and "running_turn_count_tx (mutate_and_publish w wc op m)
      = watch_send wc (running_turn_count st') (running_turn_count_tx m)"
  using assms
  by (auto simp: mutate_and_publish_def mutate_locked_def publish_count_def publish_notification_def
      client_view_def apply_notification_def split: option.splits)

lemma running_turn_count_0:
  "distinct (map fst (runtime_by_thread_id st)) \<Longrightarrow>
   running_turn_count st = 0 \<longleftrightarrow> (\<nexists>t r. map_of (runtime_by_thread_id st) t = Some r \<and> running r)"
  by (auto simp: running_turn_count_def filter_empty_conv map_of_eq_Some_iff)

lemma run_ops_client_view:
  assumes "twm_outgoing m" "Upsert_thread_silently t \<notin> set ops"
    and "client_view (twm_sent m) t = loaded_status_for_thread (twm_state m) t"
  shows "client_view (twm_sent (run_ops w wc ops m)) t = loaded_status_for_thread (twm_state (run_ops w wc ops m)) t"
  using assms
proof (induction ops arbitrary: m)
  case (Cons op ops)
  obtain st' n where op: "op_mutate w op (twm_state m) = (st', n)" by (cases "op_mutate w op (twm_state m)")
  let ?m = "mutate_and_publish w wc op m"
  note simps = mutate_and_publish_simps[OF op, of wc]
  have "client_view (twm_sent ?m) t = loaded_status_for_thread (twm_state ?m) t"
  proof (cases "op_thread op = t")
    case True
    with Cons.prems(2) have "op \<noteq> Upsert_thread_silently (op_thread op)" by auto
    from op_mutate_notification[OF this op] Cons.prems(1,3) simps True show ?thesis
      by (auto simp: apply_notification_def split: option.splits)
  next
    case False
    from silent_other_threads[OF False op] Cons.prems(1,3) simps show ?thesis by simp
  qed
  with Cons.IH[of ?m] Cons.prems(1,2) simps show ?case by (simp add: run_ops_def)
qed (simp add: run_ops_def)

lemma run_ops_count:
  assumes "watch_laws wc" "watch_receiver_count wc (running_turn_count_tx m) > 0"
    and "distinct (map fst (runtime_by_thread_id (twm_state m)))"
    and "watch_borrow wc (running_turn_count_tx m) = running_turn_count (twm_state m)"
  shows "watch_borrow wc (running_turn_count_tx (run_ops w wc ops m)) = running_turn_count (twm_state (run_ops w wc ops m))
    \<and> distinct (map fst (runtime_by_thread_id (twm_state (run_ops w wc ops m))))"
  using assms(2-4)
proof (induction ops arbitrary: m)
  case (Cons op ops)
  obtain st' n where op: "op_mutate w op (twm_state m) = (st', n)" by (cases "op_mutate w op (twm_state m)")
  let ?m = "mutate_and_publish w wc op m"
  note simps = mutate_and_publish_simps[OF op, of wc]
  have "watch_receiver_count wc (running_turn_count_tx ?m) > 0"
    "watch_borrow wc (running_turn_count_tx ?m) = running_turn_count (twm_state ?m)"
    using simps Cons.prems(1) assms(1) by (simp_all add: watch_laws_def)
  moreover have "distinct (map fst (runtime_by_thread_id (twm_state ?m)))"
    using op_mutate_distinct[OF Cons.prems(2), of w op] op simps by simp
  ultimately show ?case using Cons.IH[of ?m] by (simp add: run_ops_def)
qed (simp add: run_ops_def)

section \<open>Overlapping operations\<close>

text \<open>
  An operation that has released the lock still has to send the count, then the notification.
  \<open>ws_subscribers\<close> counts the receivers of a thread's status that were handed out and not dropped yet,
  whatever became of the sender they came from.
\<close>

datatype in_flight =
    Publish_count "ThreadStatusChangedNotification option" nat
  | Publish_note "ThreadStatusChangedNotification option"
  | Published

record ('w, 'c) watch_system =
  ws_manager :: "('w, 'c) ThreadWatchManager"
  ws_in_flight :: "in_flight list"
  ws_subscribers :: "string \<Rightarrow> nat"

text \<open>A receiver of a thread's status is dropped; the sender counts its receivers as long as it is kept.\<close>

definition drop_status_receiver :: "('w, ThreadStatus) watch \<Rightarrow> string \<Rightarrow> ('w, 'c) ThreadWatchManager \<Rightarrow> ('w, 'c) ThreadWatchManager" where
  "drop_status_receiver w t m =
     (case status_watcher_by_thread_id (twm_state m) t of
        None \<Rightarrow> m
      | Some c \<Rightarrow> m\<lparr>twm_state := (twm_state m)\<lparr>status_watcher_by_thread_id :=
          (status_watcher_by_thread_id (twm_state m))(t \<mapsto> watch_drop_receiver w c)\<rparr>\<rparr>)"

inductive watch_step ::
  "('w, ThreadStatus) watch \<Rightarrow> ('c, nat) watch \<Rightarrow> ('w, 'c) watch_system \<Rightarrow> ('w, 'c) watch_system \<Rightarrow> bool"
  for w wc where
  op_begin: "mutate_locked w op (ws_manager s) = (m, notification, n) \<Longrightarrow>
     watch_step w wc s (s\<lparr>ws_manager := m, ws_in_flight := ws_in_flight s @ [Publish_count notification n]\<rparr>)"
| op_count: "i < length (ws_in_flight s) \<Longrightarrow> ws_in_flight s ! i = Publish_count notification n \<Longrightarrow>
     watch_step w wc s (s\<lparr>ws_manager := publish_count wc n (ws_manager s),
       ws_in_flight := (ws_in_flight s)[i := Publish_note notification]\<rparr>)"
| op_note: "i < length (ws_in_flight s) \<Longrightarrow> ws_in_flight s ! i = Publish_note notification \<Longrightarrow>
     watch_step w wc s (s\<lparr>ws_manager := publish_notification notification (ws_manager s),
       ws_in_flight := (ws_in_flight s)[i := Published]\<rparr>)"
| status_subscribe: "watch_step w wc s (s\<lparr>ws_manager := subscribe w t (ws_manager s),
     ws_subscribers := (ws_subscribers s)(t := Suc (ws_subscribers s t))\<rparr>)"
| status_receiver_dropped: "ws_subscribers s t > 0 \<Longrightarrow>
     watch_step w wc s (s\<lparr>ws_manager := drop_status_receiver w t (ws_manager s),
       ws_subscribers := (ws_subscribers s)(t := ws_subscribers s t - 1)\<rparr>)"
| count_subscribe: "watch_step w wc s (s\<lparr>ws_manager := subscribe_running_turn_count wc (ws_manager s)\<rparr>)"

definition watch_init :: "('c, nat) watch \<Rightarrow> ('w, 'c) watch_system \<Rightarrow> bool" where
  "watch_init wc s \<longleftrightarrow> s = \<lparr>ws_manager = new_with_outgoing wc, ws_in_flight = [], ws_subscribers = (\<lambda>_. 0)\<rparr>"

text \<open>
  Every sender has the current status and counts all the receivers of its thread, and a thread
  without a sender has no receiver.
\<close>

definition watchers_ok :: "('w, ThreadStatus) watch \<Rightarrow> (string \<Rightarrow> nat) \<Rightarrow> 'w ThreadWatchState \<Rightarrow> bool" where
  "watchers_ok w subs st \<longleftrightarrow> (\<forall>t. case status_watcher_by_thread_id st t of
      None \<Rightarrow> subs t = 0
    | Some c \<Rightarrow> watch_borrow w c = loaded_status_for_thread st t \<and> watch_receiver_count w c = subs t)"

lemma update_status_watcher_ok:
  assumes "watch_laws w" "status = loaded_status_for_thread st t"
    and "\<And>t'. case status_watcher_by_thread_id st t' of
        None \<Rightarrow> subs t' = 0
      | Some c \<Rightarrow> (t' \<noteq> t \<longrightarrow> watch_borrow w c = loaded_status_for_thread st t') \<and> watch_receiver_count w c = subs t'"
  shows "watchers_ok w subs (update_status_watcher w t status st)"
  unfolding watchers_ok_def loaded_status_update_status_watcher
proof
  fix t'
  have laws: "watch_borrow w (watch_assign w status d) = status" "watch_receiver_count w (watch_assign w status d) = watch_receiver_count w d" for d
    using assms(1) by (simp_all add: watch_laws_def)
  show "case status_watcher_by_thread_id (update_status_watcher w t status st) t' of
      None \<Rightarrow> subs t' = 0
    | Some c \<Rightarrow> watch_borrow w c = loaded_status_for_thread st t' \<and> watch_receiver_count w c = subs t'"
    using assms(2) assms(3)[of t'] laws
    by (cases "t' = t") (auto simp: update_status_watcher_def Let_def split: option.splits if_splits)
qed

lemma op_mutate_watchers_ok:
  assumes w: "watch_laws w" and ok: "watchers_ok w subs st" and op: "op_mutate w op st = (st', n)"
  shows "watchers_ok w subs st'"
proof -
  obtain st1 status where st': "st' = update_status_watcher w (op_thread op) status st1"
    and status: "status = loaded_status_for_thread st1 (op_thread op)"
    and watchers: "status_watcher_by_thread_id st1 = status_watcher_by_thread_id st"
  proof (cases op)
    case (Remove_thread t)
    show ?thesis
      by (rule that[of NotLoaded "st\<lparr>runtime_by_thread_id := AList.delete t (runtime_by_thread_id st)\<rparr>"])
        (use op Remove_thread in \<open>auto simp: thread_status_defs loaded_status_for_thread_def status_for_def delete_conv'\<close>)
  qed (insert op, (auto simp: thread_status_defs intro!: that)+)
  have other: "loaded_status_for_thread st1 t = loaded_status_for_thread st t" if "t \<noteq> op_thread op" for t
    using silent_other_threads(1)[OF _ op] that by (auto simp: st')
  show ?thesis
    unfolding st'
  proof (rule update_status_watcher_ok[OF w status], goal_cases)
    case (1 t')
    from ok[unfolded watchers_ok_def, rule_format, of t'] other[of t'] watchers show ?case by (auto split: option.splits)
  qed
qed

lemma watchers_ok_step:
  assumes w: "watch_laws w" and ok: "watchers_ok w (ws_subscribers s) (twm_state (ws_manager s))" and step: "watch_step w wc s s'"
  shows "watchers_ok w (ws_subscribers s') (twm_state (ws_manager s'))"
  using step
proof cases
  case (op_begin op m notification n)
  obtain st' nt where op: "op_mutate w op (twm_state (ws_manager s)) = (st', nt)"
    by (cases "op_mutate w op (twm_state (ws_manager s))")
  from op_mutate_watchers_ok[OF w ok op] op_begin op show ?thesis by (auto simp: mutate_locked_def)
next
  case (op_count i notification n)
  with ok show ?thesis by (simp add: publish_count_def)
next
  case (op_note i notification)
  with ok show ?thesis by (simp add: publish_notification_def split: option.splits)
next
  case (status_subscribe t)
  have same: "loaded_status_for_thread (twm_state (subscribe w t (ws_manager s))) = loaded_status_for_thread (twm_state (ws_manager s))"
    by (simp add: subscribe_def state_subscribe_def loaded_status_alt status_for_def Let_def)
  show ?thesis
    unfolding watchers_ok_def
  proof
    fix t'
    show "case status_watcher_by_thread_id (twm_state (ws_manager s')) t' of
        None \<Rightarrow> ws_subscribers s' t' = 0
      | Some c \<Rightarrow> watch_borrow w c = loaded_status_for_thread (twm_state (ws_manager s')) t' \<and> watch_receiver_count w c = ws_subscribers s' t'"
      using ok[unfolded watchers_ok_def, rule_format, of t'] w status_subscribe same
      by (cases "t' = t") (auto simp: subscribe_def state_subscribe_def watch_laws_def Let_def split: option.splits)
  qed
next
  case (status_receiver_dropped t)
  have same: "loaded_status_for_thread (twm_state (drop_status_receiver w t (ws_manager s))) = loaded_status_for_thread (twm_state (ws_manager s))"
    by (simp add: drop_status_receiver_def loaded_status_alt status_for_def split: option.splits)
  show ?thesis
    unfolding watchers_ok_def
  proof
    fix t'
    show "case status_watcher_by_thread_id (twm_state (ws_manager s')) t' of
        None \<Rightarrow> ws_subscribers s' t' = 0
      | Some c \<Rightarrow> watch_borrow w c = loaded_status_for_thread (twm_state (ws_manager s')) t' \<and> watch_receiver_count w c = ws_subscribers s' t'"
      using ok[unfolded watchers_ok_def, rule_format, of t'] w status_receiver_dropped same
      by (auto simp: drop_status_receiver_def watch_laws_def split: option.splits)
  qed
next
  case count_subscribe
  with ok show ?thesis by (simp add: subscribe_running_turn_count_def)
qed

section \<open>Properties\<close>

text \<open>
  C8: A client that applies the status notifications it receives, starting from not loaded,
  knows the status of every thread after any sequence of operations that do not overlap, except of
  a thread that was upserted silently. Each operation has sent its notification before the next one
  takes the lock; what can happen otherwise is \<open>notifications_can_arrive_out_of_order\<close> below.
\<close>
theorem status_notifications_in_sync:
  assumes "Upsert_thread_silently t \<notin> set ops"
  shows "client_view (twm_sent (run_ops w wc ops (new_with_outgoing wc))) t
    = loaded_status_for_thread (twm_state (run_ops w wc ops (new_with_outgoing wc))) t"
  by (rule run_ops_client_view)
    (use assms in \<open>simp_all add: new_with_outgoing_def client_view_def loaded_status_for_thread_def
      status_for_def ThreadWatchState_default_def\<close>)

theorem status_notifications_in_sync_witness:
  "client_view (twm_sent (run_ops pair_watch pair_watch [Upsert_thread ''a'', Note_turn_started ''a'', Note_system_error ''a'']
     (new_with_outgoing pair_watch))) ''a'' = SystemError"
proof -
  have "loaded_status_for_thread (twm_state (run_ops pair_watch pair_watch
      [Upsert_thread ''a'', Note_turn_started ''a'', Note_system_error ''a''] (new_with_outgoing pair_watch))) ''a'' = SystemError"
    by code_simp
  with status_notifications_in_sync[of "''a''" "[Upsert_thread ''a'', Note_turn_started ''a'', Note_system_error ''a'']"
      pair_watch pair_watch]
  show ?thesis by simp
qed

text \<open>
  C13: Every subscriber to a thread's status sees its current status, in every interleaving of
  operations, subscriptions and receivers going away: while a receiver that was handed out for a
  thread is alive, the thread has a sender, that sender counts all the receivers of the thread, and
  its value is the current status. The behaviour of the watch channel is a hypothesis.
\<close>
theorem status_watchers_current:
  assumes "watch_laws w" "reachable (watch_init wc) (watch_step w wc) s" "ws_subscribers s t > 0"
  shows "\<exists>c. status_watcher_by_thread_id (twm_state (ws_manager s)) t = Some c
    \<and> watch_receiver_count w c = ws_subscribers s t
    \<and> watch_borrow w c = loaded_status_for_thread (twm_state (ws_manager s)) t"
proof -
  have "step_invariant (watch_init wc) (watch_step w wc) (\<lambda>s. watchers_ok w (ws_subscribers s) (twm_state (ws_manager s)))"
    by unfold_locales
      (auto simp: watch_init_def new_with_outgoing_def watchers_ok_def ThreadWatchState_default_def
        intro: watchers_ok_step[OF assms(1), unfolded watchers_ok_def, rule_format])
  from step_invariant.reachable_inv[OF this assms(2)] assms(3) show ?thesis
    by (auto simp: watchers_ok_def split: option.splits dest: spec[of _ t])
qed

type_synonym pair_system = "(ThreadStatus \<times> nat, nat \<times> nat) watch_system"

abbreviation pair_reachable :: "pair_system \<Rightarrow> bool" where
  "pair_reachable \<equiv> reachable (watch_init pair_watch) (watch_step pair_watch pair_watch)"

definition pair_init :: pair_system where
  "pair_init = \<lparr>ws_manager = new_with_outgoing pair_watch, ws_in_flight = [], ws_subscribers = (\<lambda>_. 0)\<rparr>"

lemma pair_init_reachable: "pair_reachable pair_init"
  by (rule reach_init) (simp add: watch_init_def pair_init_def)

definition begin_op :: "thread_op \<Rightarrow> pair_system \<Rightarrow> pair_system" where
  "begin_op op s = (let (m, notification, n) = mutate_locked pair_watch op (ws_manager s) in
     s\<lparr>ws_manager := m, ws_in_flight := ws_in_flight s @ [Publish_count notification n]\<rparr>)"

lemma begin_op_step: "watch_step pair_watch wc s (begin_op op s)"
  by (cases "mutate_locked pair_watch op (ws_manager s)") (auto simp: begin_op_def intro: op_begin)

lemma begin_op_reachable: "pair_reachable s \<Longrightarrow> pair_reachable (begin_op op s)"
  by (erule reach_step) (rule begin_op_step)

definition subscribed_system :: pair_system where
  "subscribed_system = begin_op (Note_turn_started ''a'') (pair_init\<lparr>ws_manager := subscribe pair_watch ''a'' (ws_manager pair_init),
     ws_subscribers := (ws_subscribers pair_init)(''a'' := Suc (ws_subscribers pair_init ''a''))\<rparr>)"

theorem status_watchers_current_witness:
  "\<exists>c. status_watcher_by_thread_id (twm_state (ws_manager subscribed_system)) ''a'' = Some c
    \<and> watch_receiver_count pair_watch c = 1 \<and> watch_borrow pair_watch c = Active []"
proof -
  have "pair_reachable subscribed_system"
    unfolding subscribed_system_def by (rule begin_op_reachable[OF reach_step[OF pair_init_reachable status_subscribe]])
  moreover have "ws_subscribers subscribed_system ''a'' = 1" by code_simp
  moreover have "loaded_status_for_thread (twm_state (ws_manager subscribed_system)) ''a'' = Active []" by code_simp
  ultimately show ?thesis using status_watchers_current[OF pair_watch_laws, of pair_watch subscribed_system "''a''"] by simp
qed



text \<open>Two turns end at the same time; the task that changed the state last publishes first.\<close>

definition two_turns_end :: pair_system where
  "two_turns_end = begin_op (Note_turn_completed ''b'' False) (begin_op (Note_turn_completed ''a'' False)
     (begin_op (Note_turn_started ''b'') (begin_op (Note_turn_started ''a'')
       (pair_init\<lparr>ws_manager := subscribe_running_turn_count pair_watch (ws_manager pair_init)\<rparr>))))"

definition send_count :: "nat \<Rightarrow> pair_system \<Rightarrow> pair_system" where
  "send_count i s = (case ws_in_flight s ! i of
     Publish_count notification n \<Rightarrow> s\<lparr>ws_manager := publish_count pair_watch n (ws_manager s),
       ws_in_flight := (ws_in_flight s)[i := Publish_note notification]\<rparr>
   | _ \<Rightarrow> s)"

definition send_note :: "nat \<Rightarrow> pair_system \<Rightarrow> pair_system" where
  "send_note i s = (case ws_in_flight s ! i of
     Publish_note notification \<Rightarrow> s\<lparr>ws_manager := publish_notification notification (ws_manager s),
       ws_in_flight := (ws_in_flight s)[i := Published]\<rparr>
   | _ \<Rightarrow> s)"

lemma send_reachable:
  assumes "pair_reachable s" "i < length (ws_in_flight s)"
  shows "pair_reachable (send_count i s)" "pair_reachable (send_note i s)"
  using assms reach_step[OF assms(1)]
  by (auto simp: send_count_def send_note_def intro: op_count op_note split: in_flight.splits)

lemma send_length [simp]:
  "length (ws_in_flight (send_count i s)) = length (ws_in_flight s)"
  "length (ws_in_flight (send_note i s)) = length (ws_in_flight s)"
  by (simp_all add: send_count_def send_note_def split: in_flight.splits)

definition stale_count :: pair_system where
  "stale_count = send_note 3 (send_note 2 (send_note 1 (send_note 0
     (send_count 2 (send_count 3 (send_count 1 (send_count 0 two_turns_end)))))))"

lemma stale_count_reachable: "pair_reachable stale_count"
proof -
  have "pair_reachable two_turns_end"
    unfolding two_turns_end_def
    by (intro begin_op_reachable reach_step[OF pair_init_reachable count_subscribe])
  moreover have "length (ws_in_flight two_turns_end) = 4" by code_simp
  ultimately show ?thesis
    unfolding stale_count_def by (intro send_reachable) simp_all
qed

text \<open>
  C39: When operations overlap, the published count can end up wrong. The count is taken under
  the lock but sent after it is released: with two turns ending at the same time there is an
  interleaving after which every operation has published, no thread runs a turn, and the count
  the server reads is one, so that a requested graceful shutdown does not finish.
\<close>
theorem running_turn_count_can_be_stale:
  "\<exists>s :: pair_system. pair_reachable s \<and> list_all ((=) Published) (ws_in_flight s)
     \<and> running_turn_count (twm_state (ws_manager s)) = 0
     \<and> watch_borrow pair_watch (running_turn_count_tx (ws_manager s)) = 1
     \<and> snd (shutdown_update (watch_borrow pair_watch (running_turn_count_tx (ws_manager s)))
          (on_signal Forceable ShutdownState_default)) = Noop"
proof (intro exI[of _ stale_count] conjI)
  show "pair_reachable stale_count" by (rule stale_count_reachable)
  show "list_all ((=) Published) (ws_in_flight stale_count)" by code_simp
  show "running_turn_count (twm_state (ws_manager stale_count)) = 0" by code_simp
  show "watch_borrow pair_watch (running_turn_count_tx (ws_manager stale_count)) = 1" by code_simp
  show "snd (shutdown_update (watch_borrow pair_watch (running_turn_count_tx (ws_manager stale_count)))
          (on_signal Forceable ShutdownState_default)) = Noop" by code_simp
qed

text \<open>
  Notifications that overlap: a turn starts and ends, and the notification of its end is sent first.
\<close>

definition turn_starts_and_ends :: pair_system where
  "turn_starts_and_ends = begin_op (Note_turn_completed ''a'' False) (begin_op (Note_turn_started ''a'') pair_init)"

definition late_notification :: pair_system where
  "late_notification = send_note 0 (send_note 1 (send_count 1 (send_count 0 turn_starts_and_ends)))"

text \<open>
  When operations overlap, notifications can arrive in the wrong order: there is an interleaving
  after which every operation has published, the thread is idle, and a client that applied the
  notifications shows it as active.
\<close>
theorem notifications_can_arrive_out_of_order:
  "\<exists>s :: pair_system. pair_reachable s \<and> list_all ((=) Published) (ws_in_flight s)
     \<and> loaded_status_for_thread (twm_state (ws_manager s)) ''a'' = Idle
     \<and> client_view (twm_sent (ws_manager s)) ''a'' = Active []"
proof (intro exI[of _ late_notification] conjI)
  have "pair_reachable turn_starts_and_ends"
    unfolding turn_starts_and_ends_def by (intro begin_op_reachable pair_init_reachable)
  moreover have "length (ws_in_flight turn_starts_and_ends) = 2" by code_simp
  ultimately show "pair_reachable late_notification" unfolding late_notification_def by (intro send_reachable) simp_all
  show "list_all ((=) Published) (ws_in_flight late_notification)" by code_simp
  show "loaded_status_for_thread (twm_state (ws_manager late_notification)) ''a'' = Idle" by code_simp
  show "client_view (twm_sent (ws_manager late_notification)) ''a'' = Active []" by code_simp
qed

end
