(* ===== verification/Spec2Isabelle.thy ===== *)
theory Spec2Isabelle
  imports Session_State Head_Tail_Buffer Template_Rendering Stream_Parser Request_Queues Thread_Status
begin

text \<open>
  A verification development for bitter-codex, a coding agent written in Rust. Source paths below
  are relative to \<open>codex-rs\<close>.

  \<^bold>\<open>The program.\<close> A session (\<open>core\<close>) keeps the history of a conversation. User input becomes a
  message of the history; context the agent adds (environment, notes, additional context) becomes
  messages too, marked so that they are told from what the user typed. Tool output is truncated
  when it is recorded, the history is normalized before it is sent to the model, and every item
  is written to a rollout file from which a session is rebuilt. Streamed model output is parsed
  chunk by chunk. The app server (\<open>app-server\<close>) lets clients drive sessions: it queues requests
  that must not overlap, closes a gate when a connection goes away, reports the status of threads
  and waits for running turns when it shuts down. Shared data is in \<open>protocol\<close>, and crates under
  \<open>utils\<close> truncate, parse and render text.

  \<^bold>\<open>Conventions.\<close> A struct is a \<open>record\<close>, an enum a \<open>datatype\<close> with the variants of the source, a
  method with \<open>&mut self\<close> returns the changed state, \<open>Result\<close> is a sum with the error on the
  left, and a panic is a value or a step. \<open>str\<close> is its list of UTF-8 bytes, so lengths and indices
  are byte lengths and byte indices. \<open>usize\<close>, \<open>u64\<close> and \<open>i64\<close> are numbers with their bounds, and
  every operation that can leave the range is the saturating or wrapping one the code calls. What
  tasks do concurrently is a step relation with one step for each critical section.

  \<^bold>\<open>Theories.\<close>

  \<^descr> \<open>Codex_Prelude\<close>, \<open>Utf8_Text\<close>: machine integers, vector idioms, the locale \<open>step_invariant\<close>
  (an invariant that holds initially and is kept by each step holds in each reachable state), and
  strings: characters, boundaries, trimming, search, splitting, \<open>from_utf8\<close> with error positions.

  \<^descr> \<open>Protocol_Models\<close>, \<open>Protocol_Events\<close>: the data of \<open>protocol/src\<close> (\<open>models.rs\<close>,
  \<open>user_input.rs\<close>, \<open>items.rs\<close>, \<open>dynamic_tools.rs\<close>, \<open>protocol.rs\<close>): response items, user input,
  turn items, token usage, rate limits, events, rollout items, and the operations on them.

  \<^descr> \<open>Context_Normalize\<close>: \<open>core/src/context_manager/normalize.rs\<close>. The passes that insert missing
  outputs and drop orphaned ones equal a list comprehension; afterwards calls and outputs are
  paired; the repair is idempotent; when a debug build panics; images are stripped.

  \<^descr> \<open>Text_Truncation\<close>, \<open>Output_Truncation\<close>: \<open>utils/string/src/truncate.rs\<close> and
  \<open>utils/output-truncation/src/lib.rs\<close>. What is kept is made of whole characters and as long as
  the budget allows. The loop over output items is analysed once in the locale \<open>text_budget\<close>, which
  is interpreted for byte and for token budgets.

  \<^descr> \<open>Context_Fragments\<close>, \<open>Event_Mapping\<close>: \<open>core/src/context\<close> and \<open>core/src/event_mapping.rs\<close>. The
  locale \<open>contextual_user_fragment\<close> is the contract of a registered fragment (what it renders is
  recognised) with an interpretation for each fragment; what of user input is stored and how it
  reads back; exactly which keys of additional context escape recognition.

  \<^descr> \<open>Context_History\<close>: \<open>core/src/context_manager/history.rs\<close>. Which items are recorded and how,
  the bound on recorded output, removal of both halves of a pair, replacement of images, and the
  token total with and without server-side counting of reasoning.

  \<^descr> \<open>Rollout_Reconstruction\<close>: \<open>core/src/session/rollout_reconstruction.rs\<close> and
  \<open>core/src/thread_rollout_truncation.rs\<close>. The backward scan with replay of the suffix refines a
  replay of the whole rollout; the newest user turn gives the settings; cutting keeps the requested
  number of user turns.

  \<^descr> \<open>Session_State\<close>: \<open>core/src/state\<close> and \<open>core/src/session/input_queue.rs\<close>. Invariants over every
  run of the pending-input queue and of the auto-compaction window, rate limits, merging of
  additional context.

  \<^descr> \<open>Head_Tail_Buffer\<close>: \<open>core/src/unified_exec/head_tail_buffer.rs\<close>. The buffer refines the stream
  pushed into it: first part, last part and the count of what is between.

  \<^descr> \<open>Template_Rendering\<close>: \<open>utils/template/src/lib.rs\<close>. Round trip of escaped text, and exactly
  when rendering succeeds and what it gives.

  \<^descr> \<open>Stream_Parser\<close>: \<open>utils/stream-parser/src\<close>. The locale \<open>stream_text_parser\<close> states that a
  parser does not depend on how its input is cut; the byte adapter is analysed inside it and the
  hidden-tag parser is its interpretation. The condition on the delimiters is shown to be needed.

  \<^descr> \<open>Request_Queues\<close>: \<open>app-server/src/request_serialization.rs\<close>, \<open>connection_rpc_gate.rs\<close> and the
  dispatch in \<open>message_processor.rs\<close>. Order, exclusion and progress of requests over every
  interleaving, with handlers that may panic; a panic blocks its key for good, which is proved as
  a property of the code; a closed gate is quiet.

  \<^descr> \<open>Thread_Status\<close>: \<open>app-server/src/thread_status.rs\<close> and the shutdown state machine of
  \<open>app-server/src/lib.rs\<close>. An operation changes the state under a lock and publishes after it
  releases the lock. What notifications and the count of running turns say is proved for
  operations that do not overlap (\<open>mutate_and_publish\<close>); for overlapping ones (\<open>watch_step\<close>)
  subscribers are proved to see the current status, and stale counts and notifications in the
  wrong order are proved to be reachable.

  \<^bold>\<open>Fuel.\<close> The loop of the hidden-tag parser (\<open>push_loop\<close>) is the only definition with fuel. Each
  iteration that goes on consumes a delimiter, which is not empty, so one more than the number of
  pending bytes is enough; \<open>push_loop_terminates\<close> proves it, and the properties state that the
  parser returns.

  \<^bold>\<open>Parameters.\<close> Code outside the repository is an argument: \<open>tokio_util\<close>'s \<open>TaskTracker\<close>
  (\<open>tracker_laws\<close>) and \<open>tokio\<close>'s watch channel (\<open>watch_laws\<close>) with their documented behaviour as
  hypotheses, each with an instance in the witnesses; reading files and decoding images; the length
  of an item's JSON text. Fresh identifiers are arguments.

  \<^bold>\<open>Not modelled.\<close> The turn loop, the tools and the model client (asynchronous I/O around the state
  modelled here), the app server's dispatch to sessions other than the queueing of requests,
  files and databases, configuration, login, telemetry, transports and the command line; of the
  modelled parts, the JSON wire form and the display of percentages in floating point.
\<close>

end
